(* ===== verification/Prelude.thy ===== *)
theory Prelude
  imports Main "HOL-Library.Word" "HOL-Library.Char_ord" "HOL-Library.List_Lexorder"
begin

text \<open>
  Shared vocabulary of the NodeLink development: machine integers and byte buffers, the ways a
  C++ operation can fail (an exception, or undefined behaviour), the sequencing of fallible
  operations, the C++ conversions between \<open>int\<close> and \<open>size_t\<close>, reachability
  of a transition system with the contract of an invariant, and the generic list and word facts
  that several components use.
\<close>

unbundle bit_operations_syntax

section \<open>Types\<close>

type_synonym u8 = "8 word"
type_synonym u16 = "16 word"
type_synonym u32 = "32 word"
type_synonym u64 = "64 word"

text \<open>C++ \<open>int\<close> is a 32-bit word read in two's complement by \<open>sint\<close>.\<close>

type_synonym i32 = "32 word"

text \<open>\<open>using Buffer = std::vector<uint8_t>\<close> (include/parsing/buffer.h).\<close>

type_synonym buffer = "u8 list"

named_theorems wire_simps \<open>lengths and contents of the byte strings the program builds\<close>
named_theorems frame_simps \<open>record fields that an operation leaves unchanged\<close>

section \<open>Failures\<close>

text \<open>
  The exceptions the sources throw, or let the standard library throw, with the text of
  \<open>what()\<close>; and the undefined behaviours of C++ that an operation can run into. An
  operation without effects returns \<open>fault + 'a\<close>. An operation with effects returns the
  fault, if any, together with the state as it was when the fault was raised, because the
  program catches exceptions and goes on with that state.
\<close>

datatype exn =
    Runtime_Error string
  | Invalid_Argument string
  | Out_Of_Range string
  | Length_Error string

datatype ub = Out_Of_Bounds | Null_Deref | Div_By_Zero | Signed_Overflow

datatype fault = Throw exn | Undefined ub

type_synonym 'a res = "fault + 'a"

type_synonym 's act = "fault option \<times> 's"

definition res_bind :: "'a res \<Rightarrow> ('a \<Rightarrow> 'b res) \<Rightarrow> 'b res" where
  "res_bind r f = (case r of Inl e \<Rightarrow> Inl e | Inr x \<Rightarrow> f x)"

lemma res_bind_simps [simp]:
  "res_bind (Inl e) f = Inl e"
  "res_bind (Inr x) f = f x"
  by (simp_all add: res_bind_def)

lemma res_bind_Inr [simp]: "res_bind r f = Inr y \<longleftrightarrow> (\<exists>x. r = Inr x \<and> f x = Inr y)"
  by (cases r) simp_all

lemma res_bind_Inl: "res_bind r f = Inl e \<longleftrightarrow> r = Inl e \<or> (\<exists>x. r = Inr x \<and> f x = Inl e)"
  by (cases r) simp_all

text \<open>Sequencing of operations with effects: the second runs only if the first returned.\<close>

definition act_then :: "'s act \<Rightarrow> ('s \<Rightarrow> 's act) \<Rightarrow> 's act" where
  "act_then a f = (case a of (Some e, s) \<Rightarrow> (Some e, s) | (None, s) \<Rightarrow> f s)"

lemma act_then_simps [simp]:
  "act_then (Some e, s) f = (Some e, s)"
  "act_then (None, s) f = f s"
  by (simp_all add: act_then_def)

text \<open>Undefined behaviour, as opposed to an exception: nothing is promised after it.\<close>

fun undefined_fault :: "fault option \<Rightarrow> bool" where
  "undefined_fault (Some (Undefined u)) = True"
| "undefined_fault _ = False"

section \<open>C++ integer conversions\<close>

text \<open>
  Comparing an \<open>int\<close> with a \<open>size_t\<close> converts the \<open>int\<close> by sign extension
  to 64 bits, so a negative \<open>int\<close> becomes a huge number. Sizes of containers are natural
  numbers; a \<open>std::vector\<close> has at most \<open>2 ^ 63 - 1\<close> elements, so adding two of them
  does not wrap.
\<close>

definition int_to_size :: "i32 \<Rightarrow> u64" where
  "int_to_size i = scast i"

definition size_of :: "'a list \<Rightarrow> u64" where
  "size_of xs = word_of_nat (length xs)"

lemma unat_int_to_size_nonneg:
  assumes "0 \<le> sint i"
  shows "unat (int_to_size i) = nat (sint i)"
proof -
  have b: "sint i < 2 ^ 31"
    using sint_lt [of i] by simp
  have "uint (scast i :: u64) = sint i mod 2 ^ 64"
    unfolding scast_eq uint_word_of_int by simp
  also have "\<dots> = sint i"
    using assms b by simp
  finally have "int (unat (int_to_size i)) = sint i"
    by (simp add: int_to_size_def)
  then show ?thesis by (metis nat_int)
qed

lemma unat_int_to_size_neg:
  assumes "sint i < 0"
  shows "int (unat (int_to_size i)) = 2 ^ 64 + sint i"
proof -
  have b: "- (2 ^ 31) \<le> sint i"
    using sint_ge [of i] by simp
  have "uint (scast i :: u64) = sint i mod 2 ^ 64"
    unfolding scast_eq uint_word_of_int by simp
  also have "\<dots> = (sint i + 2 ^ 64) mod 2 ^ 64"
    by simp
  also have "\<dots> = sint i + 2 ^ 64"
    using assms b by (subst mod_pos_pos_trivial) auto
  finally show ?thesis
    by (simp add: int_to_size_def)
qed

section \<open>Bytes and characters\<close>

text \<open>A \<open>std::string\<close> is a \<open>string\<close>: its characters are bytes.\<close>

definition char_of_byte :: "u8 \<Rightarrow> char" where
  "char_of_byte b = char_of (unat b)"

definition byte_of_char :: "char \<Rightarrow> u8" where
  "byte_of_char c = word_of_nat (of_char c)"

lemma byte_of_char_of_byte [simp]: "byte_of_char (char_of_byte b) = b"
proof -
  have "unat b < 256"
    using unsigned_less [of b, where ?'a = nat] by simp
  then show ?thesis
    by (simp add: byte_of_char_def char_of_byte_def)
qed

lemma char_of_byte_of_char [simp]: "char_of_byte (byte_of_char c) = c"
proof -
  have "of_char c < (256 :: nat)"
    by simp
  then show ?thesis
    by (simp add: byte_of_char_def char_of_byte_def unat_of_nat)
qed

lemma byte_of_char_inject [simp]: "byte_of_char a = byte_of_char b \<longleftrightarrow> a = b"
  by (metis char_of_byte_of_char)

lemma char_of_byte_inject [simp]: "char_of_byte a = char_of_byte b \<longleftrightarrow> a = b"
  by (metis byte_of_char_of_byte)

section \<open>Transition systems and invariants\<close>

inductive reachable :: "('s \<Rightarrow> bool) \<Rightarrow> ('s \<Rightarrow> 's \<Rightarrow> bool) \<Rightarrow> 's \<Rightarrow> bool"
  for init :: "'s \<Rightarrow> bool" and step :: "'s \<Rightarrow> 's \<Rightarrow> bool" where
  reachable_init: "init s \<Longrightarrow> reachable init step s"
| reachable_step: "reachable init step s \<Longrightarrow> step s t \<Longrightarrow> reachable init step t"

text \<open>What a component promises when it claims that a predicate is an invariant of its steps.\<close>

locale invariant_of =
  fixes init :: "'s \<Rightarrow> bool"
    and step :: "'s \<Rightarrow> 's \<Rightarrow> bool"
    and inv :: "'s \<Rightarrow> bool"
  assumes inv_init: "init s \<Longrightarrow> inv s"
    and inv_step: "inv s \<Longrightarrow> step s t \<Longrightarrow> inv t"
begin

lemma inv_reachable: "reachable init step s \<Longrightarrow> inv s"
  by (induction rule: reachable.induct) (blast intro: inv_init inv_step)+

lemma inv_rtrancl: "step\<^sup>*\<^sup>* s t \<Longrightarrow> inv s \<Longrightarrow> inv t"
  by (induction rule: rtranclp_induct) (blast intro: inv_step)+

end

text \<open>
  What a component promises when it claims to implement a specification: \<open>abs\<close> reads the
  abstract state off the concrete one, and every step is a step of the specification.
\<close>

locale simulation = invariant_of init step inv
  for init :: "'s \<Rightarrow> bool" and step :: "'s \<Rightarrow> 's \<Rightarrow> bool" and inv :: "'s \<Rightarrow> bool" +
  fixes abs_of :: "'s \<Rightarrow> 'a"
    and astep :: "'a \<Rightarrow> 'a \<Rightarrow> bool"
  assumes sim_step: "inv s \<Longrightarrow> step s t \<Longrightarrow> astep (abs_of s) (abs_of t)"
begin

lemma sim_steps: "step\<^sup>*\<^sup>* s t \<Longrightarrow> inv s \<Longrightarrow> astep\<^sup>*\<^sup>* (abs_of s) (abs_of t)"
proof (induction rule: rtranclp_induct)
  case (step t u)
  then show ?case
    using sim_step inv_rtrancl rtranclp.rtrancl_into_rtrancl by metis
qed simp

lemma sim_reachable: "reachable init step s \<Longrightarrow> \<exists>s0. init s0 \<and> astep\<^sup>*\<^sup>* (abs_of s0) (abs_of s)"
proof (induction rule: reachable.induct)
  case (reachable_step s t)
  then show ?case
    using sim_step inv_reachable rtranclp.rtrancl_into_rtrancl by metis
qed auto

end

section \<open>Lists\<close>

lemma takeWhile_append_stop:
  "\<forall>x\<in>set xs. P x \<Longrightarrow> \<not> P y \<Longrightarrow> takeWhile P (xs @ y # ys) = xs"
  by (induction xs) auto

lemma dropWhile_append_stop:
  "\<forall>x\<in>set xs. P x \<Longrightarrow> \<not> P y \<Longrightarrow> dropWhile P (xs @ y # ys) = y # ys"
  by (induction xs) auto

end
