(* ===== verification/Cpp_Lib.thy ===== *)
theory Cpp_Lib
  imports Prelude
begin

text \<open>
  The parts of the C++ standard library the sources rely on, as executable functions:
  character classes of the C locale, \<open>std::to_string\<close>, \<open>std::stoll\<close> and
  \<open>std::stoi\<close> (white space and a sign are skipped, the rest after the digits is
  ignored), hexadecimal output, \<open>std::string::find\<close> and \<open>std::map\<close> with its
  iteration order. The interface of \<open>std::map\<close> is the locale \<open>ordered_map\<close>.
\<close>

section \<open>Characters\<close>

definition char_code :: "char \<Rightarrow> nat" where
  "char_code c = of_char c"

definition isdigit :: "char \<Rightarrow> bool" where
  "isdigit c \<longleftrightarrow> 48 \<le> char_code c \<and> char_code c \<le> 57"

definition isalpha :: "char \<Rightarrow> bool" where
  "isalpha c \<longleftrightarrow> (65 \<le> char_code c \<and> char_code c \<le> 90) \<or> (97 \<le> char_code c \<and> char_code c \<le> 122)"

definition isalnum :: "char \<Rightarrow> bool" where
  "isalnum c \<longleftrightarrow> isdigit c \<or> isalpha c"

definition isspace :: "char \<Rightarrow> bool" where
  "isspace c \<longleftrightarrow> char_code c = 32 \<or> (9 \<le> char_code c \<and> char_code c \<le> 13)"

definition digit_char :: "nat \<Rightarrow> char" where
  "digit_char d = char_of (48 + d)"

definition digit_val :: "char \<Rightarrow> nat" where
  "digit_val c = char_code c - 48"

definition hex_digit :: "nat \<Rightarrow> char" where
  "hex_digit d = (if d < 10 then char_of (48 + d) else char_of (87 + d))"

lemma char_code_digit_char: "d < 10 \<Longrightarrow> char_code (digit_char d) = 48 + d"
  by (simp add: char_code_def digit_char_def)

lemma digit_char_simps [simp]:
  "d < 10 \<Longrightarrow> isdigit (digit_char d)"
  "d < 10 \<Longrightarrow> digit_val (digit_char d) = d"
  "d < 10 \<Longrightarrow> \<not> isspace (digit_char d)"
  by (simp_all add: isdigit_def digit_val_def isspace_def char_code_digit_char)

lemma isdigit_not_space [simp]: "isdigit c \<Longrightarrow> \<not> isspace c"
  by (auto simp: isdigit_def isspace_def)

lemma not_isdigit_chars [simp]:
  "\<not> isdigit CHR ''e''" "\<not> isdigit CHR '':''" "\<not> isdigit CHR ''i''" "\<not> isdigit CHR ''l''"
  "\<not> isdigit CHR ''d''" "\<not> isdigit CHR ''-''" "\<not> isdigit CHR ''+''" "\<not> isdigit CHR ''/''"
  by (simp_all add: isdigit_def char_code_def)

lemma not_isspace_minus [simp]: "\<not> isspace CHR ''-''"
  by (simp add: isspace_def char_code_def)

section \<open>Decimal numbers\<close>

fun nat_to_string :: "nat \<Rightarrow> string" where
  "nat_to_string n =
     (if n < 10 then [digit_char n] else nat_to_string (n div 10) @ [digit_char (n mod 10)])"

declare nat_to_string.simps [simp del]

text \<open>\<open>std::to_string\<close> on a signed and on an unsigned argument.\<close>

definition to_string :: "int \<Rightarrow> string" where
  "to_string i = (if i < 0 then CHR ''-'' # nat_to_string (nat (- i)) else nat_to_string (nat i))"

definition digits_val :: "string \<Rightarrow> nat" where
  "digits_val ds = foldl (\<lambda>a c. 10 * a + digit_val c) 0 ds"

text \<open>\<open>strtoll\<close>: leading white space, one sign, digits; what follows is not looked at.\<close>

definition strto_int :: "string \<Rightarrow> int option" where
  "strto_int s =
     (let t = dropWhile isspace s;
          neg = (case t of [] \<Rightarrow> False | c # _ \<Rightarrow> c = CHR ''-'');
          u = (case t of [] \<Rightarrow> [] | c # r \<Rightarrow> if c = CHR ''-'' \<or> c = CHR ''+'' then r else t);
          ds = takeWhile isdigit u
      in if ds = [] then None
         else Some (if neg then - int (digits_val ds) else int (digits_val ds)))"

definition in_int_range :: "nat \<Rightarrow> int \<Rightarrow> bool" where
  "in_int_range w v \<longleftrightarrow> - (2 ^ (w - 1)) \<le> v \<and> v < 2 ^ (w - 1)"

definition sto_int :: "string \<Rightarrow> nat \<Rightarrow> string \<Rightarrow> int res" where
  "sto_int what w s =
     (case strto_int s of
        None \<Rightarrow> Inl (Throw (Invalid_Argument what))
      | Some v \<Rightarrow> if in_int_range w v then Inr v else Inl (Throw (Out_Of_Range what)))"

definition stoll :: "string \<Rightarrow> int res" where
  "stoll s = sto_int ''stoll'' 64 s"

definition stoi :: "string \<Rightarrow> int res" where
  "stoi s = sto_int ''stoi'' 32 s"

lemma nat_to_string_nonempty [simp]: "nat_to_string n \<noteq> []"
  by (subst nat_to_string.simps) simp

lemma nat_to_string_digits: "\<forall>c\<in>set (nat_to_string n). isdigit c"
proof (induction n rule: nat_to_string.induct)
  case (1 n)
  then show ?case by (subst nat_to_string.simps) auto
qed

lemma digits_val_snoc: "digits_val (ds @ [c]) = 10 * digits_val ds + digit_val c"
  by (simp add: digits_val_def)

lemma digits_val_nat_to_string: "digits_val (nat_to_string n) = n"
proof (induction n rule: nat_to_string.induct)
  case (1 n)
  show ?case
  proof (cases "n < 10")
    case True
    then show ?thesis by (subst nat_to_string.simps) (simp add: digits_val_def)
  next
    case False
    with 1 show ?thesis by (subst nat_to_string.simps) (simp add: digits_val_snoc)
  qed
qed

lemma hd_nat_to_string_digit: "isdigit (hd (nat_to_string n))"
  using nat_to_string_digits [of n] by (cases "nat_to_string n") auto

lemmas takeWhile_all = takeWhile_eq_all_conv [THEN iffD2]

lemma strto_int_digits:
  assumes "ds \<noteq> []" and "\<forall>c\<in>set ds. isdigit c"
  shows "strto_int ds = Some (int (digits_val ds))"
    and "strto_int (CHR ''-'' # ds) = Some (- int (digits_val ds))"
proof -
  obtain c r where ds: "ds = c # r"
    using assms(1) by (cases ds) auto
  with assms(2) have "isdigit c" "c \<noteq> CHR ''-''" "c \<noteq> CHR ''+''"
    by auto
  with assms(2) ds show "strto_int ds = Some (int (digits_val ds))"
    by (simp add: strto_int_def takeWhile_all)
  from assms show "strto_int (CHR ''-'' # ds) = Some (- int (digits_val ds))"
    by (simp add: strto_int_def takeWhile_all)
qed

lemma strto_int_to_string: "strto_int (to_string i) = Some i"
  by (simp add: to_string_def strto_int_digits nat_to_string_digits digits_val_nat_to_string)

lemma stoll_to_string: "in_int_range 64 i \<Longrightarrow> stoll (to_string i) = Inr i"
  by (simp add: stoll_def sto_int_def strto_int_to_string)

lemma sto_int_range: "sto_int what w s = Inr v \<Longrightarrow> in_int_range w v"
  by (auto simp: sto_int_def split: option.splits if_splits)

lemma sto_int_no_ub: "sto_int what w s \<noteq> Inl (Undefined u)"
  by (auto simp: sto_int_def split: option.splits)

lemma strto_int_digit_nonneg:
  assumes "isdigit c" and "strto_int (c # s) = Some v"
  shows "0 \<le> v"
proof -
  from assms(1) have "c \<noteq> CHR ''-''" and "\<not> isspace c"
    by auto
  with assms(2) show ?thesis
    by (auto simp: strto_int_def Let_def split: if_splits)
qed

lemma to_string_chars: "c \<in> set (to_string i) \<Longrightarrow> isdigit c \<or> c = CHR ''-''"
  using nat_to_string_digits by (auto simp: to_string_def split: if_splits)

lemma to_string_nonempty [simp]: "to_string i \<noteq> []"
  by (simp add: to_string_def)

section \<open>Hexadecimal numbers\<close>

text \<open>An unsigned number written under \<open>std::hex\<close>.\<close>

fun hex_to_string :: "nat \<Rightarrow> string" where
  "hex_to_string n =
     (if n < 16 then [hex_digit n] else hex_to_string (n div 16) @ [hex_digit (n mod 16)])"

declare hex_to_string.simps [simp del]

text \<open>One output under \<open>std::setw(w)\<close> with fill character \<open>c\<close>, right-adjusted.\<close>

definition setw :: "nat \<Rightarrow> char \<Rightarrow> string \<Rightarrow> string" where
  "setw w c s = replicate (w - length s) c @ s"

lemma length_hex_to_string: "n < 16 ^ k \<Longrightarrow> 0 < k \<Longrightarrow> length (hex_to_string n) \<le> k"
proof (induction n arbitrary: k rule: hex_to_string.induct)
  case (1 n)
  show ?case
  proof (cases "n < 16")
    case True
    with "1.prems" show ?thesis by (subst hex_to_string.simps) simp
  next
    case False
    obtain k' where k: "k = Suc k'"
      using "1.prems"(2) by (cases k) auto
    moreover have "0 < k'"
      using "1.prems"(1) False k by (cases k') auto
    ultimately show ?thesis
      using "1.prems" "1.IH" [OF False, of k'] False
      by (subst hex_to_string.simps) (simp add: less_mult_imp_div_less mult.commute)
  qed
qed

lemma length_setw_hex: "n < 16 ^ k \<Longrightarrow> 0 < k \<Longrightarrow> length (setw k c (hex_to_string n)) = k"
  using length_hex_to_string [of n k] by (simp add: setw_def)

definition is_hex :: "char \<Rightarrow> bool" where
  "is_hex c \<longleftrightarrow> isdigit c \<or> (97 \<le> char_code c \<and> char_code c \<le> 102)"

lemma is_hex_digit: "d < 16 \<Longrightarrow> is_hex (hex_digit d)"
  by (auto simp: is_hex_def hex_digit_def isdigit_def char_code_def)

lemma hex_to_string_chars: "\<forall>c\<in>set (hex_to_string n). is_hex c"
proof (induction n rule: hex_to_string.induct)
  case (1 n)
  then show ?case by (subst hex_to_string.simps) (auto simp: is_hex_digit)
qed

lemma setw_hex_chars: "\<forall>c\<in>set (setw w CHR ''0'' (hex_to_string n)). is_hex c"
  using hex_to_string_chars [of n]
  by (auto simp: setw_def is_hex_def isdigit_def char_code_def)

section \<open>Substring search\<close>

text \<open>\<open>s.find(pat)\<close>: the first position, \<open>None\<close> for \<open>std::string::npos\<close>.\<close>

fun str_find :: "string \<Rightarrow> string \<Rightarrow> nat option" where
  "str_find pat [] = (if pat = [] then Some 0 else None)"
| "str_find pat (c # s) =
     (if take (length pat) (c # s) = pat then Some 0 else map_option Suc (str_find pat s))"

lemma str_find_Some:
  "str_find pat s = Some p \<Longrightarrow> s = take p s @ pat @ drop (p + length pat) s"
proof (induction s arbitrary: p)
  case Nil
  then show ?case by (auto split: if_splits)
next
  case (Cons c s)
  show ?case
  proof (cases "take (length pat) (c # s) = pat")
    case True
    with Cons.prems show ?thesis
      by (metis add_0 append_Nil append_take_drop_id option.inject str_find.simps(2) take0)
  next
    case False
    with Cons.prems obtain q where "str_find pat s = Some q" and "p = Suc q"
      by auto
    with Cons.IH [of q] show ?thesis by simp
  qed
qed

lemma str_find_append:
  "(\<forall>q<length a. take (length pat) (drop q (a @ pat @ b)) \<noteq> pat) \<Longrightarrow>
   str_find pat (a @ pat @ b) = Some (length a)"
proof (induction a)
  case Nil
  have "str_find pat s = Some 0" if "take (length pat) s = pat" for s
    using that by (cases s) auto
  then show ?case by simp
next
  case (Cons c a)
  from Cons.prems have "take (length pat) (c # a @ pat @ b) \<noteq> pat"
    by (metis append_Cons drop0 length_greater_0_conv list.discI)
  moreover have "\<forall>q<length a. take (length pat) (drop q (a @ pat @ b)) \<noteq> pat"
    using Cons.prems by (metis Suc_mono append_Cons drop_Suc_Cons length_Cons)
  ultimately show ?case using Cons.IH by simp
qed

text \<open>In a string that was cut before the end of the first match nothing is found.\<close>

lemma str_find_take:
  assumes "\<forall>q<n. take (length pat) (drop q s) \<noteq> pat" and "k < n + length pat" and "pat \<noteq> []"
  shows "str_find pat (take k s) = None"
  using assms(1,2)
proof (induction s arbitrary: n k)
  case Nil
  then show ?case using assms(3) by simp
next
  case (Cons c s)
  show ?case
  proof (cases k)
    case 0
    then show ?thesis using assms(3) by simp
  next
    case (Suc j)
    show ?thesis
    proof (cases n)
      case 0
      then have "length (take (length pat) (take k (c # s))) < length pat"
        using Cons.prems(2) by simp
      then have m: "take (length pat) (take k (c # s)) \<noteq> pat"
        by (metis less_irrefl)
      have "str_find pat (take j s) = None"
        using Cons.IH [of 0 j] Cons.prems(2) 0 Suc by simp
      then show ?thesis
        using m Suc by simp
    next
      case (Suc m)
      have "take (length pat) (c # s) \<noteq> pat" "\<forall>q<m. take (length pat) (drop q s) \<noteq> pat"
        using Cons.prems(1) Suc by (auto dest: spec [of _ 0] spec [of _ "Suc _"])
      moreover have "str_find pat (take j s) = None"
        using Cons.IH [of m j] calculation(2) Cons.prems(2) Suc \<open>k = Suc j\<close> by simp
      moreover have "take (length pat) (take k (c # s)) \<noteq> pat" 
        using Cons.prems(1) Suc \<open>k = Suc j\<close>
        by (metis calculation(1) length_take min.absorb_iff1 min.commute nat_le_linear take_take)
      ultimately show ?thesis
        using \<open>k = Suc j\<close> by simp
    qed
  qed
qed

lemma str_find_char_absent: "str_find [c] s = None \<longleftrightarrow> c \<notin> set s"
  by (induction s) auto

lemma str_find_char_append: "c \<notin> set a \<Longrightarrow> str_find [c] (a @ c # b) = Some (length a)"
  by (induction a) auto

section \<open>Ordered maps\<close>

text \<open>
  \<open>std::map<K, V>\<close>: what its clients rely on. \<open>entries\<close> is the sequence an
  iteration visits.
\<close>

locale ordered_map =
  fixes empty :: 'm
    and assign :: "'k::linorder \<Rightarrow> 'v \<Rightarrow> 'm \<Rightarrow> 'm"
    and lookup :: "'m \<Rightarrow> 'k \<Rightarrow> 'v option"
    and entries :: "'m \<Rightarrow> ('k \<times> 'v) list"
    and valid :: "'m \<Rightarrow> bool"
  assumes valid_empty: "valid empty"
    and valid_assign: "valid m \<Longrightarrow> valid (assign k v m)"
    and lookup_empty: "lookup empty k = None"
    and lookup_assign: "valid m \<Longrightarrow> lookup (assign k v m) = (lookup m)(k \<mapsto> v)"
    and lookup_entries: "valid m \<Longrightarrow> lookup m = map_of (entries m)"
    and entries_sorted: "valid m \<Longrightarrow> sorted_wrt (<) (map fst (entries m))"
begin

text \<open>A sequence of assignments, as a loop over input performs it.\<close>

definition assign_all :: "('k \<times> 'v) list \<Rightarrow> 'm \<Rightarrow> 'm" where
  "assign_all kvs m = foldl (\<lambda>m (k, v). assign k v m) m kvs"

lemma assign_all_simps [simp]:
  "assign_all [] m = m"
  "assign_all ((k, v) # kvs) m = assign_all kvs (assign k v m)"
  "assign_all (kvs @ [(k, v)]) m = assign k v (assign_all kvs m)"
  by (simp_all add: assign_all_def)

lemma valid_assign_all: "valid m \<Longrightarrow> valid (assign_all kvs m)"
  by (induction kvs arbitrary: m) (auto simp: valid_assign)

lemma lookup_assign_all: "valid m \<Longrightarrow> lookup (assign_all kvs m) = lookup m ++ map_of (rev kvs)"
proof (induction kvs arbitrary: m)
  case Nil
  then show ?case by simp
next
  case (Cons kv kvs)
  obtain k v where "kv = (k, v)" by (cases kv)
  with Cons show ?case
    by (auto simp: valid_assign lookup_assign map_add_def fun_eq_iff split: option.split)
qed

text \<open>The assignment made last is the one that is read.\<close>

lemma last_assignment_wins:
  "valid m \<Longrightarrow> k \<notin> fst ` set post \<Longrightarrow> lookup (assign_all (pre @ (k, v) # post) m) k = Some v"
  by (simp add: lookup_assign_all map_add_def map_of_eq_None_iff split: option.split)
     (metis (no_types, lifting) image_set map_of_eq_None_iff option.distinct(1) set_rev)

end

fun map_assign :: "'k::linorder \<Rightarrow> 'v \<Rightarrow> ('k \<times> 'v) list \<Rightarrow> ('k \<times> 'v) list" where
  "map_assign k v [] = [(k, v)]"
| "map_assign k v ((k', v') # m) =
     (if k < k' then (k, v) # (k', v') # m
      else if k = k' then (k, v) # m
      else (k', v') # map_assign k v m)"

definition map_at :: "('k \<times> 'v) list \<Rightarrow> 'k \<Rightarrow> 'v res" where
  "map_at m k =
     (case map_of m k of None \<Rightarrow> Inl (Throw (Out_Of_Range ''map::at'')) | Some v \<Rightarrow> Inr v)"

definition map_count :: "('k \<times> 'v) list \<Rightarrow> 'k \<Rightarrow> nat" where
  "map_count m k = (case map_of m k of None \<Rightarrow> 0 | Some v \<Rightarrow> 1)"

abbreviation map_ok :: "('k::linorder \<times> 'v) list \<Rightarrow> bool" where
  "map_ok m \<equiv> sorted_wrt (<) (map fst m)"

lemma set_map_assign_keys: "fst ` set (map_assign k v m) = insert k (fst ` set m)"
  by (induction m rule: map_assign.induct) auto

lemma set_map_assign_subset: "set (map_assign k v m) \<subseteq> insert (k, v) (set m)"
  by (induction m rule: map_assign.induct) auto

lemma map_ok_assign: "map_ok m \<Longrightarrow> map_ok (map_assign k v m)"
proof (induction m)
  case Nil
  then show ?case by simp
next
  case (Cons kv m)
  obtain k' v' where "kv = (k', v')" by (cases kv)
  with Cons set_map_assign_keys [of k v m] show ?case by force
qed

lemma map_of_assign: "map_ok m \<Longrightarrow> map_of (map_assign k v m) = (map_of m)(k \<mapsto> v)"
  by (induction m rule: map_assign.induct) (auto simp: fun_eq_iff)

text \<open>Assigning a key above all others appends: inserting a sorted sequence rebuilds it.\<close>

lemma map_assign_greater: "\<forall>k'\<in>fst ` set m. k' < k \<Longrightarrow> map_assign k v m = m @ [(k, v)]"
  by (induction m) (auto simp: not_less_iff_gr_or_eq)

interpretation std_map: ordered_map "[]" map_assign map_of "\<lambda>m. m" "\<lambda>m. map_ok m"
  by unfold_locales (auto simp: map_ok_assign map_of_assign)

end
