(* ===== verification/Buffer_Utils.thy ===== *)
theory Buffer_Utils
  imports Cpp_Lib
begin

text \<open>
  \<open>BitTorrent::BufferUtils\<close> of include/parsing/buffer.h: reading and writing big-endian
  integers in a byte buffer, and the conversions between \<open>Buffer\<close> and
  \<open>std::string\<close>. The locale \<open>be_codec\<close> is the contract of a big-endian
  writer and its reader; the writers of message.cpp and tracker.cpp meet it too.
\<close>

section \<open>Reading and writing\<close>

definition be32 :: "u8 \<Rightarrow> u8 \<Rightarrow> u8 \<Rightarrow> u8 \<Rightarrow> u32" where
  "be32 a b c d = push_bit 24 (ucast a) OR push_bit 16 (ucast b) OR push_bit 8 (ucast c) OR ucast d"

definition be16 :: "u8 \<Rightarrow> u8 \<Rightarrow> u16" where
  "be16 a b = push_bit 8 (ucast a) OR ucast b"

definition ReadBE32 :: "buffer \<Rightarrow> nat \<Rightarrow> u32 res" where
  "ReadBE32 buf i =
     (if i + 4 > length buf then Inl (Throw (Out_Of_Range ''Buffer read overflow''))
      else Inr (be32 (buf ! i) (buf ! (i + 1)) (buf ! (i + 2)) (buf ! (i + 3))))"

definition ReadBE16 :: "buffer \<Rightarrow> nat \<Rightarrow> u16 res" where
  "ReadBE16 buf i =
     (if i + 2 > length buf then Inl (Throw (Out_Of_Range ''Buffer read overflow''))
      else Inr (be16 (buf ! i) (buf ! (i + 1))))"

definition WriteBE32 :: "buffer \<Rightarrow> u32 \<Rightarrow> buffer" where
  "WriteBE32 buf v =
     (((buf @ [ucast (drop_bit 24 v AND 0xFF)]) @ [ucast (drop_bit 16 v AND 0xFF)])
        @ [ucast (drop_bit 8 v AND 0xFF)]) @ [ucast (v AND 0xFF)]"

definition FromString :: "string \<Rightarrow> buffer" where
  "FromString s = map byte_of_char s"

definition ToString :: "buffer \<Rightarrow> string" where
  "ToString buf = map char_of_byte buf"

lemma FromString_ToString [simp]: "FromString (ToString b) = b"
  by (simp add: FromString_def ToString_def comp_def)

lemma ToString_FromString [simp]: "ToString (FromString s) = s"
  by (simp add: FromString_def ToString_def comp_def)

lemma length_FromString [wire_simps, simp]: "length (FromString s) = length s"
  by (simp add: FromString_def)

lemma length_ToString [wire_simps, simp]: "length (ToString b) = length b"
  by (simp add: ToString_def)

lemma FromString_append [simp]: "FromString (s @ t) = FromString s @ FromString t"
  by (simp add: FromString_def)

lemma FromString_Cons [simp]: "FromString (c # s) = byte_of_char c # FromString s"
  by (simp add: FromString_def)

lemma FromString_Nil [simp]: "FromString [] = []"
  by (simp add: FromString_def)

lemma ToString_append [simp]: "ToString (a @ b) = ToString a @ ToString b"
  by (simp add: ToString_def)

section \<open>The contract of a big-endian codec\<close>

text \<open>Pushing \<open>x & 0xFF\<close> into a byte buffer keeps the low eight bits.\<close>

lemma ucast_and_255 [simp]: "(ucast (x AND 0xFF :: 'a::len word) :: u8) = ucast x"
proof -
  have m: "(0xFF :: 'a word) = mask 8"
    by (simp add: mask_eq_exp_minus_1)
  show ?thesis
    unfolding m by (rule bit_word_eqI) (auto simp: bit_simps dest: bit_imp_le_length)
qed

lemma be32_bytes:
  "be32 (ucast (drop_bit 24 v)) (ucast (drop_bit 16 v)) (ucast (drop_bit 8 v)) (ucast v) = v"
  (is "?lhs = v")
proof (rule bit_word_eqI)
  fix n
  assume "n < LENGTH(32)"
  then consider "n < 8" | "8 \<le> n \<and> n < 16" | "16 \<le> n \<and> n < 24" | "24 \<le> n \<and> n < 32"
    by force
  then show "bit ?lhs n = bit v n"
    unfolding be32_def by cases (auto simp: bit_simps)
qed

lemma be16_bytes:
  fixes v :: u16
  shows "be16 (ucast (drop_bit 8 v)) (ucast v) = v" (is "?lhs = v")
proof (rule bit_word_eqI)
  fix n
  assume "n < LENGTH(16)"
  then consider "n < 8" | "8 \<le> n \<and> n < 16"
    by force
  then show "bit ?lhs n = bit v n"
    unfolding be16_def by cases (auto simp: bit_simps)
qed

text \<open>The bytes occupy disjoint bits, so the value is their positional sum.\<close>

lemma be32_sum:
  "be32 a b c d = push_bit 24 (ucast a) + push_bit 16 (ucast b) + push_bit 8 (ucast c) + ucast d"
proof -
  have *: "push_bit 24 (ucast a) AND push_bit 16 (ucast b) = (0 :: u32)"
    "(push_bit 24 (ucast a) OR push_bit 16 (ucast b)) AND push_bit 8 (ucast c) = (0 :: u32)"
    "(push_bit 24 (ucast a) OR push_bit 16 (ucast b) OR push_bit 8 (ucast c)) AND ucast d = (0 :: u32)"
    by (rule bit_word_eqI; auto simp: bit_simps dest: bit_imp_le_length)+
  show ?thesis
    unfolding be32_def by (simp add: * disjunctive_add_eq_or or.assoc)
qed

lemma unat_be32: "unat (be32 a b c d) = unat a * 2 ^ 24 + unat b * 2 ^ 16 + unat c * 2 ^ 8 + unat d"
proof -
  have b: "unat x < 256" for x :: u8
    using unsigned_less [of x, where ?'a = nat] by simp
  have u: "unat (ucast x :: u32) = unat x" for x :: u8
    using b [of x] by (simp add: unsigned_ucast_eq take_bit_nat_eq_self_iff)
  show ?thesis
    unfolding be32_sum push_bit_eq_mult
    using b [of a] b [of b] b [of c] b [of d]
    by (simp add: unat_word_ariths u)
qed

text \<open>
  \<open>put\<close> appends a value in \<open>width\<close> bytes; \<open>get\<close> reads one at an
  index and throws when the buffer is too short.
\<close>

locale be_codec =
  fixes put :: "buffer \<Rightarrow> 'w \<Rightarrow> buffer"
    and get :: "buffer \<Rightarrow> nat \<Rightarrow> 'w res"
    and width :: nat
  assumes put_appends: "put b v = b @ put [] v"
    and length_put_Nil: "length (put [] v) = width"
    and get_put_Nil: "get (a @ put [] v @ c) (length a) = Inr v"
    and get_short: "length b < i + width \<Longrightarrow> \<exists>what. get b i = Inl (Throw (Out_Of_Range what))"
begin

lemma length_put: "length (put b v) = length b + width"
  by (subst put_appends) (simp add: length_put_Nil)

lemma get_put: "get (put b v) (length b) = Inr v"
  using get_put_Nil [of b v "[]"] by (subst put_appends) simp

lemma get_put_append: "get (put b v @ c) (length b) = Inr v"
  using get_put_Nil [of b v c] by (subst put_appends) simp

lemma put_inject: "put b v = put b w \<longleftrightarrow> v = w"
  by (metis get_put sum.inject(2))

text \<open>Fields written one after the other are read back at their offsets.\<close>

lemma get_field: "get (foldl put b (vs @ v # ws)) (length b + width * length vs) = Inr v"
proof -
  have len: "length (foldl put b us) = length b + width * length us" for us
    by (induction us rule: rev_induct) (simp_all add: length_put)
  have app: "\<exists>c. foldl put x ws = x @ c" for x
  proof (induction ws rule: rev_induct)
    case Nil
    then show ?case by simp
  next
    case (snoc w ws)
    then obtain c where "foldl put x ws = x @ c" by blast
    then have "foldl put x (ws @ [w]) = x @ c @ put [] w"
      by (simp add: put_appends [of "x @ c"])
    then show ?case by blast
  qed
  obtain c where "foldl put b (vs @ v # ws) = put (foldl put b vs) v @ c"
    using app [of "put (foldl put b vs) v"] by auto
  then show ?thesis
    using get_put_append [of "foldl put b vs" v c] by (simp add: len)
qed

lemma get_defined_iff: "(\<exists>v. get b i = Inr v) \<Longrightarrow> i + width \<le> length b"
  using get_short by (metis leI sum.distinct(1))

end

interpretation BE32: be_codec WriteBE32 ReadBE32 4
proof unfold_locales
  fix a c :: buffer and v :: u32
  show "ReadBE32 (a @ WriteBE32 [] v @ c) (length a) = Inr v"
    by (simp add: ReadBE32_def WriteBE32_def nth_append be32_bytes)
qed (auto simp: ReadBE32_def WriteBE32_def)

end
