(* ===== verification/Bencode.thy ===== *)
theory Bencode
  imports Buffer_Utils
begin

text \<open>
  \<open>BitTorrent::Bnode\<close> of include/parsing/Bnode.h and source/parsing/Bnode.cpp: the
  variant of the four bencode values with its checked getters, the recursive decoder and the
  encoder. A \<open>BDict\<close> is the \<open>std::map\<close> of the source as the sequence of its
  entries in key order (theory \<open>Cpp_Lib\<close>). The decoder keeps the buffer and the index
  of the source; each branch of the source that throws is a branch here, with its message.
\<close>

section \<open>Values and getters\<close>

datatype bnode =
    BInt int
  | BString buffer
  | BList "bnode list"
  | BDict "(string \<times> bnode) list"

fun IsInt :: "bnode \<Rightarrow> bool" where
  "IsInt (BInt v) = True"
| "IsInt _ = False"

fun IsString :: "bnode \<Rightarrow> bool" where
  "IsString (BString b) = True"
| "IsString _ = False"

fun IsList :: "bnode \<Rightarrow> bool" where
  "IsList (BList xs) = True"
| "IsList _ = False"

fun IsDict :: "bnode \<Rightarrow> bool" where
  "IsDict (BDict m) = True"
| "IsDict _ = False"

fun GetInt :: "bnode \<Rightarrow> int res" where
  "GetInt (BInt v) = Inr v"
| "GetInt _ = Inl (Throw (Runtime_Error ''Type mismatch: Expected Int''))"

fun GetString :: "bnode \<Rightarrow> buffer res" where
  "GetString (BString b) = Inr b"
| "GetString _ = Inl (Throw (Runtime_Error ''Type mismatch: Expected String''))"

definition NodeToString :: "bnode \<Rightarrow> string res" where
  "NodeToString n = res_bind (GetString n) (\<lambda>b. Inr (ToString b))"

fun GetList :: "bnode \<Rightarrow> bnode list res" where
  "GetList (BList xs) = Inr xs"
| "GetList _ = Inl (Throw (Runtime_Error ''Type mismatch: Expected List''))"

fun GetDict :: "bnode \<Rightarrow> (string \<times> bnode) list res" where
  "GetDict (BDict m) = Inr m"
| "GetDict _ = Inl (Throw (Runtime_Error ''Type mismatch: Expected Dict''))"

fun_cases GetInt_InrE: "GetInt n = Inr v"
fun_cases GetStringInrE: "GetString n = Inr b"
fun_cases GetDict_InrE: "GetDict n = Inr m"

section \<open>The decoder\<close>

text \<open>The two scanning loops: advance while the byte is not the delimiter.\<close>

function scan_until :: "u8 \<Rightarrow> buffer \<Rightarrow> nat \<Rightarrow> nat" where
  "scan_until d data i =
     (if i < length data \<and> data ! i \<noteq> d then scan_until d data (i + 1) else i)"
  by pat_completeness auto
termination
  by (relation "measure (\<lambda>(d, data, i). length data - i)") auto

declare scan_until.simps [simp del]

text \<open>\<open>std::string(data.begin() + i, data.begin() + j)\<close>.\<close>

definition buf_slice :: "buffer \<Rightarrow> nat \<Rightarrow> nat \<Rightarrow> buffer" where
  "buf_slice data i j = take (j - i) (drop i data)"

abbreviation rt_error :: "string \<Rightarrow> 'a res" where
  "rt_error msg \<equiv> Inl (Throw (Runtime_Error msg))"

abbreviation byte_e :: u8 where
  "byte_e \<equiv> byte_of_char CHR ''e''"

abbreviation byte_colon :: u8 where
  "byte_colon \<equiv> byte_of_char CHR '':''"

text \<open>
  \<open>DecodeElement\<close> returns the value and the new index. Its two loops are
  \<open>decode_list\<close> and \<open>decode_dict\<close>, which return the accumulated container and
  the index of the byte that stopped them. In the string branch the length is not negative,
  because its text starts with a digit, and \<open>start + len\<close> does not wrap.
\<close>

function decode_element :: "buffer \<Rightarrow> nat \<Rightarrow> (bnode \<times> nat) res"
  and decode_list :: "buffer \<Rightarrow> nat \<Rightarrow> bnode list \<Rightarrow> (bnode list \<times> nat) res"
  and decode_dict :: "buffer \<Rightarrow> nat \<Rightarrow> (string \<times> bnode) list \<Rightarrow> ((string \<times> bnode) list \<times> nat) res"
where
  "decode_element data i =
     (if i \<ge> length data then rt_error ''Unexpected end of buffer''
      else if char_of_byte (data ! i) = CHR ''i'' then
        (let end = scan_until byte_e data (i + 1)
         in if end \<ge> length data then rt_error ''Invalid Integer''
            else (case stoll (ToString (buf_slice data (i + 1) end)) of
                    Inl f \<Rightarrow> Inl f
                  | Inr v \<Rightarrow> Inr (BInt v, end + 1)))
      else if char_of_byte (data ! i) = CHR ''l'' then
        (case decode_list data (i + 1) [] of
           Inl f \<Rightarrow> Inl f
         | Inr (xs, j) \<Rightarrow>
             if j \<ge> length data then rt_error ''Unclosed List'' else Inr (BList xs, j + 1))
      else if char_of_byte (data ! i) = CHR ''d'' then
        (case decode_dict data (i + 1) [] of
           Inl f \<Rightarrow> Inl f
         | Inr (m, j) \<Rightarrow>
             if j \<ge> length data then rt_error ''Unclosed Dictionary'' else Inr (BDict m, j + 1))
      else if isdigit (char_of_byte (data ! i)) then
        (let colon = scan_until byte_colon data i
         in if colon \<ge> length data then rt_error ''Invalid String length''
            else (case stoll (ToString (buf_slice data i colon)) of
                    Inl f \<Rightarrow> Inl f
                  | Inr len \<Rightarrow>
                      (let start = colon + 1
                       in if int start + len > int (length data)
                          then rt_error ''String length out of bounds''
                          else Inr (BString (buf_slice data start (start + nat len)), start + nat len))))
      else rt_error ''Unknown Bencode type'')"
| "decode_list data i acc =
     (if i < length data \<and> data ! i \<noteq> byte_e then
        (case decode_element data i of
           Inl f \<Rightarrow> Inl f
         | Inr (x, j) \<Rightarrow> decode_list data j (acc @ [x]))
      else Inr (acc, i))"
| "decode_dict data i acc =
     (if i < length data \<and> data ! i \<noteq> byte_e then
        (case decode_element data i of
           Inl f \<Rightarrow> Inl f
         | Inr (keyNode, j) \<Rightarrow>
             if \<not> IsString keyNode then rt_error ''Dict key must be string''
             else (case NodeToString keyNode of
                     Inl f \<Rightarrow> Inl f
                   | Inr key \<Rightarrow>
                       (case decode_element data j of
                          Inl f \<Rightarrow> Inl f
                        | Inr (val, l) \<Rightarrow> decode_dict data l (map_assign key val acc))))
      else Inr (acc, i))"
  by pat_completeness auto

lemma scan_until_ge: "i \<le> scan_until d data i"
proof (induction d data i rule: scan_until.induct)
  case (1 d data i)
  then show ?case by (subst scan_until.simps) auto
qed

lemma decode_progress_dom:
  "decode_element_decode_list_decode_dict_dom (Inl (data, i)) \<Longrightarrow>
     decode_element data i = Inr (x, j) \<Longrightarrow> i < j"
  "decode_element_decode_list_decode_dict_dom (Inr (Inl (data, i, acc))) \<Longrightarrow>
     decode_list data i acc = Inr (xs, j) \<Longrightarrow> i \<le> j"
  "decode_element_decode_list_decode_dict_dom (Inr (Inr (data, i, acc'))) \<Longrightarrow>
     decode_dict data i acc' = Inr (m, j) \<Longrightarrow> i \<le> j"
proof (induction data i and data i acc and data i acc' arbitrary: x j and xs j and m j
    rule: decode_element_decode_list_decode_dict.pinduct)
  case (1 data i)
  have s: "i \<le> scan_until byte_colon data i" "i + 1 \<le> scan_until byte_e data (i + 1)"
    by (rule scan_until_ge)+
  from 1 s show ?case
    by (auto simp: decode_element.psimps Let_def split: if_splits sum.splits prod.splits)
next
  case (2 data i acc)
  show ?case
  proof (cases "i < length data \<and> data ! i \<noteq> byte_e")
    case True
    with 2(1,4) obtain y k where e: "decode_element data i = Inr (y, k)"
      and r: "decode_list data k (acc @ [y]) = Inr (xs, j)"
      by (auto simp: decode_list.psimps split: sum.splits)
    have "i < k" using 2(2) [OF True] e by blast
    moreover have "k \<le> j" using 2(3) [OF True e refl] r by blast
    ultimately show ?thesis by simp
  qed (use 2(1,4) in \<open>auto simp: decode_list.psimps\<close>)
next
  case (3 data i acc)
  show ?case
  proof (cases "i < length data \<and> data ! i \<noteq> byte_e")
    case True
    with 3(1,5) obtain y k key v l where e: "decode_element data i = Inr (y, k)"
      and s: "IsString y" and t: "NodeToString y = Inr key"
      and e': "decode_element data k = Inr (v, l)"
      and r: "decode_dict data l (map_assign key v acc) = Inr (m, j)"
      by (auto simp: decode_dict.psimps split: sum.splits if_splits)
    have "i < k" using 3(2) [OF True] e by blast
    moreover have "k < l" using 3(3) [OF True e refl _ t] s e' by blast
    moreover have "l \<le> j" using 3(4) [OF True e refl _ t e' refl] s r by blast
    ultimately show ?thesis by simp
  qed (use 3(1,5) in \<open>auto simp: decode_dict.psimps\<close>)
qed

termination decode_element
  by (relation "measure (case_sum (\<lambda>(data, i). 2 * (length data - i))
       (case_sum (\<lambda>(data, i, acc). 2 * (length data - i) + 1)
                 (\<lambda>(data, i, acc). 2 * (length data - i) + 1)))")
     (auto dest!: decode_progress_dom)

declare decode_element.simps [simp del] decode_list.simps [simp del] decode_dict.simps [simp del]

text \<open>How a successful run of each loop goes on.\<close>

lemma decode_list_InrE:
  assumes "decode_list data i acc = Inr (xs, j)"
  obtains (stop) "\<not> (i < length data \<and> data ! i \<noteq> byte_e)" "xs = acc" "j = i"
  | (item) x k where "i < length data" "data ! i \<noteq> byte_e"
      "decode_element data i = Inr (x, k)" "decode_list data k (acc @ [x]) = Inr (xs, j)"
proof (cases "i < length data \<and> data ! i \<noteq> byte_e")
  case True
  with assms obtain x k where "decode_element data i = Inr (x, k)"
    "decode_list data k (acc @ [x]) = Inr (xs, j)"
    by (simp add: decode_list.simps [of data i acc] split: sum.splits prod.splits)
  with True show ?thesis by (intro item) auto
next
  case False
  with assms show ?thesis by (intro stop) (auto simp: decode_list.simps [of data i acc])
qed

lemma decode_dict_InrE:
  assumes "decode_dict data i acc = Inr (m, j)"
  obtains (stop) "\<not> (i < length data \<and> data ! i \<noteq> byte_e)" "m = acc" "j = i"
  | (entry) b k v l where "i < length data" "data ! i \<noteq> byte_e"
      "decode_element data i = Inr (BString b, k)" "decode_element data k = Inr (v, l)"
      "decode_dict data l (map_assign (ToString b) v acc) = Inr (m, j)"
proof (cases "i < length data \<and> data ! i \<noteq> byte_e")
  case True
  with assms obtain b k v l where "decode_element data i = Inr (BString b, k)"
    "decode_element data k = Inr (v, l)"
    "decode_dict data l (map_assign (ToString b) v acc) = Inr (m, j)"
    by (simp add: decode_dict.simps [of data i acc] NodeToString_def
        split: sum.splits prod.splits if_splits) (metis GetString.simps(1) IsString.elims(2) res_bind_simps(2) sum.inject(2))
  with True show ?thesis by (intro entry) auto
next
  case False
  with assms show ?thesis by (intro stop) (auto simp: decode_dict.simps [of data i acc])
qed

lemma decode_element_InrE:
  assumes "decode_element data i = Inr (x, j)"
  obtains (int) v e where "x = BInt v" "e = scan_until byte_e data (i + 1)" "e < length data"
      "stoll (ToString (buf_slice data (i + 1) e)) = Inr v" "j = e + 1" "i < length data"
      "char_of_byte (data ! i) = CHR ''i''"
  | (list) xs k where "\<not> length data \<le> i" "char_of_byte (data ! i) = CHR ''l''" "x = BList xs" "decode_list data (i + 1) [] = Inr (xs, k)" "k < length data"
      "j = k + 1"
  | (dict) m k where "\<not> length data \<le> i" "char_of_byte (data ! i) = CHR ''d''" "x = BDict m" "decode_dict data (i + 1) [] = Inr (m, k)" "k < length data"
      "j = k + 1"
  | (string) len colon where "x = BString (buf_slice data (colon + 1) (colon + 1 + nat len))"
      "isdigit (char_of_byte (data ! i))" "colon = scan_until byte_colon data i"
      "colon < length data" "stoll (ToString (buf_slice data i colon)) = Inr len"
      "int (colon + 1) + len \<le> int (length data)" "j = colon + 1 + nat len"
  using assms
  by (subst (asm) decode_element.simps) (auto simp: Let_def split: if_splits sum.splits)

text \<open>Each branch of \<open>DecodeElement\<close> that returns, as a rule.\<close>

lemma decode_element_int:
  "i < length data \<Longrightarrow> char_of_byte (data ! i) = CHR ''i'' \<Longrightarrow> scan_until byte_e data (i + 1) = e \<Longrightarrow>
   e < length data \<Longrightarrow> stoll (ToString (buf_slice data (i + 1) e)) = Inr v \<Longrightarrow>
   decode_element data i = Inr (BInt v, e + 1)"
  by (simp add: decode_element.simps [of data i])

lemma decode_element_list:
  "i < length data \<Longrightarrow> char_of_byte (data ! i) = CHR ''l'' \<Longrightarrow>
   decode_list data (i + 1) [] = Inr (xs, j) \<Longrightarrow> j < length data \<Longrightarrow>
   decode_element data i = Inr (BList xs, j + 1)"
  by (simp add: decode_element.simps [of data i])

lemma decode_element_dict:
  "i < length data \<Longrightarrow> char_of_byte (data ! i) = CHR ''d'' \<Longrightarrow>
   decode_dict data (i + 1) [] = Inr (m, j) \<Longrightarrow> j < length data \<Longrightarrow>
   decode_element data i = Inr (BDict m, j + 1)"
  by (simp add: decode_element.simps [of data i])

lemma decode_element_string:
  "i < length data \<Longrightarrow> isdigit (char_of_byte (data ! i)) \<Longrightarrow> scan_until byte_colon data i = c \<Longrightarrow>
   c < length data \<Longrightarrow> stoll (ToString (buf_slice data i c)) = Inr (int n) \<Longrightarrow>
   c + 1 + n \<le> length data \<Longrightarrow>
   decode_element data i = Inr (BString (buf_slice data (c + 1) (c + 1 + n)), c + 1 + n)"
  by (subst decode_element.simps) auto

definition Decode :: "buffer \<Rightarrow> bnode res" where
  "Decode data = res_bind (decode_element data 0) (\<lambda>(n, i). Inr n)"

section \<open>The encoder\<close>

fun Encode :: "bnode \<Rightarrow> buffer" where
  "Encode (BInt v) = FromString (''i'' @ to_string v @ ''e'')"
| "Encode (BString b) = FromString (to_string (int (length (ToString b))) @ '':'' @ ToString b)"
| "Encode (BList xs) = [byte_of_char CHR ''l''] @ concat (map Encode xs) @ [byte_e]"
| "Encode (BDict m) =
     [byte_of_char CHR ''d'']
     @ concat (map (\<lambda>(k, v). FromString (to_string (int (length k)) @ '':'' @ k) @ Encode v) m)
     @ [byte_e]"

end
