(* ===== verification/Bencode_Props.thy ===== *)
theory Bencode_Props
  imports Bencode
begin

text \<open>
  What the bencode decoder and encoder of theory \<open>Bencode\<close> compute: the decoder advances
  and stays inside the buffer, it returns only well-formed values, it inverts the encoder on
  every well-formed value whatever follows in the buffer, and a repeated dictionary key keeps
  its last value.
\<close>

section \<open>Progress and bounds\<close>

lemma decode_bounds:
  "decode_element data i = Inr (x, j) \<Longrightarrow> i < j \<and> j \<le> length data"
  "decode_list data i acc = Inr (xs, j) \<Longrightarrow> i \<le> j"
  "decode_dict data i acc' = Inr (m, j) \<Longrightarrow> i \<le> j"
proof (induction data i and data i acc and data i acc' arbitrary: x j and xs j and m j
    rule: decode_element_decode_list_decode_dict.induct)
  case (1 data i)
  from 1(3) show ?case
  proof (cases rule: decode_element_InrE)
    case (int v e)
    then show ?thesis using scan_until_ge [of "i + 1" byte_e data] by simp
  next
    case (string len colon)
    then show ?thesis using scan_until_ge [of i byte_colon data] by auto
  next
    case (list xs k)
    then show ?thesis using 1(1) by auto
  next
    case (dict m k)
    then show ?thesis using 1(2) by auto
  qed
next
  case (2 data i acc)
  from 2(3) show ?case
  proof (cases rule: decode_list_InrE)
    case (item x k)
    show ?thesis
      using 2(1) [OF _ item(3)] 2(2) [OF _ item(3) refl item(4)] item(1,2) by simp
  qed simp
next
  case (3 data i acc)
  from 3(4) show ?case
  proof (cases rule: decode_dict_InrE)
    case (entry b k v l)
    have t: "\<not> \<not> IsString (BString b)" "NodeToString (BString b) = Inr (ToString b)"
      by (simp_all add: NodeToString_def)
    show ?thesis
      using 3(1) [OF _ entry(3)] 3(2) [OF _ entry(3) refl t entry(4)]
        3(3) [OF _ entry(3) refl t entry(4) refl entry(5)] entry(1,2) by simp
  qed simp
qed

section \<open>Well-formed values\<close>

text \<open>
  The values a \<open>Bnode\<close> can hold: a 64-bit integer, a vector within
  \<open>max_size()\<close>, a map whose keys increase.
\<close>

fun wf_bnode :: "bnode \<Rightarrow> bool" where
  "wf_bnode (BInt v) \<longleftrightarrow> in_int_range 64 v"
| "wf_bnode (BString b) \<longleftrightarrow> length b < 2 ^ 63"
| "wf_bnode (BList xs) \<longleftrightarrow> (\<forall>x\<in>set xs. wf_bnode x)"
| "wf_bnode (BDict m) \<longleftrightarrow> map_ok m \<and> (\<forall>(k, v)\<in>set m. length k < 2 ^ 63 \<and> wf_bnode v)"

abbreviation wf_entries :: "(string \<times> bnode) list \<Rightarrow> bool" where
  "wf_entries m \<equiv> \<forall>(k, v)\<in>set m. length k < 2 ^ 63 \<and> wf_bnode v"

lemma wf_entries_assign:
  "wf_entries m \<Longrightarrow> length k < 2 ^ 63 \<Longrightarrow> wf_bnode v \<Longrightarrow> wf_entries (map_assign k v m)"
  using set_map_assign_subset [of k v m] by blast

lemma length_slice_le: "length (buf_slice data i j) \<le> length data"
  by (simp add: buf_slice_def)

lemma decode_wf:
  assumes "length data < 2 ^ 63"
  shows "decode_element data i = Inr (x, j) \<Longrightarrow> wf_bnode x"
    and "decode_list data i acc = Inr (xs, j) \<Longrightarrow> \<forall>x\<in>set acc. wf_bnode x \<Longrightarrow> \<forall>x\<in>set xs. wf_bnode x"
    and "decode_dict data i acc' = Inr (m, j) \<Longrightarrow> wf_bnode (BDict acc') \<Longrightarrow> wf_bnode (BDict m)"
  using assms
proof (induction data i and data i acc and data i acc' arbitrary: x j and xs j and m j
    rule: decode_element_decode_list_decode_dict.induct)
  case (1 data i)
  from 1(3) show ?case
  proof (cases rule: decode_element_InrE)
    case (int v e)
    then show ?thesis by (auto simp: stoll_def dest: sto_int_range)
  next
    case (list xs k)
    then show ?thesis using 1(1,4) by auto
  next
    case (dict m k)
    then show ?thesis using 1(2,4) by auto
  next
    case (string len colon)
    then show ?thesis using length_slice_le [of data "colon + 1" "colon + 1 + nat len"] 1(4) by simp
  qed
next
  case (2 data i acc)
  from 2(3) show ?case
  proof (cases rule: decode_list_InrE)
    case stop
    then show ?thesis using 2(4) by simp
  next
    case (item x k)
    have c: "i < length data \<and> data ! i \<noteq> byte_e"
      using item(1,2) by simp
    have "wf_bnode x"
      by (rule 2(1) [OF c item(3) 2(5)])
    with 2(4) have "\<forall>y\<in>set (acc @ [x]). wf_bnode y"
      by simp
    then show ?thesis
      by (rule 2(2) [OF c item(3) refl item(4) _ 2(5)])
  qed
next
  case (3 data i acc)
  from 3(4) show ?case
  proof (cases rule: decode_dict_InrE)
    case stop
    then show ?thesis using 3(5) by simp
  next
    case (entry b k v l)
    have c: "i < length data \<and> data ! i \<noteq> byte_e"
      using entry(1,2) by simp
    have t: "\<not> \<not> IsString (BString b)" "NodeToString (BString b) = Inr (ToString b)"
      by (simp_all add: NodeToString_def)
    have "wf_bnode (BString b)" and "wf_bnode v"
      using 3(1) [OF c entry(3) 3(6)] 3(2) [OF c entry(3) refl t entry(4) 3(6)] by simp_all
    then have "wf_bnode (BDict (map_assign (ToString b) v acc))"
      using 3(5) wf_entries_assign [of acc "ToString b" v] by (simp add: map_ok_assign)
    then show ?thesis
      by (rule 3(3) [OF c entry(3) refl t entry(4) refl entry(5) _ 3(6)])
  qed
qed

section \<open>The language of the decoder\<close>

text \<open>
  \<open>spells n w\<close>: the bytes \<open>w\<close> are a text of the value \<open>n\<close>. A number is whatever
  \<open>stoll\<close> takes for it up to the delimiter, so leading zeros, a sign, leading spaces and a tail
  that is not a number are allowed where a number is; a dictionary may list its keys in any order and
  repeatedly, each assignment replacing the one before.
\<close>

inductive spells :: "bnode \<Rightarrow> buffer \<Rightarrow> bool"
  and spells_items :: "bnode list \<Rightarrow> buffer \<Rightarrow> bool"
  and spells_entries :: "(string \<times> bnode) list \<Rightarrow> buffer \<Rightarrow> bool"
where
  spells_int: "byte_e \<notin> set t \<Longrightarrow> stoll (ToString t) = Inr v \<Longrightarrow>
    spells (BInt v) (byte_of_char CHR ''i'' # t @ [byte_e])"
| spells_string: "t \<noteq> [] \<Longrightarrow> isdigit (char_of_byte (hd t)) \<Longrightarrow> byte_colon \<notin> set t \<Longrightarrow>
    stoll (ToString t) = Inr (int (length b)) \<Longrightarrow> spells (BString b) (t @ byte_colon # b)"
| spells_list: "spells_items xs w \<Longrightarrow> spells (BList xs) (byte_of_char CHR ''l'' # w @ [byte_e])"
| spells_dict: "spells_entries kvs w \<Longrightarrow>
    spells (BDict (std_map.assign_all kvs [])) (byte_of_char CHR ''d'' # w @ [byte_e])"
| items_nil: "spells_items [] []"
| items_cons: "spells x u \<Longrightarrow> spells_items xs w \<Longrightarrow> spells_items (x # xs) (u @ w)"
| entries_nil: "spells_entries [] []"
| entries_cons: "spells (BString b) u \<Longrightarrow> spells v w \<Longrightarrow> spells_entries kvs r \<Longrightarrow>
    spells_entries ((ToString b, v) # kvs) (u @ w @ r)"

lemma scan_until_found:
  "d \<notin> set mid \<Longrightarrow> scan_until d (pre @ mid @ d # post) (length pre) = length pre + length mid"
proof (induction mid arbitrary: pre)
  case Nil
  then show ?case by (subst scan_until.simps) (simp add: nth_append)
next
  case (Cons b mid)
  have "scan_until d ((pre @ [b]) @ mid @ d # post) (length (pre @ [b])) = length (pre @ [b]) + length mid"
    using Cons by (intro Cons.IH) auto
  moreover have "scan_until d (pre @ (b # mid) @ d # post) (length pre)
      = scan_until d (pre @ (b # mid) @ d # post) (length pre + 1)"
    using Cons.prems by (subst scan_until.simps) (auto simp: nth_append)
  ultimately show ?case by simp
qed

lemma slice_middle: "buf_slice (pre @ mid @ post) (length pre) (length pre + length mid) = mid"
  by (simp add: buf_slice_def)

lemma decode_list_stop: "decode_list (pre @ byte_e # post) (length pre) acc = Inr (acc, length pre)"
  by (subst decode_list.simps) (simp add: nth_append)

lemma decode_dict_stop: "decode_dict (pre @ byte_e # post) (length pre) acc = Inr (acc, length pre)"
  by (subst decode_dict.simps) (simp add: nth_append)

lemma decode_list_item:
  "i < length data \<Longrightarrow> data ! i \<noteq> byte_e \<Longrightarrow> decode_element data i = Inr (x, j) \<Longrightarrow>
   decode_list data i acc = decode_list data j (acc @ [x])"
  by (simp add: decode_list.simps [of data i])

lemma decode_dict_entry:
  "i < length data \<Longrightarrow> data ! i \<noteq> byte_e \<Longrightarrow> decode_element data i = Inr (BString b, j) \<Longrightarrow>
   decode_element data j = Inr (v, l) \<Longrightarrow>
   decode_dict data i acc = decode_dict data l (map_assign (ToString b) v acc)"
  by (simp add: decode_dict.simps [of data i] NodeToString_def)

lemma starts_not_e:
  assumes "\<exists>b r. xs = b # r \<and> b \<noteq> byte_e"
  shows "length pre < length (pre @ xs @ post)" "(pre @ xs @ post) ! length pre \<noteq> byte_e"
  using assms by auto

lemma spells_hd:
  assumes "spells n w"
  shows "\<exists>b r. w = b # r \<and> b \<noteq> byte_e"
  using assms
proof (cases rule: spells.cases)
  case (spells_string t b)
  then show ?thesis
    by (cases t) auto
qed auto

text \<open>Every text of a value decodes to it at its place, whatever stands around it.\<close>

lemma spells_decodes:
  "spells n w \<Longrightarrow> decode_element (pre @ w @ post) (length pre) = Inr (n, length pre + length w)"
  "spells_items xs w' \<Longrightarrow> decode_list (pre @ w' @ byte_e # post) (length pre) acc = Inr (acc @ xs, length pre + length w')"
  "spells_entries kvs w'' \<Longrightarrow>
   decode_dict (pre @ w'' @ byte_e # post) (length pre) acc' = Inr (std_map.assign_all kvs acc', length pre + length w'')"
proof (induction arbitrary: pre post and pre post acc and pre post acc' rule: spells_spells_items_spells_entries.inducts)
  case (spells_int t v)
  let ?d = "pre @ (byte_of_char CHR ''i'' # t @ [byte_e]) @ post"
  have scan: "scan_until byte_e ?d (length pre + 1) = length pre + 1 + length t"
    using scan_until_found [OF spells_int(1), of "pre @ [byte_of_char CHR ''i'']" post] by simp
  have "buf_slice ?d (length pre + 1) (length pre + 1 + length t) = t"
    using slice_middle [of "pre @ [byte_of_char CHR ''i'']" t "byte_e # post"] by simp
  then have "decode_element ?d (length pre) = Inr (BInt v, length pre + 1 + length t + 1)"
    using spells_int(2) by (intro decode_element_int [OF _ _ scan]) simp_all
  then show ?case by simp
next
  case (spells_string t b)
  let ?d = "pre @ (t @ byte_colon # b) @ post"
  have scan: "scan_until byte_colon ?d (length pre) = length pre + length t"
    using scan_until_found [OF spells_string(3), of pre "b @ post"] by simp
  have t: "buf_slice ?d (length pre) (length pre + length t) = t"
    using slice_middle [of pre t "byte_colon # b @ post"] by simp
  have b: "buf_slice ?d (length pre + length t + 1) (length pre + length t + 1 + length b) = b"
    using slice_middle [of "pre @ t @ [byte_colon]" b post] by (simp add: add.assoc)
  have hd: "?d ! length pre = hd t"
    using spells_string(1) by (cases t) (simp_all add: nth_append)
  have "decode_element ?d (length pre) = Inr (BString (buf_slice ?d (length pre + length t + 1)
      (length pre + length t + 1 + length b)), length pre + length t + 1 + length b)"
    by (rule decode_element_string [OF _ _ scan]) (simp_all only: t hd, simp_all add: spells_string)
  then show ?case
    unfolding b by simp
next
  case (spells_list xs w)
  let ?l = "byte_of_char CHR ''l''"
  let ?d = "pre @ (?l # w @ [byte_e]) @ post"
  have "decode_list ?d (length pre + 1) [] = Inr (xs, length pre + 1 + length w)"
    using spells_list.IH [of "pre @ [?l]" post "[]"] by simp
  then have "decode_element ?d (length pre) = Inr (BList xs, length pre + 1 + length w + 1)"
    by (intro decode_element_list) simp_all
  then show ?case by simp
next
  case (spells_dict kvs w)
  let ?l = "byte_of_char CHR ''d''"
  let ?d = "pre @ (?l # w @ [byte_e]) @ post"
  have "decode_dict ?d (length pre + 1) [] = Inr (std_map.assign_all kvs [], length pre + 1 + length w)"
    using spells_dict.IH [of "pre @ [?l]" post "[]"] by simp
  then have "decode_element ?d (length pre) = Inr (BDict (std_map.assign_all kvs []), length pre + 1 + length w + 1)"
    by (intro decode_element_dict) simp_all
  then show ?case by simp
next
  case items_nil
  then show ?case by (simp add: decode_list_stop)
next
  case (items_cons x u xs w)
  let ?rest = "w @ byte_e # post"
  have "decode_list (pre @ u @ ?rest) (length pre) acc = decode_list ((pre @ u) @ ?rest) (length (pre @ u)) (acc @ [x])"
    using items_cons.IH(1) [of pre ?rest]
    by (subst decode_list_item [OF starts_not_e [OF spells_hd [OF items_cons.hyps(1)]]]) simp_all
  also have "\<dots> = Inr ((acc @ [x]) @ xs, length (pre @ u) + length w)"
    by (rule items_cons.IH(2))
  finally show ?case by simp
next
  case entries_nil
  then show ?case by (simp add: decode_dict_stop)
next
  case (entries_cons b u v w kvs r)
  let ?rest = "r @ byte_e # post"
  let ?d = "pre @ u @ w @ ?rest"
  have k: "decode_element ?d (length pre) = Inr (BString b, length (pre @ u))"
    using entries_cons.IH(1) [of pre "w @ ?rest"] by simp
  have v: "decode_element ?d (length (pre @ u)) = Inr (v, length (pre @ u @ w))"
    using entries_cons.IH(2) [of "pre @ u" ?rest] by simp
  have "decode_dict ?d (length pre) acc' = decode_dict ((pre @ u @ w) @ ?rest) (length (pre @ u @ w)) (map_assign (ToString b) v acc')"
    by (subst decode_dict_entry [OF starts_not_e [OF spells_hd [OF entries_cons.hyps(1)]] k v]) simp
  also have "\<dots> = Inr (std_map.assign_all kvs (map_assign (ToString b) v acc'), length (pre @ u @ w) + length r)"
    by (rule entries_cons.IH(3))
  finally show ?case by simp
qed

text \<open>What was decoded is a text of the value.\<close>

lemma scan_until_stop:
  "scan_until d data i < length data \<Longrightarrow>
   data ! scan_until d data i = d \<and> d \<notin> set (buf_slice data i (scan_until d data i))"
proof (induction d data i rule: scan_until.induct)
  case (1 d data i)
  show ?case
  proof (cases "i < length data \<and> data ! i \<noteq> d")
    case True
    then have s: "scan_until d data i = scan_until d data (i + 1)"
      by (subst scan_until.simps) simp
    have "i + 1 \<le> scan_until d data (i + 1)"
      by (rule scan_until_ge)
    then have "buf_slice data i (scan_until d data (i + 1)) = data ! i # buf_slice data (i + 1) (scan_until d data (i + 1))"
      using True by (simp add: buf_slice_def take_Cons' flip: Cons_nth_drop_Suc)
    then show ?thesis
      using 1 True by (auto simp: s)
  next
    case False
    then have "scan_until d data i = i"
      by (subst scan_until.simps) auto
    then show ?thesis
      using 1(2) False by (simp add: buf_slice_def)
  qed
qed

lemma slice_split: "i \<le> j \<Longrightarrow> j \<le> k \<Longrightarrow> buf_slice data i k = buf_slice data i j @ buf_slice data j k"
  using take_add [of "j - i" "k - j" "drop i data"] by (simp add: buf_slice_def add.commute)

lemma slice_first: "i < j \<Longrightarrow> i < length data \<Longrightarrow> buf_slice data i j = data ! i # buf_slice data (i + 1) j"
  by (simp add: buf_slice_def take_Cons' flip: Cons_nth_drop_Suc)

lemma slice_last: "i \<le> j \<Longrightarrow> j < length data \<Longrightarrow> buf_slice data i (j + 1) = buf_slice data i j @ [data ! j]"
  using slice_split [of i j "j + 1" data] slice_first [of j "j + 1" data] by (simp add: buf_slice_def)

lemma slice_same [simp]: "buf_slice data i i = []"
  by (simp add: buf_slice_def)

lemma slice_container:
  assumes "char_of_byte (data ! i) = c" and "data ! k = byte_e" and "i + 1 \<le> k" and "k < length data"
  shows "buf_slice data i (k + 1) = byte_of_char c # buf_slice data (i + 1) k @ [byte_e]"
proof -
  have "data ! i = byte_of_char c"
    using assms(1) by auto
  then show ?thesis
    using slice_first [of i "k + 1" data] slice_last [of "i + 1" k data] assms(2-4) by simp
qed

lemma slice_string:
  assumes "data ! c = d" and "i \<le> c" and "c < j" and "c < length data"
  shows "buf_slice data i j = buf_slice data i c @ d # buf_slice data (c + 1) j"
  using slice_split [of i c j data] slice_first [of c j data] assms by simp

lemma decoded_spells:
  "decode_element data i = Inr (x, j) \<Longrightarrow> spells x (buf_slice data i j)"
  "decode_list data i acc = Inr (xs, j) \<Longrightarrow> j < length data \<Longrightarrow>
   data ! j = byte_e \<and> (\<exists>ys. xs = acc @ ys \<and> spells_items ys (buf_slice data i j))"
  "decode_dict data i acc' = Inr (m, j) \<Longrightarrow> j < length data \<Longrightarrow>
   data ! j = byte_e \<and> (\<exists>kvs. m = std_map.assign_all kvs acc' \<and> spells_entries kvs (buf_slice data i j))"
proof (induction data i and data i acc and data i acc' arbitrary: x j and xs j and m j
    rule: decode_element_decode_list_decode_dict.induct)
  case (1 data i)
  from 1(3) show ?case
  proof (cases rule: decode_element_InrE)
    case (int v e)
    have i: "i + 1 \<le> e" "data ! e = byte_e" "byte_e \<notin> set (buf_slice data (i + 1) e)"
      using scan_until_ge [of "i + 1" byte_e data] scan_until_stop [of byte_e data "i + 1"] int(2,3) by simp_all
    show ?thesis
      using spells_int [OF i(3) int(4)] unfolding int(1,5) slice_container [OF int(7) i(2,1) int(3)] .
  next
    case (list xs k)
    have k: "i + 1 \<le> k"
      by (rule decode_bounds(2) [OF list(4)])
    have i: "data ! k = byte_e" "spells_items xs (buf_slice data (i + 1) k)"
      using 1(1) [OF list(1) _ list(2,4,5)] list(2) by auto
    show ?thesis
      using spells_list [OF i(2)] unfolding list(3,6) slice_container [OF list(2) i(1) k list(5)] .
  next
    case (dict m k)
    have k: "i + 1 \<le> k"
      by (rule decode_bounds(3) [OF dict(4)])
    obtain kvs where i: "data ! k = byte_e" "m = std_map.assign_all kvs []" "spells_entries kvs (buf_slice data (i + 1) k)"
      using 1(2) [OF dict(1) _ _ dict(2,4,5)] dict(2) by auto
    show ?thesis
      using spells_dict [OF i(3)] unfolding dict(3,6) i(2) slice_container [OF dict(2) i(1) k dict(5)] .
  next
    case (string len colon)
    have c: "i \<le> colon" "data ! colon = byte_colon" "byte_colon \<notin> set (buf_slice data i colon)"
      using scan_until_ge [of i byte_colon data] scan_until_stop [of byte_colon data i] string(3,4) by simp_all
    have "i \<noteq> colon"
      using c(2) string(2) by auto
    then have t: "buf_slice data i colon = data ! i # buf_slice data (i + 1) colon"
      using slice_first [of i colon data] c(1) string(4) by simp
    have "0 \<le> len"
      using string(2,5) strto_int_digit_nonneg [of "char_of_byte (data ! i)" "ToString (buf_slice data (i + 1) colon)" len]
      by (simp add: t ToString_def stoll_def sto_int_def split: option.splits if_splits)
    then have l: "length (buf_slice data (colon + 1) (colon + 1 + nat len)) = nat len"
      using string(6) by (simp add: buf_slice_def)
    have "buf_slice data i j = buf_slice data i colon @ byte_colon # buf_slice data (colon + 1) (colon + 1 + nat len)"
      unfolding string(7) by (rule slice_string [OF c(2,1) _ string(4)]) simp
    moreover have "spells (BString (buf_slice data (colon + 1) (colon + 1 + nat len)))
        (buf_slice data i colon @ byte_colon # buf_slice data (colon + 1) (colon + 1 + nat len))"
      using c(3) t string(2,5) l \<open>0 \<le> len\<close> by (intro spells_string) simp_all
    ultimately show ?thesis
      by (simp add: string(1))
  qed
next
  case (2 data i acc)
  from 2(3) show ?case
  proof (cases rule: decode_list_InrE)
    case stop
    then show ?thesis using 2(4) items_nil by auto
  next
    case (item x k)
    have c: "i < length data \<and> data ! i \<noteq> byte_e"
      using item(1,2) by simp
    have b: "i \<le> k" "k \<le> j"
      using decode_bounds(1) [OF item(3)] decode_bounds(2) [OF item(4)] by simp_all
    obtain ys where "data ! j = byte_e" "xs = (acc @ [x]) @ ys" "spells_items ys (buf_slice data k j)"
      using 2(2) [OF c item(3) refl item(4) 2(4)] by blast
    moreover have "spells x (buf_slice data i k)"
      by (rule 2(1) [OF c item(3)])
    ultimately show ?thesis
      using items_cons slice_split [OF b, of data] by (intro conjI exI [of _ "x # ys"]) simp_all
  qed
next
  case (3 data i acc)
  from 3(4) show ?case
  proof (cases rule: decode_dict_InrE)
    case stop
    then show ?thesis using 3(5) entries_nil by (auto intro!: exI [of _ "[]"])
  next
    case (entry b k v l)
    have c: "i < length data \<and> data ! i \<noteq> byte_e"
      using entry(1,2) by simp
    have t: "\<not> \<not> IsString (BString b)" "NodeToString (BString b) = Inr (ToString b)"
      by (simp_all add: NodeToString_def)
    have o: "i \<le> k" "k \<le> l" "l \<le> j"
      using decode_bounds(1) [OF entry(3)] decode_bounds(1) [OF entry(4)] decode_bounds(3) [OF entry(5)] by simp_all
    obtain kvs where "data ! j = byte_e" "m = std_map.assign_all kvs (map_assign (ToString b) v acc)"
        "spells_entries kvs (buf_slice data l j)"
      using 3(3) [OF c entry(3) refl t entry(4) refl entry(5) 3(5)] by blast
    moreover have "spells (BString b) (buf_slice data i k)" "spells v (buf_slice data k l)"
      using 3(1) [OF c entry(3)] 3(2) [OF c entry(3) refl t entry(4)] by simp_all
    moreover have "buf_slice data i j = buf_slice data i k @ buf_slice data k l @ buf_slice data l j"
      using slice_split [of i k j data] slice_split [of k l j data] o by simp
    ultimately show ?thesis
      using entries_cons by (intro conjI exI [of _ "(ToString b, v) # kvs"]) simp_all
  qed
qed

lemma Decode_spells: "Decode data = Inr n \<longleftrightarrow> (\<exists>w rest. data = w @ rest \<and> spells n w)"
proof
  assume "Decode data = Inr n"
  then obtain j where "decode_element data 0 = Inr (n, j)"
    by (auto simp: Decode_def res_bind_def split: sum.splits)
  from decoded_spells(1) [OF this] have "spells n (take j data)"
    by (simp add: buf_slice_def)
  then show "\<exists>w rest. data = w @ rest \<and> spells n w"
    by (metis append_take_drop_id)
next
  assume "\<exists>w rest. data = w @ rest \<and> spells n w"
  then show "Decode data = Inr n"
    using spells_decodes(1) [of n _ "[]"] by (fastforce simp: Decode_def)
qed

section \<open>What the encoder writes\<close>

lemma byte_not_in_to_string:
  "\<not> isdigit c \<Longrightarrow> c \<noteq> CHR ''-'' \<Longrightarrow> byte_of_char c \<notin> set (FromString (to_string i))"
  using to_string_chars [of c i] by (auto simp: FromString_def)

text \<open>The text of a string, as it stands for a value and for a key.\<close>

definition enc_string :: "string \<Rightarrow> buffer" where
  "enc_string s = FromString (to_string (int (length s)) @ '':'' @ s)"

definition enc_entry :: "string \<times> bnode \<Rightarrow> buffer" where
  "enc_entry kv = enc_string (fst kv) @ Encode (snd kv)"

lemma Encode_container:
  "Encode (BString b) = enc_string (ToString b)"
  "Encode (BList xs) = byte_of_char CHR ''l'' # concat (map Encode xs) @ [byte_e]"
  "Encode (BDict m) = byte_of_char CHR ''d'' # concat (map enc_entry m) @ [byte_e]"
proof -
  have "map (\<lambda>(k, v). FromString (to_string (int (length k)) @ '':'' @ k) @ Encode v) m = map enc_entry m"
    by (simp add: enc_entry_def enc_string_def case_prod_unfold)
  then show "Encode (BDict m) = byte_of_char CHR ''d'' # concat (map enc_entry m) @ [byte_e]"
    by (simp only: Encode.simps append_Cons append_Nil)
qed (simp_all add: enc_string_def)

declare Encode.simps(2-4) [simp del]

lemma enc_string_spells: "length s < 2 ^ 63 \<Longrightarrow> spells (BString (FromString s)) (enc_string s)"
proof -
  assume "length s < 2 ^ 63"
  then have n: "stoll (to_string (int (length s))) = Inr (int (length (FromString s)))"
    by (simp add: stoll_to_string in_int_range_def)
  have ne: "FromString (to_string (int (length s))) \<noteq> []"
    by (simp add: FromString_def)
  have "isdigit (hd (to_string (int (length s))))"
    using hd_nat_to_string_digit [of "length s"] by (simp add: to_string_def)
  then have h: "isdigit (char_of_byte (hd (FromString (to_string (int (length s))))))"
    by (cases "to_string (int (length s))") simp_all
  have "spells (BString (FromString s)) (FromString (to_string (int (length s))) @ byte_colon # FromString s)"
    using n h ne by (intro spells_string) (simp_all add: byte_not_in_to_string)
  then show ?thesis
    by (simp add: enc_string_def)
qed

lemma items_spelled: "\<forall>x\<in>set xs. spells x (Encode x) \<Longrightarrow> spells_items xs (concat (map Encode xs))"
  by (induction xs) (auto intro: items_nil items_cons)

lemma entries_spelled:
  "\<forall>(k, v)\<in>set kvs. length k < 2 ^ 63 \<and> spells v (Encode v) \<Longrightarrow> spells_entries kvs (concat (map enc_entry kvs))"
proof (induction kvs)
  case (Cons kv kvs)
  obtain k v where kv: "kv = (k, v)" by (cases kv)
  have "enc_entry kv = enc_string k @ Encode v"
    by (simp add: enc_entry_def kv)
  then show ?case
    using Cons entries_cons [OF enc_string_spells, of k v "Encode v" kvs "concat (map enc_entry kvs)"] by (simp add: kv)
qed (simp add: entries_nil)

lemma assign_all_sorted: "map_ok (acc @ kvs) \<Longrightarrow> std_map.assign_all kvs acc = acc @ kvs"
proof (induction kvs arbitrary: acc)
  case Nil
  then show ?case by simp
next
  case (Cons kv kvs)
  obtain k v where kv: "kv = (k, v)" by (cases kv)
  have "map_assign k v acc = acc @ [(k, v)]"
    using Cons.prems by (intro map_assign_greater) (auto simp: kv sorted_wrt_append)
  with Cons show ?case by (simp add: kv)
qed

lemma wf_spells: "wf_bnode n \<Longrightarrow> spells n (Encode n)"
proof (induction n)
  case (BInt v)
  then show ?case
    using spells_int [of "FromString (to_string v)" v] by (simp add: byte_not_in_to_string stoll_to_string)
next
  case (BString b)
  then show ?case using enc_string_spells [of "ToString b"] by (simp add: Encode_container)
next
  case (BList xs)
  then show ?case by (simp add: Encode_container spells_list items_spelled)
next
  case (BDict m)
  have "spells_entries m (concat (map enc_entry m))"
    using BDict.prems BDict.IH by (intro entries_spelled) fastforce
  moreover have "std_map.assign_all m [] = m"
    using BDict.prems assign_all_sorted [of "[]" m] by simp
  ultimately show ?case
    using spells_dict [of m "concat (map enc_entry m)"] by (simp add: Encode_container)
qed

lemma wf_decodes:
  "wf_bnode n \<Longrightarrow> decode_element (pre @ Encode n @ post) (length pre) = Inr (n, length pre + length (Encode n))"
  by (rule spells_decodes(1) [OF wf_spells])

lemma Decode_Encode_append:
  assumes "wf_bnode n"
  shows "Decode (Encode n @ rest) = Inr n"
  using wf_decodes [OF assms, of "[]" rest] by (simp add: Decode_def)

text \<open>The decoder fails by exceptions only.\<close>

lemma stoll_throws: "stoll s = Inl f \<Longrightarrow> \<exists>e. f = Throw e"
  unfolding stoll_def by (cases f) (auto simp: sto_int_no_ub)

lemma decode_throws:
  "decode_element data i = Inl f \<Longrightarrow> \<exists>e. f = Throw e"
  "decode_list data i acc = Inl f \<Longrightarrow> \<exists>e. f = Throw e"
  "decode_dict data i acc' = Inl f \<Longrightarrow> \<exists>e. f = Throw e"
proof (induction data i and data i acc and data i acc' arbitrary: f and f and f
    rule: decode_element_decode_list_decode_dict.induct)
  case (1 data i)
  then show ?case
    by (auto simp: decode_element.simps [of data i] Let_def dest: stoll_throws split: if_splits sum.splits option.splits)
next
  case (2 data i acc)
  then show ?case
    by (auto simp: decode_list.simps [of data i] split: if_splits sum.splits)
next
  case (3 data i acc)
  then show ?case
    by (auto simp: decode_dict.simps [of data i] NodeToString_def split: if_splits sum.splits elim!: IsString.elims)
qed

text \<open>Nothing is decoded from an encoding that was cut off.\<close>

lemma Decode_cut:
  assumes "wf_bnode n" and "k < length (Encode n)"
  shows "\<exists>e. Decode (take k (Encode n)) = Inl (Throw e)"
proof (cases "Decode (take k (Encode n))")
  case (Inl f)
  then show ?thesis
    using decode_throws(1) [of "take k (Encode n)" 0]
    by (cases "decode_element (take k (Encode n)) 0") (auto simp: Decode_def)
next
  case (Inr x)
  then obtain w rest where w: "take k (Encode n) = w @ rest" "spells x w"
    unfolding Decode_spells by blast
  from w(1) have "Encode n = w @ rest @ drop k (Encode n)"
    by (metis append_assoc append_take_drop_id)
  then have "decode_element (Encode n) 0 = Inr (x, length w)"
    using spells_decodes(1) [OF w(2), of "[]" "rest @ drop k (Encode n)"] by simp
  moreover have "decode_element (Encode n) 0 = Inr (n, length (Encode n))"
    using wf_decodes [OF assms(1), of "[]" "[]"] by simp
  ultimately have "length (Encode n) = length w"
    by auto
  then show ?thesis
    using arg_cong [OF w(1), of length] assms(2) by simp
qed

lemma Decode_wf_result: "Decode data = Inr n \<Longrightarrow> length data < 2 ^ 63 \<Longrightarrow> wf_bnode n"
  using decode_wf(1) [of data 0 n] by (auto simp: Decode_def)

section \<open>Properties\<close>

text \<open>
  C11: decoding inverts encoding. For every well-formed value, of any depth, the decoder run on
  its encoding, followed by any bytes, returns that value.
\<close>

theorem decode_encode: "wf_bnode n \<Longrightarrow> Decode (Encode n @ rest) = Inr n"
  by (rule Decode_Encode_append)

theorem decode_encode_witness:
  "Decode (Encode (BDict [(''a'', BInt (- 5)), (''b'', BList [BString [0, 255]])]) @ [7])
     = Inr (BDict [(''a'', BInt (- 5)), (''b'', BList [BString [0, 255]])])"
  by (rule decode_encode) (simp add: in_int_range_def less_char_def)

text \<open>
  C33: the decoder makes progress and stays in bounds. When \<open>DecodeElement\<close> returns from
  index \<open>i\<close>, the new index is beyond \<open>i\<close>, so the loops over lists and
  dictionaries end, and at most the size of the buffer.
\<close>

theorem decode_element_progress: "decode_element data i = Inr (x, j) \<Longrightarrow> i < j \<and> j \<le> length data"
  by (rule decode_bounds)

theorem decode_element_progress_witness:
  "\<exists>j. decode_element ([1] @ Encode (BString [9, 8]) @ [3]) 1 = Inr (BString [9, 8], j) \<and> 1 < j \<and> j \<le> 6"
proof -
  let ?d = "[1] @ Encode (BString [9, 8]) @ [3]"
  have l: "length (Encode (BString [9, 8])) = 4"
    by code_simp
  have d: "decode_element ?d 1 = Inr (BString [9, 8], 5)"
    using wf_decodes [of "BString [9, 8]" "[1]" "[3]"] l by simp
  show ?thesis
    using decode_element_progress [OF d] d l by auto
qed

text \<open>
  C34: the decoder accepts exactly its language. \<open>Decode\<close> returns a value if and only if the data
  begin with a text of this value: \<open>i\<close>, a number and \<open>e\<close>; a number that starts with a
  digit, a colon and as many bytes as it says; \<open>l\<close>, texts of the elements and \<open>e\<close>;
  \<open>d\<close>, texts of keys, which are strings, and values in turn and \<open>e\<close>, where the value is
  what assigning the entries in their order to an empty map gives. A number is what \<open>stoll\<close>
  reads of the bytes up to the delimiter. What follows the text is ignored.
\<close>

theorem Decode_accepts: "Decode data = Inr n \<longleftrightarrow> (\<exists>w rest. data = w @ rest \<and> spells n w)"
  by (rule Decode_spells)

text \<open>
  Only well-formed values come out of the decoder: integers within 64 bits, strings a
  vector can hold, and dictionaries whose keys strictly increase, at every depth.
\<close>

theorem Decode_wf: "Decode data = Inr n \<Longrightarrow> length data < 2 ^ 63 \<Longrightarrow> wf_bnode n"
  by (rule Decode_wf_result)

theorem Decode_wf_witness:
  "wf_bnode (BDict [(''a'', BInt 1)])"
proof (rule Decode_wf)
  show "Decode (FromString ''d1:ai0e1:ai1ee'') = Inr (BDict [(''a'', BInt 1)])"
    by code_simp
qed simp

text \<open>
  The encoding is unambiguous. Two well-formed values whose encodings start two equal byte
  strings are the same value, and what follows is the same; in particular
  \<open>Encode\<close> is injective, so equal \<open>info\<close> bytes mean equal
  \<open>info\<close> dictionaries.
\<close>

theorem Encode_prefix_free:
  assumes "wf_bnode m" and "wf_bnode n" and "Encode m @ a = Encode n @ b"
  shows "m = n \<and> a = b"
proof -
  have "decode_element (Encode m @ a) 0 = Inr (m, length (Encode m))"
    "decode_element (Encode n @ b) 0 = Inr (n, length (Encode n))"
    using assms(1,2) wf_decodes [of _ "[]"] by simp_all
  with assms(3) show ?thesis by simp
qed

theorem Encode_prefix_free_witness: "BInt 12 = BInt 12 \<and> [5] = [5 :: u8]"
  by (rule Encode_prefix_free) (simp_all add: in_int_range_def)

text \<open>
  A dictionary may repeat a key or list its keys in any order; \<open>dict[key] = val\<close>
  keeps the value read last, and the result is ordered by key.
\<close>

theorem Decode_last_key_wins:
  assumes "wf_entries (pre @ (k, v) # post)" and "k \<notin> fst ` set post"
  shows "\<exists>m. Decode (Encode (BDict (pre @ (k, v) # post))) = Inr (BDict m)
           \<and> map_ok m \<and> map_of m k = Some v"
proof -
  let ?kvs = "pre @ (k, v) # post"
  have "spells_entries ?kvs (concat (map enc_entry ?kvs))"
    using assms(1) wf_spells by (intro entries_spelled) blast
  then have "spells (BDict (std_map.assign_all ?kvs [])) (Encode (BDict ?kvs))"
    unfolding Encode_container by (rule spells_dict)
  then have "Decode (Encode (BDict ?kvs)) = Inr (BDict (std_map.assign_all ?kvs []))"
    by (metis Decode_spells append_Nil2)
  moreover have "map_of (std_map.assign_all ?kvs []) k = Some v"
    using assms(2) by (intro std_map.last_assignment_wins) simp_all
  ultimately show ?thesis
    using std_map.valid_assign_all [of "[]" ?kvs] by auto
qed

theorem Decode_last_key_wins_witness:
  "\<exists>m. Decode (Encode (BDict ([(''b'', BInt 1)] @ (''a'', BInt 2) # [(''b'', BInt 3)]))) = Inr (BDict m)
       \<and> map_ok m \<and> map_of m ''a'' = Some (BInt 2)"
  by (rule Decode_last_key_wins) (simp_all add: in_int_range_def)

end
