(* ===== verification/Sha1_Digest.thy ===== *)
theory Sha1_Digest
  imports Buffer_Utils
begin

text \<open>
  The client's own SHA-1, class \<open>Sha1\<close> of include/parsing/Sha1.h, loop by loop: the
  padding loop, the message schedule \<open>w[80]\<close>, the eighty rounds, the loop over 64-byte
  blocks and the hexadecimal output. It is proved to compute the function FIPS 180-4 defines,
  stated here from the standard with its own initial value, \<open>ROTL\<close>, \<open>Ch\<close>,
  \<open>Parity\<close>, \<open>Maj\<close>, recursive schedule and text form.
\<close>

section \<open>The code\<close>

definition LeftRotate :: "u32 \<Rightarrow> nat \<Rightarrow> u32" where
  "LeftRotate x c = push_bit c x OR drop_bit (32 - c) x"

lemma bits_mod_512: "n * 8 mod 512 = 8 * (n mod 64)" for n :: nat
  using mod_mult_mult1 [of 8 n 64] by (simp add: mult.commute)

text \<open>
  \<open>while ((m.size() * 8) % 512 != 448) m.push_back(0)\<close>; 512 divides \<open>2 ^ 64\<close>, so
  the wrap-around of \<open>size_t\<close> does not change the test.
\<close>

function pad_zeros :: "buffer \<Rightarrow> buffer" where
  "pad_zeros m = (if (length m * 8) mod 512 \<noteq> 448 then pad_zeros (m @ [0]) else m)"
  by pat_completeness auto
termination
proof (relation "measure (\<lambda>m. if length m mod 64 \<le> 56 then 56 - length m mod 64 else 120 - length m mod 64)")
  fix m :: buffer
  assume "length m * 8 mod 512 \<noteq> 448"
  then have "length m mod 64 \<noteq> 56"
    by (simp add: bits_mod_512)
  then show "(m @ [0], m) \<in> measure (\<lambda>m. if length m mod 64 \<le> 56 then 56 - length m mod 64 else 120 - length m mod 64)"
    using mod_less_divisor [of 64 "length m"] by (auto simp: mod_Suc)
qed simp

declare pad_zeros.simps [simp del]

definition padded :: "buffer \<Rightarrow> buffer" where
  "padded data =
     (let ml = word_of_nat (length data) * 8 :: u64;
          m = pad_zeros (data @ [0x80])
      in m @ map (\<lambda>i. ucast (drop_bit (56 - i * 8) ml AND 0xFF)) [0..<8])"

type_synonym sha_state = "u32 \<times> u32 \<times> u32 \<times> u32 \<times> u32"

definition schedule :: "buffer \<Rightarrow> nat \<Rightarrow> u32 list" where
  "schedule m i =
     foldl (\<lambda>w j. w @ [LeftRotate (w ! (j - 3) XOR w ! (j - 8) XOR w ! (j - 14) XOR w ! (j - 16)) 1])
       (map (\<lambda>j. be32 (m ! (i + j * 4)) (m ! (i + j * 4 + 1)) (m ! (i + j * 4 + 2)) (m ! (i + j * 4 + 3))) [0..<16])
       [16..<80]"

fun sha_round :: "u32 list \<Rightarrow> sha_state \<Rightarrow> nat \<Rightarrow> sha_state" where
  "sha_round w (a, b, c, d, e) j =
     (let (f, k) =
            (if j < 20 then ((b AND c) OR (NOT b AND d), 0x5A827999)
             else if j < 40 then (b XOR c XOR d, 0x6ED9EBA1)
             else if j < 60 then ((b AND c) OR (b AND d) OR (c AND d), 0x8F1BBCDC)
             else (b XOR c XOR d, 0xCA62C1D6));
          temp = LeftRotate a 5 + f + e + k + w ! j
      in (temp, a, LeftRotate b 30, c, d))"

definition sha_block :: "buffer \<Rightarrow> sha_state \<Rightarrow> nat \<Rightarrow> sha_state" where
  "sha_block m h i =
     (case h of (h0, h1, h2, h3, h4) \<Rightarrow>
      case foldl (sha_round (schedule m i)) h [0..<80] of (a, b, c, d, e) \<Rightarrow>
        (h0 + a, h1 + b, h2 + c, h3 + d, h4 + e))"

text \<open>\<open>for (size_t i = 0; i < m.size(); i += 64)\<close>.\<close>

function sha_blocks :: "buffer \<Rightarrow> sha_state \<Rightarrow> nat \<Rightarrow> sha_state" where
  "sha_blocks m h i = (if i < length m then sha_blocks m (sha_block m h i) (i + 64) else h)"
  by pat_completeness auto
termination
  by (relation "measure (\<lambda>(m, h, i). length m - i)") auto

declare sha_blocks.simps [simp del]

definition hex8 :: "u32 \<Rightarrow> string" where
  "hex8 h = setw 8 CHR ''0'' (hex_to_string (unat h))"

definition sha_init :: sha_state where
  "sha_init = (0x67452301, 0xEFCDAB89, 0x98BADCFE, 0x10325476, 0xC3D2E1F0)"

definition Calculate :: "buffer \<Rightarrow> string" where
  "Calculate data =
     (case sha_blocks (padded data) sha_init 0 of (h0, h1, h2, h3, h4) \<Rightarrow>
        hex8 h0 @ hex8 h1 @ hex8 h2 @ hex8 h3 @ hex8 h4)"

section \<open>FIPS 180-4\<close>

text \<open>
  The standard, section by section: the rotation (2.2.2), the functions \<open>f\<^sub>t\<close>
  (4.1.1), the constants \<open>K\<^sub>t\<close> (4.2.1), the padding (5.1.1: the bit 1, the least
  number of zeros, the length in bits), the initial hash value (5.3.1), the schedule and the step
  (6.1.2). Nothing of the code's own definitions is used.
\<close>

definition fips_f :: "nat \<Rightarrow> u32 \<Rightarrow> u32 \<Rightarrow> u32 \<Rightarrow> u32" where
  "fips_f t x y z =
     (if t < 20 then (x AND y) XOR (NOT x AND z)
      else if 40 \<le> t \<and> t < 60 then (x AND y) XOR (x AND z) XOR (y AND z)
      else x XOR y XOR z)"

definition fips_K :: "nat \<Rightarrow> u32" where
  "fips_K t = [0x5A827999, 0x6ED9EBA1, 0x8F1BBCDC, 0xCA62C1D6] ! (t div 20)"

fun fips_W :: "(nat \<Rightarrow> u32) \<Rightarrow> nat \<Rightarrow> u32" where
  "fips_W M t =
     (if t < 16 then M t
      else word_rotl 1 (fips_W M (t - 3) XOR fips_W M (t - 8) XOR fips_W M (t - 14) XOR fips_W M (t - 16)))"

declare fips_W.simps [simp del]

fun fips_step :: "(nat \<Rightarrow> u32) \<Rightarrow> sha_state \<Rightarrow> nat \<Rightarrow> sha_state" where
  "fips_step M (a, b, c, d, e) t =
     (word_rotl 5 a + fips_f t b c d + e + fips_K t + fips_W M t, a, word_rotl 30 b, c, d)"

definition fips_pad :: "buffer \<Rightarrow> buffer" where
  "fips_pad data =
     data @ [0x80] @ replicate ((119 - length data mod 64) mod 64) 0
       @ map (\<lambda>i. word_of_nat (8 * length data div 256 ^ (7 - i))) [0..<8]"

text \<open>The word \<open>j\<close> of block \<open>n\<close>.\<close>

definition fips_word :: "buffer \<Rightarrow> nat \<Rightarrow> nat \<Rightarrow> u32" where
  "fips_word m n j = (\<Sum>k<4. word_of_nat (unat (m ! (64 * n + 4 * j + k)) * 256 ^ (3 - k)))"

definition fips_block :: "buffer \<Rightarrow> sha_state \<Rightarrow> nat \<Rightarrow> sha_state" where
  "fips_block m h n =
     (case h of (h0, h1, h2, h3, h4) \<Rightarrow>
      case foldl (fips_step (fips_word m n)) h [0..<80] of (a, b, c, d, e) \<Rightarrow>
        (a + h0, b + h1, c + h2, d + h3, e + h4))"

definition fips_H0 :: "u32 list" where
  "fips_H0 = [0x67452301, 0xEFCDAB89, 0x98BADCFE, 0x10325476, 0xC3D2E1F0]"

definition fips_sha1 :: "buffer \<Rightarrow> u32 list" where
  "fips_sha1 data =
     (let m = fips_pad data
      in case foldl (fips_block m) (fips_H0 ! 0, fips_H0 ! 1, fips_H0 ! 2, fips_H0 ! 3, fips_H0 ! 4)
             [0..<length m div 64] of (a, b, c, d, e) \<Rightarrow> [a, b, c, d, e])"

text \<open>The text of a digest: for each word its eight hexadecimal digits, the highest first.\<close>

definition fips_digits :: "u32 \<Rightarrow> string" where
  "fips_digits w = map (\<lambda>i. ''0123456789abcdef'' ! (unat w div 16 ^ (7 - i) mod 16)) [0..<8]"

definition fips_text :: "u32 list \<Rightarrow> string" where
  "fips_text ws = concat (map fips_digits ws)"

section \<open>The code computes the standard's function\<close>

lemma LeftRotate_rotl:
  assumes "0 < c" and "c < 32"
  shows "LeftRotate x c = word_rotl c x"
  unfolding LeftRotate_def
proof (rule bit_word_eqI)
  fix n
  assume "n < LENGTH(32)"
  then have n: "n < 32" by simp
  have "(n + 32 - c) mod 32 = (if c \<le> n then n - c else 32 + n - c)"
  proof (cases "c \<le> n")
    case True
    then have "(n + 32 - c) mod 32 = (n - c) mod 32"
      by (metis add_diff_assoc2 mod_add_self2)
    then show ?thesis using n True by simp
  next
    case False
    then show ?thesis using assms n by (simp add: add.commute)
  qed
  then show "bit (push_bit c x OR drop_bit (32 - c) x) n = bit (word_rotl c x) n"
    using assms n bit_imp_le_length [of x "32 + n - c"] by (auto simp: bit_simps bit_word_rotl_iff)
qed

lemma sha_round_fips_f:
  "(b AND c) OR (NOT b AND d) = (b AND c) XOR (NOT b AND (d :: u32))"
  "(b AND c) OR (b AND d) OR (c AND d) = (b AND c) XOR (b AND d) XOR (c AND (d :: u32))"
  by (rule bit_word_eqI; auto simp: bit_simps)+

lemma div_20_cases:
  "t < 80 \<Longrightarrow> t div 20 = (if t < 20 then 0 else if t < 40 then 1 else if t < 60 then 2 else (3 :: nat))"
  by (auto intro: div_nat_eqI)

lemma sha_round_fips_step:
  assumes "t < 80" and "w ! t = fips_W M t"
  shows "sha_round w s t = fips_step M s t"
proof -
  obtain a b c d e where s: "s = (a, b, c, d, e)" by (cases s)
  show ?thesis
    using assms(2) div_20_cases [OF assms(1)]
    by (simp add: s LeftRotate_rotl fips_f_def fips_K_def sha_round_fips_f numeral_2_eq_2 numeral_3_eq_3)
qed

lemma foldl_schedule:
  assumes "n \<le> 64"
    and "length ws = 16" and "\<forall>t<16. ws ! t = fips_W M t"
  defines "ext \<equiv> \<lambda>w j. w @ [LeftRotate (w ! (j - 3) XOR w ! (j - 8) XOR w ! (j - 14) XOR w ! (j - 16)) 1]"
  shows "length (foldl ext ws [16..<16 + n]) = 16 + n
         \<and> (\<forall>t<16 + n. foldl ext ws [16..<16 + n] ! t = fips_W M t)"
  using assms(1)
proof (induction n)
  case 0
  then show ?case using assms(2,3) by simp
next
  case (Suc n)
  let ?w = "foldl ext ws [16..<16 + n]"
  have l: "length ?w = 16 + n" and w: "\<And>t. t < 16 + n \<Longrightarrow> ?w ! t = fips_W M t"
    using Suc by simp_all
  have e: "ext v j = v @ [LeftRotate (v ! (j - 3) XOR v ! (j - 8) XOR v ! (j - 14) XOR v ! (j - 16)) 1]" for v j
    by (simp add: ext_def)
  have s: "foldl ext ws [16..<16 + Suc n] = ext ?w (16 + n)"
    using upt_Suc_append [of 16 "16 + n"] by simp
  have "ext ?w (16 + n) ! (16 + n) = fips_W M (16 + n)"
    using l by (subst fips_W.simps) (simp add: e [of ?w] nth_append w LeftRotate_rotl)
  moreover have "t < 16 + n \<or> t = 16 + n" if "t < 16 + Suc n" for t
    using that by linarith
  ultimately show ?case
    unfolding s using l w by (auto simp: e [of ?w] nth_append)
qed

lemma fips_word_be32:
  "fips_word m n j = be32 (m ! (64 * n + 4 * j)) (m ! (64 * n + 4 * j + 1))
     (m ! (64 * n + 4 * j + 2)) (m ! (64 * n + 4 * j + 3))" (is "_ = ?r")
proof -
  have sum4: "(\<Sum>k<4. f k) = f 0 + f 1 + f 2 + f 3" for f :: "nat \<Rightarrow> u32"
    by (simp add: eval_nat_numeral)
  have "word_of_nat (unat ?r) = fips_word m n j"
    unfolding unat_be32 fips_word_def sum4 by simp
  then show ?thesis by simp
qed

lemma schedule_fips_W:
  assumes "t < 80"
  shows "schedule m (64 * n) ! t = fips_W (fips_word m n) t"
proof -
  let ?ws = "map (\<lambda>j. be32 (m ! (64 * n + j * 4)) (m ! (64 * n + j * 4 + 1))
    (m ! (64 * n + j * 4 + 2)) (m ! (64 * n + j * 4 + 3))) [0..<16]"
  have "\<forall>t<16. ?ws ! t = fips_W (fips_word m n) t"
    by (simp add: fips_W.simps fips_word_be32 mult.commute del: upt_rec_numeral)
  then show ?thesis
    using foldl_schedule [of 64 ?ws "fips_word m n"] assms
    by (simp add: schedule_def del: upt_rec_numeral)
qed

lemma sha_block_fips: "sha_block m h (64 * n) = fips_block m h n"
proof -
  have "foldl (sha_round (schedule m (64 * n))) h [0..<80] = foldl (fips_step (fips_word m n)) h [0..<80]"
    by (rule foldl_cong) (auto simp: sha_round_fips_step schedule_fips_W)
  then show ?thesis
    by (simp add: sha_block_def fips_block_def add.commute split: prod.split)
qed

lemma sha_blocks_fips:
  assumes "length m = 64 * b" and "n \<le> b"
  shows "sha_blocks m h (64 * n) = foldl (fips_block m) h [n..<b]"
  using assms(2)
proof (induction "b - n" arbitrary: n h)
  case 0
  then show ?case using assms(1) by (subst sha_blocks.simps) simp
next
  case (Suc k)
  then have n: "n < b" by simp
  have "sha_blocks m h (64 * n) = sha_blocks m (fips_block m h n) (64 * Suc n)"
    using n assms(1) by (subst sha_blocks.simps) (simp add: sha_block_fips add.commute)
  also have "\<dots> = foldl (fips_block m) (fips_block m h n) [Suc n..<b]"
    using Suc n by (intro Suc.hyps(1)) auto
  finally show ?case
    using n by (simp add: upt_conv_Cons)
qed

lemma pad_count: "r < 64 \<Longrightarrow> (120 - r) mod 64 = (if r \<le> 56 then 56 - r else 120 - r)" for r :: nat
  using mod_add_self2 [of "56 - r" 64] by (auto simp: mod_if)

lemma pad_zeros_replicate: "pad_zeros m = m @ replicate ((120 - length m mod 64) mod 64) 0"
proof (induction m rule: pad_zeros.induct)
  case (1 m)
  show ?case
  proof (cases "length m mod 64 = 56")
    case True
    then show ?thesis by (subst pad_zeros.simps) (simp add: bits_mod_512)
  next
    case False
    have "length m mod 64 < 64" "Suc (length m) mod 64 < 64" by simp_all
    with False have "(120 - length m mod 64) mod 64 = Suc ((120 - Suc (length m) mod 64) mod 64)"
      unfolding pad_count [OF \<open>length m mod 64 < 64\<close>] pad_count [OF \<open>Suc (length m) mod 64 < 64\<close>]
      by (auto simp: mod_Suc)
    then show ?thesis
      using 1 False by (subst pad_zeros.simps) (simp add: bits_mod_512)
  qed
qed

lemma padded_fips_pad:
  assumes "length data < 2 ^ 61"
  shows "padded data = fips_pad data"
proof -
  let ?L = "length data"
  have u: "unat (word_of_nat ?L * 8 :: u64) = 8 * ?L"
    using assms by (simp add: unat_word_ariths unat_of_nat)
  have "ucast (drop_bit (56 - i * 8) (word_of_nat ?L * 8 :: u64)) = (word_of_nat (8 * ?L div 256 ^ (7 - i)) :: u8)"
    if "i < 8" for i
  proof -
    have "(256 :: nat) ^ (7 - i) = 2 ^ (8 * (7 - i))"
      by (simp add: power_mult)
    moreover have "8 * (7 - i) = 56 - i * 8"
      using that by simp
    ultimately have "unat (drop_bit (56 - i * 8) (word_of_nat ?L * 8 :: u64)) = 8 * ?L div 256 ^ (7 - i)"
      unfolding unat_drop_bit_eq u by (simp add: drop_bit_eq_div)
    then show ?thesis
      by (metis of_nat_unat)
  qed
  then have "map (\<lambda>i. ucast (drop_bit (56 - i * 8) (word_of_nat ?L * 8 :: u64) AND 0xFF)) [0..<8]
      = map (\<lambda>i. word_of_nat (8 * ?L div 256 ^ (7 - i)) :: u8) [0..<8]"
    by (simp del: upt_rec_numeral)
  moreover have "(120 - Suc ?L mod 64) mod 64 = (119 - ?L mod 64) mod 64"
    by (simp add: mod_Suc)
  ultimately show ?thesis
    by (simp add: padded_def fips_pad_def pad_zeros_replicate)
qed

lemma length_padded: "64 dvd length (padded data)"
proof -
  define q r where "q = Suc (length data) div 64" and "r = Suc (length data) mod 64"
  then have s: "Suc (length data) = 64 * q + r" and r: "r < 64"
    by simp_all
  have "length (padded data) = Suc (length data) + (120 - r) mod 64 + 8"
    by (simp add: padded_def pad_zeros_replicate Let_def r_def)
  also have "\<dots> = 64 * (q + (if r \<le> 56 then 1 else 2))"
    unfolding s pad_count [OF r] using r by simp
  finally show ?thesis by simp
qed

lemma setw_hex_digits:
  "n < 16 ^ k \<Longrightarrow> 0 < k \<Longrightarrow>
   setw k CHR ''0'' (hex_to_string n) = map (\<lambda>i. hex_digit (n div 16 ^ (k - 1 - i) mod 16)) [0..<k]"
proof (induction k arbitrary: n)
  case (Suc k)
  have z: "hex_digit 0 = CHR ''0''"
    by (simp add: hex_digit_def char_of_def bit_iff_odd_drop_bit drop_bit_nat_def)
  show ?case
  proof (cases "n < 16")
    case True
    then have "n div 16 ^ (Suc k - 1 - i) mod 16 = 0" if "i < k" for i
    proof -
      have "(16 :: nat) ^ 1 \<le> 16 ^ (Suc k - 1 - i)"
        using that by (intro power_increasing) simp_all
      then show ?thesis
        using True by simp
    qed
    then have "map (\<lambda>i. hex_digit (n div 16 ^ (Suc k - 1 - i) mod 16)) [0..<Suc k] = replicate k CHR ''0'' @ [hex_digit n]"
      using True z by (intro nth_equalityI) (auto simp: nth_append less_Suc_eq simp del: upt_Suc)
    then show ?thesis
      using True by (simp add: setw_def hex_to_string.simps [of n])
  next
    case False
    then have k: "0 < k" "n div 16 < 16 ^ k"
      using Suc.prems by (cases k; simp add: less_mult_imp_div_less mult.commute)+
    have "n div 16 ^ (k - i) = n div 16 div 16 ^ (k - 1 - i)" if "i < k" for i
      using that by (simp add: div_mult2_eq [symmetric] Suc_diff_Suc flip: power_Suc)
    then have "map (\<lambda>i. hex_digit (n div 16 ^ (Suc k - 1 - i) mod 16)) [0..<Suc k]
        = setw k CHR ''0'' (hex_to_string (n div 16)) @ [hex_digit (n mod 16)]"
      unfolding Suc.IH [OF k(2,1)] by simp
    then show ?thesis
      using False by (simp add: setw_def hex_to_string.simps [of n])
  qed
qed simp

lemma hex_digit_nth: "d < 16 \<Longrightarrow> hex_digit d = ''0123456789abcdef'' ! d"
proof -
  have "\<forall>d\<in>set [0..<16]. hex_digit d = ''0123456789abcdef'' ! d"
    by code_simp
  then show "d < 16 \<Longrightarrow> ?thesis"
    by simp
qed

lemma hex8_fips_digits: "hex8 w = fips_digits w"
  using setw_hex_digits [of "unat w" 8] unsigned_less [of w, where ?'a = nat]
  by (simp add: hex8_def fips_digits_def hex_digit_nth del: upt_rec_numeral)

lemma hex8_text: "length (hex8 h) = 8" "\<forall>c\<in>set (hex8 h). is_hex c"
  using unsigned_less [of h, where ?'a = nat] setw_hex_chars [of 8 "unat h"]
  by (simp_all add: hex8_def length_setw_hex)

lemma length_Calculate: "length (Calculate data) = 40"
  by (auto simp: Calculate_def hex8_text split: prod.splits)

section \<open>Properties\<close>

text \<open>
  C10: the hand-written SHA-1 is SHA-1. For every input shorter than \<open>2 ^ 61\<close> bytes,
  the bound of the standard, \<open>Calculate\<close> returns the FIPS 180-4 digest as forty
  hexadecimal digits; initial value, constants, rounds, padding and digits are those of the
  standard and not taken from the code.
\<close>

theorem Calculate_is_sha1:
  assumes "length data < 2 ^ 61"
  shows "Calculate data = fips_text (fips_sha1 data)"
proof -
  obtain b where b: "length (padded data) = 64 * b"
    using length_padded [of data] by blast
  have "sha_blocks (padded data) sha_init 0 = foldl (fips_block (padded data)) sha_init [0..<b]"
    using sha_blocks_fips [OF b, of 0] by simp
  also have "\<dots> = foldl (fips_block (padded data)) (fips_H0 ! 0, fips_H0 ! 1, fips_H0 ! 2, fips_H0 ! 3, fips_H0 ! 4)
      [0..<length (padded data) div 64]"
    using b by (simp add: sha_init_def fips_H0_def)
  finally show ?thesis
    by (simp add: Calculate_def fips_sha1_def fips_text_def Let_def hex8_fips_digits padded_fips_pad [OF assms, symmetric]
        split: prod.split)
qed

theorem Calculate_is_sha1_witness: "Calculate [] = fips_text (fips_sha1 [])"
  by (rule Calculate_is_sha1) simp

text \<open>
  The digest is text. \<open>Calculate\<close> returns exactly forty lower-case hexadecimal
  digits, whatever the input.
\<close>

theorem Calculate_hex: "length (Calculate data) = 40 \<and> (\<forall>c\<in>set (Calculate data). is_hex c)"
  using hex8_text(2) by (auto simp: length_Calculate) (auto simp: Calculate_def split: prod.splits)

end
