(* ===== verification/Torrent_File.thy ===== *)
theory Torrent_File
  imports Bencode_Props
begin

text \<open>
  \<open>TorrentFile::Load\<close> of source/parsing/TorrentFile.cpp: from the bytes of a
  \<open>.torrent\<close> file to the metadata record. The file is what the file system returned
  (\<open>None\<close> when it could not be opened). OpenSSL's \<open>SHA1\<close> is a parameter; what
  the code relies on, that it writes twenty bytes, is the hypothesis \<open>sha1_contract\<close>.
\<close>

section \<open>The record and the loader\<close>

record torrent_file =
  announce :: string
  tf_name :: string
  tf_length :: int
  piece_length :: int
  piece_hashes :: "string list"
  info_hash :: buffer

definition sha1_contract :: "(buffer \<Rightarrow> buffer) \<Rightarrow> bool" where
  "sha1_contract sha1 \<longleftrightarrow> (\<forall>d. length (sha1 d) = 20)"

text \<open>\<open>for (size_t i = 0; i < piecesBlob.size(); i += 20)\<close>.\<close>

function split_pieces :: "buffer \<Rightarrow> nat \<Rightarrow> string list" where
  "split_pieces blob i =
     (if i < length blob then ToString (buf_slice blob i (i + 20)) # split_pieces blob (i + 20) else [])"
  by pat_completeness auto
termination
  by (relation "measure (\<lambda>(blob, i). length blob - i)") auto

declare split_pieces.simps [simp del]

definition dict_string :: "(string \<times> bnode) list \<Rightarrow> string \<Rightarrow> string res" where
  "dict_string d k = res_bind (map_at d k) NodeToString"

definition dict_int :: "(string \<times> bnode) list \<Rightarrow> string \<Rightarrow> int res" where
  "dict_int d k = res_bind (map_at d k) GetInt"

definition Load :: "(buffer \<Rightarrow> buffer) \<Rightarrow> string \<Rightarrow> buffer option \<Rightarrow> torrent_file res" where
  "Load sha1 filepath file =
     (case file of
        None \<Rightarrow> rt_error (''Cannot open file: '' @ filepath)
      | Some data \<Rightarrow>
          res_bind (Decode data) (\<lambda>root.
          res_bind (GetDict root) (\<lambda>rootDict.
          res_bind (dict_string rootDict ''announce'') (\<lambda>ann.
          if map_count rootDict ''info'' = 0 then rt_error ''Invalid Torrent: Missing info''
          else
          res_bind (map_at rootDict ''info'') (\<lambda>infoNode.
          res_bind (GetDict infoNode) (\<lambda>infoDict.
          res_bind (dict_string infoDict ''name'') (\<lambda>nm.
          res_bind (dict_int infoDict ''piece length'') (\<lambda>plen.
          res_bind
            (if map_count infoDict ''length'' \<noteq> 0 then dict_int infoDict ''length''
             else rt_error ''Multi-file torrents not supported yet'') (\<lambda>len.
          res_bind (res_bind (map_at infoDict ''pieces'') GetString) (\<lambda>piecesBlob.
          if length piecesBlob mod 20 \<noteq> 0 then rt_error ''Invalid pieces length''
          else Inr \<lparr>announce = ann, tf_name = nm, tf_length = len, piece_length = plen,
                    piece_hashes = split_pieces piecesBlob 0,
                    info_hash = sha1 (Encode infoNode)\<rparr>))))))))))"

section \<open>Splitting the piece hashes\<close>

lemma split_pieces_from:
  assumes "length blob mod 20 = 0" and "i mod 20 = 0" and "i \<le> length blob"
  shows "concat (split_pieces blob i) = ToString (drop i blob)
    \<and> (\<forall>h\<in>set (split_pieces blob i). length h = 20)
    \<and> length (split_pieces blob i) = (length blob - i) div 20"
  using assms
proof (induction blob i rule: split_pieces.induct)
  case (1 blob i)
  show ?case
  proof (cases "i < length blob")
    case True
    then have le: "i + 20 \<le> length blob"
      using "1.prems" by presburger
    have d: "drop i blob = buf_slice blob i (i + 20) @ drop (i + 20) blob"
      by (simp add: buf_slice_def) (metis add.commute append_take_drop_id drop_drop)
    have l: "length (buf_slice blob i (i + 20)) = 20"
      using le by (simp add: buf_slice_def)
    have n: "(length blob - i) div 20 = Suc ((length blob - (i + 20)) div 20)"
      using le by (subst le_div_geq) (auto simp: diff_diff_eq)
    from "1.IH" [OF True] "1.prems" le show ?thesis
      unfolding split_pieces.simps [of blob i] n using True d l by simp
  next
    case False
    with "1.prems"(3) show ?thesis by (subst (1 2 3) split_pieces.simps) (simp add: ToString_def)
  qed
qed

lemma split_pieces_blocks:
  "length blob mod 20 = 0 \<Longrightarrow> concat (split_pieces blob 0) = ToString blob"
  "length blob mod 20 = 0 \<Longrightarrow> h \<in> set (split_pieces blob 0) \<Longrightarrow> length h = 20"
  "length blob mod 20 = 0 \<Longrightarrow> length (split_pieces blob 0) = length blob div 20"
  using split_pieces_from [of blob 0] by auto

lemma wf_lookup: "wf_bnode (BDict m) \<Longrightarrow> map_of m k = Some v \<Longrightarrow> wf_bnode v"
  by (drule map_of_SomeD) auto

section \<open>What a successful load has read\<close>

lemma map_at_Inr: "map_at m k = Inr v \<longleftrightarrow> map_of m k = Some v"
  by (simp add: map_at_def split: option.split)

lemma GetDict_Inr: "GetDict n = Inr m \<longleftrightarrow> n = BDict m"
  by (cases n) auto

lemma GetString_Inr: "GetString n = Inr b \<longleftrightarrow> n = BString b"
  by (cases n) auto

lemma GetInt_Inr: "GetInt n = Inr v \<longleftrightarrow> n = BInt v"
  by (cases n) auto

lemma dict_string_Inr: "dict_string d k = Inr s \<longleftrightarrow> map_of d k = Some (BString (FromString s))"
  by (auto simp: dict_string_def NodeToString_def map_at_Inr GetString_Inr)

lemma dict_int_Inr: "dict_int d k = Inr v \<longleftrightarrow> map_of d k = Some (BInt v)"
  by (auto simp: dict_int_def map_at_Inr GetInt_Inr)

lemmas getter_simps = map_at_Inr GetDict_Inr GetString_Inr GetInt_Inr dict_string_Inr dict_int_Inr

text \<open>
  The relation between a decoded root and the record: every field comes from its key.
\<close>

definition describes :: "(buffer \<Rightarrow> buffer) \<Rightarrow> bnode \<Rightarrow> torrent_file \<Rightarrow> bool" where
  "describes sha1 root t \<longleftrightarrow>
     (\<exists>d i blob. root = BDict d \<and> map_of d ''announce'' = Some (BString (FromString (announce t)))
       \<and> map_of d ''info'' = Some (BDict i)
       \<and> map_of i ''name'' = Some (BString (FromString (tf_name t)))
       \<and> map_of i ''piece length'' = Some (BInt (piece_length t))
       \<and> map_of i ''length'' = Some (BInt (tf_length t))
       \<and> map_of i ''pieces'' = Some (BString blob) \<and> length blob mod 20 = 0
       \<and> concat (piece_hashes t) = ToString blob \<and> (\<forall>h\<in>set (piece_hashes t). length h = 20)
       \<and> info_hash t = sha1 (Encode (BDict i)))"

lemma Load_fields:
  "Decode data = Inr (BDict d) \<Longrightarrow> map_of d ''announce'' = Some (BString ab) \<Longrightarrow>
   map_of d ''info'' = Some (BDict i) \<Longrightarrow> map_of i ''name'' = Some (BString nb) \<Longrightarrow>
   map_of i ''piece length'' = Some (BInt p) \<Longrightarrow> map_of i ''length'' = Some (BInt l) \<Longrightarrow>
   map_of i ''pieces'' = Some (BString blob) \<Longrightarrow> length blob mod 20 = 0 \<Longrightarrow>
   Load sha1 fp (Some data) = Inr \<lparr>announce = ToString ab, tf_name = ToString nb, tf_length = l,
     piece_length = p, piece_hashes = split_pieces blob 0, info_hash = sha1 (Encode (BDict i))\<rparr>"
  by (simp add: Load_def map_at_def map_count_def dict_string_def dict_int_def NodeToString_def)

lemma Load_InrD:
  "Load sha1 fp (Some data) = Inr t \<Longrightarrow>
     \<exists>d i blob. Decode data = Inr (BDict d)
       \<and> map_of d ''announce'' = Some (BString (FromString (announce t)))
       \<and> map_of d ''info'' = Some (BDict i)
       \<and> map_of i ''name'' = Some (BString (FromString (tf_name t)))
       \<and> map_of i ''piece length'' = Some (BInt (piece_length t))
       \<and> map_of i ''length'' = Some (BInt (tf_length t))
       \<and> map_of i ''pieces'' = Some (BString blob) \<and> length blob mod 20 = 0
       \<and> piece_hashes t = split_pieces blob 0 \<and> info_hash t = sha1 (Encode (BDict i))"
  by (auto simp: Load_def getter_simps split: if_splits)

lemma Load_None [simp]: "Load sha1 fp None = rt_error (''Cannot open file: '' @ fp)"
  by (simp add: Load_def)

lemma blocks_of_20_unique:
  assumes "concat hs = ToString blob" and "\<forall>h\<in>set hs. length h = 20" and "length blob mod 20 = 0"
  shows "hs = split_pieces blob 0"
proof (rule concat_injective)
  have "length (concat hs) = 20 * length hs"
    using assms(2) by (induction hs) auto
  then show "length hs = length (split_pieces blob 0)"
    using assms(1,3) by (simp add: split_pieces_blocks)
  show "concat hs = concat (split_pieces blob 0)"
    using assms by (simp add: split_pieces_blocks)
  show "\<forall>(x, y)\<in>set (zip hs (split_pieces blob 0)). length x = length y"
  proof clarify
    fix x y
    assume "(x, y) \<in> set (zip hs (split_pieces blob 0))"
    then have "x \<in> set hs" and "y \<in> set (split_pieces blob 0)"
      by (rule set_zip_leftD, rule set_zip_rightD)
    then show "length x = length y"
      using assms(2) split_pieces_blocks(2) [OF assms(3)] by simp
  qed
qed

lemma Load_describes:
  "Load sha1 fp (Some data) = Inr t \<longleftrightarrow> (\<exists>root. Decode data = Inr root \<and> describes sha1 root t)"
proof
  assume L: "Load sha1 fp (Some data) = Inr t"
  from Load_InrD [OF L] show "\<exists>root. Decode data = Inr root \<and> describes sha1 root t"
    unfolding describes_def by (elim exE conjE) (simp add: split_pieces_blocks)
next
  assume "\<exists>root. Decode data = Inr root \<and> describes sha1 root t"
  then show "Load sha1 fp (Some data) = Inr t"
    unfolding describes_def by (cases t) (auto simp: Load_fields blocks_of_20_unique [symmetric])
qed

section \<open>Properties\<close>

text \<open>
  C31: \<open>Load\<close> returns exactly what the file says. On a file that holds the encoding of a
  value, it succeeds if and only if the value is a dictionary with an announce string and an
  info dictionary that has a name, a piece length, a length and a pieces string made of
  twenty-byte hashes; the record then holds these values, and the info hash is OpenSSL's digest
  of the bytes of the info dictionary.
\<close>

theorem Load_exact:
  assumes "wf_bnode root"
  shows "Load sha1 fp (Some (Encode root @ rest)) = Inr t \<longleftrightarrow> describes sha1 root t"
  using Decode_Encode_append [OF assms, of rest] by (simp add: Load_describes)


definition sample_info :: "(string \<times> bnode) list" where
  "sample_info = [(''length'', BInt 10), (''name'', BString (FromString ''f'')),
     (''piece length'', BInt 4), (''pieces'', BString (replicate 60 0))]"

definition sample_root :: bnode where
  "sample_root = BDict [(''announce'', BString (FromString ''udp://t'')), (''info'', BDict sample_info)]"

definition sample_torrent :: "(buffer \<Rightarrow> buffer) \<Rightarrow> torrent_file" where
  "sample_torrent sha1 = \<lparr>announce = ''udp://t'', tf_name = ''f'', tf_length = 10, piece_length = 4,
     piece_hashes = replicate 3 (replicate 20 (CHR 0x00)), info_hash = sha1 (Encode (BDict sample_info))\<rparr>"

lemma sample_wf: "wf_bnode sample_root"
  by (simp add: sample_root_def sample_info_def in_int_range_def less_char_def)

lemma sample_describes: "describes sha1 sample_root (sample_torrent sha1)"
proof -
  have "ToString (replicate 60 0) = replicate 60 (CHR 0x00)"
    by (simp add: ToString_def char_of_byte_def char_of_def map_replicate)
  also have "\<dots> = concat (replicate 3 (replicate 20 (CHR 0x00)))"
    by (simp add: numeral_3_eq_3 replicate_add [symmetric])
  finally show ?thesis
    unfolding describes_def sample_torrent_def sample_root_def by (simp add: sample_info_def)
qed

theorem Load_exact_witness:
  "Load (\<lambda>d. replicate 20 0) ''x.torrent'' (Some (Encode sample_root @ []))
     = Inr (sample_torrent (\<lambda>d. replicate 20 0))"
  using Load_exact [OF sample_wf] sample_describes by blast

lemma Decode_sample: "Decode (Encode sample_root) = Inr sample_root"
  using Decode_Encode_append [OF sample_wf, of "[]"] by simp

lemma length_sample: "length (Encode sample_root) < 2 ^ 63"
proof -
  have "length (Encode sample_root) < 200"
    by code_simp
  then show ?thesis by simp
qed

text \<open>
  A loaded torrent is consistent. The hash list has one twenty-byte entry for each block of
  the pieces string, the info hash has twenty bytes, and both sizes are 64-bit integers.
\<close>

theorem Load_consistent:
  assumes "Load sha1 fp (Some data) = Inr t" and "length data < 2 ^ 63" and "sha1_contract sha1"
  shows "(\<forall>h\<in>set (piece_hashes t). length h = 20) \<and> length (info_hash t) = 20
    \<and> in_int_range 64 (tf_length t) \<and> in_int_range 64 (piece_length t)"
proof -
  from assms(1) obtain root where root: "Decode data = Inr root" and d: "describes sha1 root t"
    by (auto simp: Load_describes)
  have wf: "wf_bnode root"
    using Decode_wf_result [OF root assms(2)] .
  from d obtain m i where "root = BDict m" and i: "map_of m ''info'' = Some (BDict i)"
    and l: "map_of i ''piece length'' = Some (BInt (piece_length t))"
      "map_of i ''length'' = Some (BInt (tf_length t))"
    by (auto simp: describes_def)
  with wf have "wf_bnode (BDict i)"
    using wf_lookup [OF _ i] by blast
  then have "in_int_range 64 (tf_length t)" "in_int_range 64 (piece_length t)"
    using wf_lookup [OF _ l(1)] wf_lookup [OF _ l(2)] by simp_all
  with d assms(3) show ?thesis
    by (auto simp: describes_def sha1_contract_def)
qed

theorem Load_consistent_witness:
  "length (info_hash (sample_torrent (\<lambda>d. replicate 20 0))) = 20"
proof -
  have "Load (\<lambda>d. replicate 20 0) ''x'' (Some (Encode sample_root)) = Inr (sample_torrent (\<lambda>d. replicate 20 0))"
    using Decode_sample sample_describes by (auto simp: Load_describes)
  from Load_consistent [OF this length_sample] show ?thesis
    by (simp add: sha1_contract_def length_sample)
qed

text \<open>
  The checks of \<open>Load\<close> and their exceptions, in the order of the code: a file that
  cannot be opened, bytes that do not decode, a root that is not a dictionary, no announce key,
  no info key, and an info dictionary without a length (a multi-file torrent).
\<close>

theorem Load_errors:
  "Load sha1 fp None = Inl (Throw (Runtime_Error (''Cannot open file: '' @ fp)))
   \<and> (Decode data = Inl f \<longrightarrow> Load sha1 fp (Some data) = Inl f)
   \<and> (Decode data = Inr n \<and> \<not> IsDict n \<longrightarrow>
        Load sha1 fp (Some data) = Inl (Throw (Runtime_Error ''Type mismatch: Expected Dict'')))
   \<and> (Decode data = Inr (BDict d) \<and> map_of d ''announce'' = None \<longrightarrow>
        Load sha1 fp (Some data) = Inl (Throw (Out_Of_Range ''map::at'')))
   \<and> (Decode data = Inr (BDict d) \<and> map_of d ''announce'' = Some (BString a) \<and>
        map_of d ''info'' = None \<longrightarrow>
        Load sha1 fp (Some data) = Inl (Throw (Runtime_Error ''Invalid Torrent: Missing info'')))
   \<and> (Decode data = Inr (BDict d) \<and> map_of d ''announce'' = Some (BString a) \<and>
        map_of d ''info'' = Some (BDict i) \<and> map_of i ''name'' = Some (BString b) \<and>
        map_of i ''piece length'' = Some (BInt p) \<and> map_of i ''length'' = None \<longrightarrow>
        Load sha1 fp (Some data) = Inl (Throw (Runtime_Error ''Multi-file torrents not supported yet'')))"
  by (intro conjI impI; (elim conjE)?; (cases n)?)
     (simp_all add: Load_def map_at_def map_count_def dict_string_def dict_int_def NodeToString_def)

theorem Load_errors_witness:
  "Load (\<lambda>d. d) ''f'' (Some (Encode (BDict []))) = Inl (Throw (Out_Of_Range ''map::at''))"
proof -
  have d: "Decode (Encode (BDict [])) = Inr (BDict [])"
    by code_simp
  show ?thesis
    using Load_errors [of "\<lambda>d. d" "''f''" "Encode (BDict [])" undefined undefined "[]"] d by simp
qed

text \<open>
  The info hash is taken from the decoded dictionary, not from the file. A file whose info
  dictionary lists its keys in another order loads without an error, but the bytes that are
  hashed are not the bytes of the file, so the client asks for a torrent nobody has.
\<close>

definition unsorted_info :: buffer where
  "unsorted_info = FromString ''d4:name1:f6:lengthi1e12:piece lengthi1e6:pieces0:e''"

definition unsorted_file :: buffer where
  "unsorted_file = FromString ''d8:announce1:u4:info'' @ unsorted_info @ FromString ''e''"

theorem info_hash_not_of_file:
  "\<exists>t hashed. Load sha1 fp (Some unsorted_file) = Inr t \<and> info_hash t = sha1 hashed
     \<and> hashed \<noteq> unsorted_info \<and> length hashed = length unsorted_info"
proof -
  let ?i = "[(''length'', BInt 1), (''name'', BString (FromString ''f'')), (''piece length'', BInt 1),
    (''pieces'', BString [])]"
  have d: "Decode unsorted_file = Inr (BDict [(''announce'', BString (FromString ''u'')), (''info'', BDict ?i)])"
    by code_simp
  have "Encode (BDict ?i) \<noteq> unsorted_info" and "length (Encode (BDict ?i)) = length unsorted_info"
    by code_simp+
  then show ?thesis
    using Load_fields [OF d, of "FromString ''u''" ?i "FromString ''f''" 1 1 "[]" sha1 fp]
    by (intro exI conjI) (assumption | simp)+
qed

end
