(* ===== verification/Url.thy ===== *)
theory Url
  imports Cpp_Lib
begin

text \<open>
  \<open>Url::Parse\<close> of source/tracker/Url.cpp: protocol, path, port and host are cut off an
  announce URL in this order. The port goes through \<open>std::stoi\<close>, whose two exceptions
  leave \<open>Parse\<close>.
\<close>

record url =
  protocol :: string
  host :: string
  port :: int
  path :: string

definition delim :: string where
  "delim = ''://''"

definition default_port :: "string \<Rightarrow> int" where
  "default_port proto =
     (if proto = ''http'' then 80 else if proto = ''udp'' then 80 else 6969)"

definition Parse :: "string \<Rightarrow> url res" where
  "Parse url_str =
     (case str_find delim url_str of
        None \<Rightarrow> Inl (Throw (Runtime_Error ''Invalid URL: No protocol''))
      | Some pos \<Rightarrow>
          let proto = take pos url_str;
              s = drop (pos + length delim) url_str;
              (pth, s) =
                (case str_find ''/'' s of
                   Some pos \<Rightarrow> (drop pos s, take pos s)
                 | None \<Rightarrow> (''/'', s))
          in (case str_find '':'' s of
                Some pos \<Rightarrow>
                  res_bind (stoi (drop (pos + 1) s)) (\<lambda>p.
                    Inr \<lparr>protocol = proto, host = take pos s, port = p, path = pth\<rparr>)
              | None \<Rightarrow>
                  Inr \<lparr>protocol = proto, host = s, port = default_port proto, path = pth\<rparr>))"

text \<open>The URL a record denotes, with and without an explicit port.\<close>

definition show_url :: "url \<Rightarrow> string" where
  "show_url u = protocol u @ delim @ host u @ '':'' @ to_string (port u) @ path u"

definition show_url_default :: "url \<Rightarrow> string" where
  "show_url_default u = protocol u @ delim @ host u @ path u"

text \<open>
  The records that are the parse of some URL of that form: no separator inside the protocol
  and the host, a path that starts with a slash, and a port that is an \<open>int\<close>.
\<close>

definition plain_url :: "url \<Rightarrow> bool" where
  "plain_url u \<longleftrightarrow> CHR '':'' \<notin> set (protocol u) \<and> CHR '':'' \<notin> set (host u)
     \<and> CHR ''/'' \<notin> set (host u) \<and> take 1 (path u) = ''/'' \<and> in_int_range 32 (port u)"

lemma find_delim:
  assumes "CHR '':'' \<notin> set a"
  shows "str_find delim (a @ delim @ b) = Some (length a)"
proof (rule str_find_append)
  show "\<forall>q<length a. take (length delim) (drop q (a @ delim @ b)) \<noteq> delim"
  proof (intro allI impI)
    fix q
    assume q: "q < length a"
    then have "a ! q \<noteq> CHR '':''"
      using assms nth_mem by metis
    then show "take (length delim) (drop q (a @ delim @ b)) \<noteq> delim"
      using Cons_nth_drop_Suc [OF q, symmetric] q by (simp add: delim_def)
  qed
qed

lemma slash_not_in_port: "CHR ''/'' \<notin> set (to_string p)" "CHR '':'' \<notin> set (to_string p)"
  using to_string_chars [of "CHR ''/''" p] to_string_chars [of "CHR '':''" p] by auto

lemma path_Cons: "take 1 p = ''/'' \<Longrightarrow> \<exists>r. p = CHR ''/'' # r"
  by (cases p) auto

section \<open>Properties\<close>

text \<open>
  C35: parsing inverts printing. The URL written from a protocol, host, port and path parses to
  exactly these, for every port that is an \<open>int\<close>.
\<close>

theorem Parse_show_url:
  assumes "plain_url u"
  shows "Parse (show_url u) = Inr u"
proof -
  obtain r where p: "path u = CHR ''/'' # r"
    using assms path_Cons by (auto simp: plain_url_def)
  let ?s = "host u @ '':'' @ to_string (port u)"
  have "str_find ''/'' (?s @ path u) = Some (length ?s)"
    using assms str_find_char_append [of "CHR ''/''" ?s r] slash_not_in_port
    by (simp add: plain_url_def p)
  moreover have "str_find '':'' ?s = Some (length (host u))"
    using assms str_find_char_append [of "CHR '':''" "host u"] by (simp add: plain_url_def)
  moreover have "stoi (to_string (port u)) = Inr (port u)"
    using assms by (simp add: stoi_def sto_int_def strto_int_to_string plain_url_def)
  ultimately show ?thesis
    using assms find_delim [of "protocol u" "?s @ path u"]
    by (simp add: Parse_def show_url_def plain_url_def)
qed

theorem Parse_show_url_witness:
  "Parse ''udp://t.org:80/announce''
     = Inr \<lparr>protocol = ''udp'', host = ''t.org'', port = 80, path = ''/announce''\<rparr>"
proof -
  let ?u = "\<lparr>protocol = ''udp'', host = ''t.org'', port = 80, path = ''/announce''\<rparr>"
  have "show_url ?u = ''udp://t.org:80/announce''"
    by code_simp
  then show ?thesis
    using Parse_show_url [of ?u] by (simp add: plain_url_def in_int_range_def)
qed

text \<open>
  A URL without a port gets the default of its protocol, 80 for http and udp and 6969 for
  any other; a URL without a path gets the path \<open>/\<close>.
\<close>

theorem Parse_defaults:
  assumes "CHR '':'' \<notin> set proto" and "CHR '':'' \<notin> set h" and "CHR ''/'' \<notin> set h"
  shows "Parse (proto @ delim @ h @ CHR ''/'' # r)
      = Inr \<lparr>protocol = proto, host = h, port = default_port proto, path = CHR ''/'' # r\<rparr>
    \<and> Parse (proto @ delim @ h) = Inr \<lparr>protocol = proto, host = h, port = default_port proto, path = ''/''\<rparr>"
proof -
  have "str_find '':'' h = None" "str_find ''/'' h = None"
    using assms by (simp_all add: str_find_char_absent)
  then show ?thesis
    using assms find_delim [OF assms(1)] str_find_char_append [OF assms(3), of r]
    by (simp add: Parse_def)
qed

theorem Parse_defaults_witness:
  "Parse (''https'' @ delim @ ''t'' @ CHR ''/'' # ''a'')
     = Inr \<lparr>protocol = ''https'', host = ''t'', port = 6969, path = ''/a''\<rparr>"
  using Parse_defaults [of "''https''" "''t''" "''a''"] by (simp add: default_port_def)

text \<open>
  The errors of \<open>Parse\<close>. It throws \<open>runtime_error\<close> exactly when the URL
  contains no \<open>://\<close>; the only other exceptions are those of \<open>std::stoi\<close> on a
  port, and it has no undefined behaviour.
\<close>

theorem Parse_errors:
  "(Parse s = Inl (Throw (Runtime_Error ''Invalid URL: No protocol'')) \<longleftrightarrow> str_find delim s = None)
   \<and> (\<forall>f. Parse s = Inl f \<longrightarrow> f \<in> {Throw (Runtime_Error ''Invalid URL: No protocol''),
         Throw (Invalid_Argument ''stoi''), Throw (Out_Of_Range ''stoi'')})"
  by (auto simp: Parse_def Let_def stoi_def sto_int_def res_bind_def split: option.splits prod.splits sum.splits if_splits)

theorem Parse_errors_witness:
  "Parse ''tracker'' = Inl (Throw (Runtime_Error ''Invalid URL: No protocol''))"
proof -
  have "str_find delim ''tracker'' = None"
    by code_simp
  then show ?thesis using Parse_errors [of "''tracker''"] by simp
qed

end
