(* ===== verification/Transport.thy ===== *)
theory Transport
  imports Buffer_Utils
begin

text \<open>
  The socket wrappers of source/tracker/transport.cpp. The answers of the operating system
  (\<open>getaddrinfo\<close>, \<open>socket\<close>, \<open>connect\<close>, \<open>send\<close>,
  \<open>recv\<close>) are arguments. A constructor returns, besides the object or the exception, the
  resource events it causes, so that descriptors and address lists can be accounted for: when
  the body of a derived constructor throws, C++ runs the destructor of the finished base
  \<open>Transport\<close>, which closes the socket.
\<close>

section \<open>Objects and resources\<close>

record transport =
  sock :: int
  t_host :: string
  t_port :: int
  rcv_timeout :: "int option" \<comment> \<open>the SO_RCVTIMEO of the socket, in seconds\<close>
  wire :: buffer \<comment> \<open>the bytes the kernel has accepted on this socket\<close>

datatype os_event = Addr_Alloc | Addr_Free | Opened int | Closed int

record os_answers =
  getaddrinfo_ret :: int
  socket_ret :: int
  connect_ret :: int

text \<open>\<open>~Transport\<close>.\<close>

definition transport_destroy :: "int \<Rightarrow> os_event list" where
  "transport_destroy s = (if s \<ge> 0 then [Closed s] else [])"

definition TcpClient :: "string \<Rightarrow> int \<Rightarrow> os_answers \<Rightarrow> os_event list \<times> transport res" where
  "TcpClient hst prt os =
     (if getaddrinfo_ret os \<noteq> 0 then
        (transport_destroy (- 1), Inl (Throw (Runtime_Error (''Could not resolve host: '' @ hst))))
      else if socket_ret os < 0 then
        (Addr_Alloc # transport_destroy (socket_ret os), Inl (Throw (Runtime_Error ''Could not create TCP socket'')))
      else if connect_ret os < 0 then
        ([Addr_Alloc, Opened (socket_ret os), Closed (socket_ret os)] @ transport_destroy (socket_ret os),
         Inl (Throw (Runtime_Error (''Could not connect to '' @ hst))))
      else
        ([Addr_Alloc, Opened (socket_ret os), Addr_Free],
         Inr \<lparr>sock = socket_ret os, t_host = hst, t_port = prt, rcv_timeout = None, wire = []\<rparr>))"

definition UdpClient :: "string \<Rightarrow> int \<Rightarrow> os_answers \<Rightarrow> os_event list \<times> transport res" where
  "UdpClient hst prt os =
     (if getaddrinfo_ret os \<noteq> 0 then
        (transport_destroy (- 1), Inl (Throw (Runtime_Error (''Could not resolve host: '' @ hst))))
      else if socket_ret os < 0 then
        (Addr_Alloc # transport_destroy (socket_ret os), Inl (Throw (Runtime_Error ''Could not create UDP socket'')))
      else if connect_ret os < 0 then
        ([Addr_Alloc, Opened (socket_ret os)] @ transport_destroy (socket_ret os),
         Inl (Throw (Runtime_Error ''UDP Connect failed'')))
      else
        ([Addr_Alloc, Opened (socket_ret os), Addr_Free],
         Inr \<lparr>sock = socket_ret os, t_host = hst, t_port = prt, rcv_timeout = None, wire = []\<rparr>))"

definition SetTimeout :: "int \<Rightarrow> transport \<Rightarrow> transport" where
  "SetTimeout seconds t = t\<lparr>rcv_timeout := Some seconds\<rparr>"

definition GetSocket :: "transport \<Rightarrow> int" where
  "GetSocket t = sock t"

section \<open>Sending and receiving\<close>

text \<open>
  \<open>send\<close>: from the bytes already accepted and the data offered, the number of bytes
  accepted, or a negative number. POSIX promises no more than that it is at most the length.
\<close>

type_synonym kernel = "buffer \<Rightarrow> buffer \<Rightarrow> int"

definition send_contract :: "kernel \<Rightarrow> bool" where
  "send_contract k \<longleftrightarrow> (\<forall>w d. k w d \<le> int (length d))"

definition accepts_all :: "kernel \<Rightarrow> bool" where
  "accepts_all k \<longleftrightarrow> (\<forall>w d. k w d = int (length d))"

definition send_bytes :: "string \<Rightarrow> kernel \<Rightarrow> transport \<Rightarrow> buffer \<Rightarrow> transport res" where
  "send_bytes what k t data =
     (let r = k (wire t) data
      in if r < 0 then Inl (Throw (Runtime_Error what))
         else Inr (t\<lparr>wire := wire t @ take (nat r) data\<rparr>))"

definition TcpSend :: "kernel \<Rightarrow> transport \<Rightarrow> buffer \<Rightarrow> transport res" where
  "TcpSend = send_bytes ''TCP Send failed''"

definition UdpSend :: "kernel \<Rightarrow> transport \<Rightarrow> buffer \<Rightarrow> transport res" where
  "UdpSend = send_bytes ''UDP Send failed''"

text \<open>
  \<open>recv\<close>: \<open>None\<close> for a negative result, otherwise the bytes it has stored at the start
  of the buffer. The vector of \<open>buffer_size\<close> zero bytes is then resized to the count. POSIX
  promises that they are at most \<open>buffer_size\<close>, which \<open>recv_contract\<close> says. What
  is proved of all answers holds of those within the contract; where the limit decides the result, the
  contract is a hypothesis.
\<close>

type_synonym recv_answer = "buffer option"

definition vec_resize :: "nat \<Rightarrow> 'a \<Rightarrow> 'a list \<Rightarrow> 'a list" where
  "vec_resize n x xs = take n xs @ replicate (n - length xs) x"

definition recv_contract :: "nat \<Rightarrow> recv_answer \<Rightarrow> bool" where
  "recv_contract n a \<longleftrightarrow> (case a of None \<Rightarrow> True | Some bs \<Rightarrow> length bs \<le> n)"

definition receive_bytes :: "string \<Rightarrow> nat \<Rightarrow> recv_answer \<Rightarrow> buffer res" where
  "receive_bytes what buffer_size a =
     (case a of
        None \<Rightarrow> Inl (Throw (Runtime_Error what))
      | Some bs \<Rightarrow>
          let res = bs @ drop (length bs) (replicate buffer_size 0)
          in Inr (vec_resize (length bs) 0 res))"

definition TcpReceive :: "nat \<Rightarrow> recv_answer \<Rightarrow> buffer res" where
  "TcpReceive = receive_bytes ''TCP Receive failed''"

definition UdpReceive :: "nat \<Rightarrow> recv_answer \<Rightarrow> buffer res" where
  "UdpReceive = receive_bytes ''UDP Receive failed''"

lemma receive_bytes_simps [simp]:
  "receive_bytes what n None = Inl (Throw (Runtime_Error what))"
  "receive_bytes what n (Some bs) = Inr bs"
  by (simp_all add: receive_bytes_def vec_resize_def)

lemma TcpReceive_simps [simp]:
  "TcpReceive n None = Inl (Throw (Runtime_Error ''TCP Receive failed''))"
  "TcpReceive n (Some bs) = Inr bs"
  by (simp_all add: TcpReceive_def)

lemma TcpSend_cases:
  "(k (wire t) d < 0 \<and> TcpSend k t d = Inl (Throw (Runtime_Error ''TCP Send failed'')))
   \<or> (0 \<le> k (wire t) d \<and> TcpSend k t d = Inr (t\<lparr>wire := wire t @ take (nat (k (wire t) d)) d\<rparr>))"
  by (auto simp: TcpSend_def send_bytes_def Let_def)

lemma TcpSend_accepts_all: "accepts_all k \<Longrightarrow> TcpSend k t d = Inr (t\<lparr>wire := wire t @ d\<rparr>)"
  by (simp add: TcpSend_def send_bytes_def accepts_all_def)

section \<open>Properties\<close>

definition closes :: "int \<Rightarrow> os_event list \<Rightarrow> nat" where
  "closes s es = count_list es (Closed s)"

text \<open>
  A TCP client that cannot connect closes its descriptor twice, once in the constructor and
  once more in the base class destructor; another thread may have been given the same descriptor
  in between. The UDP client closes it once.
\<close>

theorem connect_failure_closes:
  assumes "getaddrinfo_ret os = 0" and "socket_ret os = s" and "0 \<le> s" and "connect_ret os < 0"
  shows "closes s (fst (TcpClient h p os)) = 2 \<and> closes s (fst (UdpClient h p os)) = 1"
  using assms by (simp add: TcpClient_def UdpClient_def transport_destroy_def closes_def)

theorem connect_failure_closes_witness:
  "closes 5 (fst (TcpClient ''h'' 80 \<lparr>getaddrinfo_ret = 0, socket_ret = 5, connect_ret = - 1\<rparr>)) = 2"
  using connect_failure_closes [of "\<lparr>getaddrinfo_ret = 0, socket_ret = 5, connect_ret = - 1\<rparr>" 5] by simp

text \<open>
  What a constructor leaves behind. If it returns, the object owns a descriptor that is
  open, and the address list has been freed; if it throws after the name was resolved, the
  address list is leaked, for both clients.
\<close>

theorem constructor_resources:
  assumes "(es, r) = TcpClient h p os \<or> (es, r) = UdpClient h p os"
  shows "(\<forall>t. r = Inr t \<longrightarrow> 0 \<le> sock t \<and> wire t = [] \<and> es = [Addr_Alloc, Opened (sock t), Addr_Free])
    \<and> (\<forall>f. r = Inl f \<longrightarrow> Addr_Free \<notin> set es \<and> (Addr_Alloc \<in> set es \<longleftrightarrow> getaddrinfo_ret os = 0))"
  using assms by (auto simp: TcpClient_def UdpClient_def transport_destroy_def split: if_splits)

theorem constructor_resources_witness:
  "\<exists>t. snd (TcpClient ''h'' 80 \<lparr>getaddrinfo_ret = 0, socket_ret = 3, connect_ret = 0\<rparr>) = Inr t \<and> 0 \<le> sock t"
proof -
  let ?os = "\<lparr>getaddrinfo_ret = 0, socket_ret = 3, connect_ret = 0\<rparr>"
  obtain es r where e: "(es, r) = TcpClient ''h'' 80 ?os"
    by (metis surj_pair)
  moreover obtain t where "r = Inr t"
    using e by (simp add: TcpClient_def)
  ultimately show ?thesis
    using constructor_resources [of es r "''h''" 80 ?os] by (metis snd_conv)
qed

end
