(* ===== verification/Worker.thy ===== *)
theory Worker
  imports Buffer_Utils
begin

text \<open>
  source/download/Worker.cpp and include/download/Worker.h. \<open>Writer\<close> is the background
  thread that takes jobs from a queue and writes them to the output file: its threads are a step
  relation, one rule for each atomic action between a lock and an unlock. \<open>Speed\<close> holds
  the counters of the display. The output stream has what was written to it, what of that has
  certainly reached the file, its position and its fail bit.
\<close>

section \<open>The output stream\<close>

text \<open>
  \<open>ofs_content\<close> is what was written to the stream. \<open>ofs_file\<close> is the file without
  what the stream may still have in its buffer: a write may stay there until the next
  \<open>seekp\<close> or the end of the stream, which write the buffer out. The device takes every byte.
\<close>

record ofstream =
  ofs_content :: buffer
  ofs_file :: buffer
  ofs_pos :: nat
  ofs_good :: bool

definition ofs_open :: "bool \<Rightarrow> ofstream" where
  "ofs_open opened = \<lparr>ofs_content = [], ofs_file = [], ofs_pos = 0, ofs_good = opened\<rparr>"

definition seekp :: "ofstream \<Rightarrow> int \<Rightarrow> ofstream" where
  "seekp f off =
     (if \<not> ofs_good f then f else if off < 0 then f\<lparr>ofs_good := False\<rparr> else f\<lparr>ofs_file := ofs_content f, ofs_pos := nat off\<rparr>)"

text \<open>Bytes written past the end leave a gap of zeros, as in a sparse file.\<close>

definition put_bytes :: "buffer \<Rightarrow> nat \<Rightarrow> buffer \<Rightarrow> buffer" where
  "put_bytes c p bs =
     (if bs = [] then c
      else take p c @ replicate (p - length c) 0 @ bs @ drop (p + length bs) c)"

definition ofs_write :: "ofstream \<Rightarrow> buffer \<Rightarrow> ofstream" where
  "ofs_write f bs =
     (if \<not> ofs_good f then f else f\<lparr>ofs_content := put_bytes (ofs_content f) (ofs_pos f) bs, ofs_pos := ofs_pos f + length bs\<rparr>)"

text \<open>The destructor of the stream, which the destructor of \<open>Writer\<close> runs last.\<close>

definition ofs_close :: "ofstream \<Rightarrow> ofstream" where
  "ofs_close f = f\<lparr>ofs_file := ofs_content f\<rparr>"

section \<open>The writer\<close>

record job =
  job_b :: buffer
  job_offset :: int

definition do_job :: "ofstream \<Rightarrow> job \<Rightarrow> ofstream" where
  "do_job f j = ofs_write (seekp f (job_offset j)) (job_b j)"

datatype writer_phase = Not_Started | Locked | Writing job | Exited

text \<open>
  The state of \<open>Writer\<close>: its queue, stream and stop flag, where its thread is, and two
  histories, the jobs ever added and the jobs written, which the code does not have.
\<close>

record writer =
  w_q :: "job list"
  w_out :: ofstream
  w_stop :: bool
  w_phase :: writer_phase
  w_added :: "job list"
  w_done :: "job list"

definition Writer :: "bool \<Rightarrow> writer" where
  "Writer opened = \<lparr>w_q = [], w_out = ofs_open opened, w_stop = False, w_phase = Not_Started,
     w_added = [], w_done = []\<rparr>"

definition writer_start :: "writer \<Rightarrow> writer" where
  "writer_start w = w\<lparr>w_phase := Locked\<rparr>"

text \<open>\<open>add\<close> moves the buffer into the queue; the caller is left with an empty one.\<close>

definition writer_add :: "writer \<Rightarrow> buffer \<Rightarrow> int \<Rightarrow> writer \<times> buffer" where
  "writer_add w b off =
     (w\<lparr>w_q := w_q w @ [\<lparr>job_b = b, job_offset = off\<rparr>], w_added := w_added w @ [\<lparr>job_b = b, job_offset = off\<rparr>]\<rparr>, [])"

definition writer_stop :: "writer \<Rightarrow> writer" where
  "writer_stop w = w\<lparr>w_stop := True\<rparr>"

text \<open>
  The body of the thread. With the lock held it takes the next job, or leaves the loop when the
  stop flag is set and the queue is empty, or sleeps in \<open>cv.wait\<close> (no step); the write
  itself runs without the lock.
\<close>

fun thread_step :: "writer \<Rightarrow> writer option" where
  "thread_step w =
     (case w_phase w of
        Not_Started \<Rightarrow> None
      | Exited \<Rightarrow> None
      | Writing j \<Rightarrow>
          Some (w\<lparr>w_out := do_job (w_out w) j, w_phase := Locked, w_done := w_done w @ [j]\<rparr>)
      | Locked \<Rightarrow>
          (case w_q w of
             j # r \<Rightarrow> Some (w\<lparr>w_q := r, w_phase := Writing j\<rparr>)
           | [] \<Rightarrow> if w_stop w then Some (w\<lparr>w_phase := Exited\<rparr>) else None))"

declare thread_step.simps [simp del]

text \<open>
  All interleavings: the network thread starts the writer, adds jobs while the object lives, and
  destroys it once; the writer thread moves whenever it can.
\<close>

inductive writer_step :: "writer \<Rightarrow> writer \<Rightarrow> bool" where
  start: "w_phase w = Not_Started \<Longrightarrow> \<not> w_stop w \<Longrightarrow> writer_step w (writer_start w)"
| add: "\<not> w_stop w \<Longrightarrow> writer_step w (fst (writer_add w b off))"
| destroy: "\<not> w_stop w \<Longrightarrow> writer_step w (writer_stop w)"
| thread: "thread_step w = Some w' \<Longrightarrow> writer_step w w'"

inductive_cases writer_stepE: "writer_step w w'"

code_pred writer_step .

definition writer_init :: "writer \<Rightarrow> bool" where
  "writer_init w \<longleftrightarrow> (\<exists>opened. w = Writer opened)"

section \<open>Nothing is lost or reordered\<close>

definition in_flight :: "writer_phase \<Rightarrow> job list" where
  "in_flight p = (case p of Writing j \<Rightarrow> [j] | _ \<Rightarrow> [])"

definition writer_inv :: "writer \<Rightarrow> bool" where
  "writer_inv w \<longleftrightarrow>
     w_added w = w_done w @ in_flight (w_phase w) @ w_q w
     \<and> (\<exists>opened. w_out w = foldl do_job (ofs_open opened) (w_done w))
     \<and> (w_phase w = Exited \<longrightarrow> w_q w = [] \<and> w_stop w)"

lemma thread_step_inv: "writer_inv w \<Longrightarrow> thread_step w = Some w' \<Longrightarrow> writer_inv w'"
  by (auto simp: thread_step.simps writer_inv_def in_flight_def split: writer_phase.splits list.splits if_splits)

interpretation writer: invariant_of writer_init writer_step writer_inv
proof
  fix w
  assume "writer_init w"
  then show "writer_inv w"
    by (auto simp: writer_init_def writer_inv_def Writer_def in_flight_def)
next
  fix w w'
  assume "writer_inv w" and "writer_step w w'"
  from this(2,1) show "writer_inv w'"
  proof cases
    case thread
    with \<open>writer_inv w\<close> show ?thesis by (simp add: thread_step_inv)
  qed (auto simp: writer_inv_def writer_start_def writer_add_def writer_stop_def in_flight_def
      split: writer_phase.splits)
qed

lemma writer_Exited:
  "writer_inv w \<Longrightarrow> w_phase w = Exited \<Longrightarrow>
   w_q w = [] \<and> w_done w = w_added w \<and> (\<exists>opened. w_out w = foldl do_job (ofs_open opened) (w_added w))"
  by (auto simp: writer_inv_def in_flight_def)

section \<open>Shutdown\<close>

text \<open>The thread run on its own for a number of steps, or until it has none.\<close>

fun thread_run :: "nat \<Rightarrow> writer \<Rightarrow> writer" where
  "thread_run 0 w = w"
| "thread_run (Suc n) w = (case thread_step w of None \<Rightarrow> w | Some w' \<Rightarrow> thread_run n w')"

fun thread_work :: "writer \<Rightarrow> nat" where
  "thread_work w =
     (case w_phase w of
        Locked \<Rightarrow> 2 * length (w_q w) + 1 | Writing j \<Rightarrow> 2 * length (w_q w) + 2 | _ \<Rightarrow> 0)"

lemma thread_step_stopping:
  assumes "w_stop w" and "w_phase w \<noteq> Not_Started" and "w_phase w \<noteq> Exited"
  obtains w' where "thread_step w = Some w'" "w_stop w'" "w_phase w' \<noteq> Not_Started"
    "thread_work w' < thread_work w" "w_added w' = w_added w"
  using assms
  by (cases "w_phase w"; cases "w_q w") (auto simp: thread_step.simps)

lemma thread_run_exits:
  "w_stop w \<Longrightarrow> w_phase w \<noteq> Not_Started \<Longrightarrow> thread_work w \<le> n \<Longrightarrow>
   w_phase (thread_run n w) = Exited \<and> w_added (thread_run n w) = w_added w"
proof (induction n arbitrary: w)
  case 0
  then show ?case by (cases "w_phase w") auto
next
  case (Suc n)
  show ?case
  proof (cases "w_phase w = Exited")
    case True
    then show ?thesis by (simp add: thread_step.simps)
  next
    case False
    from thread_step_stopping [OF Suc.prems(1,2) False] obtain w' where
      w': "thread_step w = Some w'" "w_stop w'" "w_phase w' \<noteq> Not_Started"
        "thread_work w' < thread_work w" "w_added w' = w_added w" .
    then have "thread_work w' \<le> n"
      using Suc.prems(3) by linarith
    with Suc.IH [OF w'(2,3)] w' show ?thesis by simp
  qed
qed

lemma thread_run_inv: "writer_inv w \<Longrightarrow> writer_inv (thread_run n w)"
  by (induction n arbitrary: w) (auto simp: thread_step_inv split: option.split)

section \<open>What the file holds\<close>

definition file_range :: "buffer \<Rightarrow> nat \<Rightarrow> nat \<Rightarrow> buffer" where
  "file_range c p n = take n (drop p c)"

lemma length_put_bytes:
  "length (put_bytes c p bs) = (if bs = [] then length c else max (length c) (p + length bs))"
  by (simp add: put_bytes_def) arith

lemma file_range_put_same: "file_range (put_bytes c p bs) p (length bs) = bs"
proof -
  have "length (take p c @ replicate (p - length c) 0) = p"
    by simp
  then have "drop p ((take p c @ replicate (p - length c) 0) @ bs @ drop (p + length bs) c)
      = bs @ drop (p + length bs) c"
    by (metis append_eq_conv_conj)
  then show ?thesis
    by (simp add: file_range_def put_bytes_def)
qed

lemma nth_put_bytes_outside:
  "i < length c \<Longrightarrow> i < p \<or> p + length bs \<le> i \<Longrightarrow> put_bytes c p bs ! i = c ! i"
  by (auto simp: put_bytes_def nth_append min_def)

lemma file_range_put_other:
  assumes "q + n \<le> length c" and "q + n \<le> p \<or> p + length bs \<le> q"
  shows "file_range (put_bytes c p bs) q n = file_range c q n"
proof (rule nth_equalityI)
  have "length c \<le> length (put_bytes c p bs)"
    by (simp add: length_put_bytes)
  then show "length (file_range (put_bytes c p bs) q n) = length (file_range c q n)"
    using assms(1) by (simp add: file_range_def)
  fix i
  assume "i < length (file_range (put_bytes c p bs) q n)"
  then have "i < n" by (simp add: file_range_def)
  then show "file_range (put_bytes c p bs) q n ! i = file_range c q n ! i"
    using assms nth_put_bytes_outside [of "q + i" c p bs] \<open>length c \<le> _\<close>
    by (auto simp: file_range_def)
qed

definition jobs_disjoint :: "job \<Rightarrow> job \<Rightarrow> bool" where
  "jobs_disjoint a b \<longleftrightarrow>
     job_offset a + int (length (job_b a)) \<le> job_offset b \<or> job_offset b + int (length (job_b b)) \<le> job_offset a"

definition job_stored :: "buffer \<Rightarrow> job \<Rightarrow> bool" where
  "job_stored c j \<longleftrightarrow> file_range c (nat (job_offset j)) (length (job_b j)) = job_b j"

lemma do_job_good:
  "ofs_good f \<Longrightarrow> 0 \<le> job_offset j \<Longrightarrow>
   ofs_good (do_job f j) \<and> ofs_content (do_job f j) = put_bytes (ofs_content f) (nat (job_offset j)) (job_b j)"
  by (simp add: do_job_def ofs_write_def seekp_def)

lemma job_stored_bound:
  assumes "job_stored c j" and "job_b j \<noteq> []"
  shows "nat (job_offset j) + length (job_b j) \<le> length c"
proof -
  have "length (file_range c (nat (job_offset j)) (length (job_b j))) = length (job_b j)"
    using assms(1) unfolding job_stored_def by (rule arg_cong)
  then show ?thesis
    using assms(2) by (cases "job_b j") (auto simp: file_range_def min_def split: if_splits)
qed

lemma do_job_stored:
  assumes "ofs_good f" and "0 \<le> job_offset j" and "0 \<le> job_offset i" and "jobs_disjoint i j"
    and "job_stored (ofs_content f) i"
  shows "job_stored (ofs_content (do_job f j)) i"
proof (cases "job_b i = []")
  case True
  then show ?thesis by (simp add: job_stored_def file_range_def)
next
  case False
  let ?c = "ofs_content f" and ?p = "nat (job_offset i)" and ?n = "length (job_b i)"
  have "?p + ?n \<le> length ?c"
    using job_stored_bound assms(5) False by blast
  moreover have "?p + ?n \<le> nat (job_offset j) \<or> nat (job_offset j) + length (job_b j) \<le> ?p"
    using assms(2-4) by (auto simp: jobs_disjoint_def)
  ultimately have "file_range (put_bytes ?c (nat (job_offset j)) (job_b j)) ?p ?n = file_range ?c ?p ?n"
    by (rule file_range_put_other)
  then show ?thesis
    using assms do_job_good by (simp add: job_stored_def)
qed

text \<open>A stream that is good after a job was good before, and the offset was not negative.\<close>

lemma do_job_good_rev: "ofs_good (do_job f j) \<Longrightarrow> ofs_good f \<and> 0 \<le> job_offset j"
  by (auto simp: do_job_def ofs_write_def seekp_def split: if_splits)

lemma foldl_do_job_good_rev: "ofs_good (foldl do_job f js) \<Longrightarrow> ofs_good f \<and> (\<forall>j\<in>set js. 0 \<le> job_offset j)"
  by (induction js arbitrary: f) (auto dest: do_job_good_rev)

text \<open>A job stays stored as long as no later one touches its range.\<close>

lemma foldl_do_job_keeps:
  "job_stored (ofs_content f) i \<Longrightarrow> 0 \<le> job_offset i \<Longrightarrow> \<forall>j\<in>set js. jobs_disjoint i j \<Longrightarrow> ofs_good (foldl do_job f js) \<Longrightarrow>
   job_stored (ofs_content (foldl do_job f js)) i"
proof (induction js arbitrary: f)
  case (Cons j js)
  have "ofs_good f" "0 \<le> job_offset j"
    using foldl_do_job_good_rev [of f "j # js"] Cons.prems(4) by simp_all
  then show ?case
    using Cons.IH [of "do_job f j"] Cons.prems do_job_stored [of f j i] by simp
qed simp

lemma foldl_do_job_stored:
  assumes "\<forall>i\<in>set post. jobs_disjoint j i" and "ofs_good (foldl do_job f (pre @ j # post))"
  shows "job_stored (ofs_content (foldl do_job f (pre @ j # post))) j"
proof -
  let ?f = "foldl do_job f pre"
  have g: "ofs_good ?f" "0 \<le> job_offset j"
    using foldl_do_job_good_rev [of ?f "j # post"] assms(2) by simp_all
  then have "job_stored (ofs_content (do_job ?f j)) j"
    using do_job_good by (simp add: job_stored_def file_range_put_same)
  then show ?thesis
    using foldl_do_job_keeps [of "do_job ?f j" j post] assms g(2) by simp
qed

section \<open>The speed counters\<close>

record speed =
  bytes_downloaded :: u64
  total_bytes :: u64
  session_bytes :: u64

definition Speed :: "u64 \<Rightarrow> speed" where
  "Speed tot = \<lparr>bytes_downloaded = 0, total_bytes = tot, session_bytes = 0\<rparr>"

definition speed_add :: "speed \<Rightarrow> u64 \<Rightarrow> speed" where
  "speed_add s b = s\<lparr>bytes_downloaded := bytes_downloaded s + b, session_bytes := session_bytes s + b\<rparr>"

text \<open>\<open>session_bytes.exchange(0)\<close> of the display thread: what it shows for one period.\<close>

definition speed_exchange :: "speed \<Rightarrow> u64 \<times> speed" where
  "speed_exchange s = (session_bytes s, s\<lparr>session_bytes := 0\<rparr>)"

datatype speed_event = Add u64 | Refresh

text \<open>A history of additions and refreshes, with the values shown.\<close>

fun speed_run :: "speed_event list \<Rightarrow> speed \<Rightarrow> u64 list \<times> speed" where
  "speed_run [] s = ([], s)"
| "speed_run (Add b # es) s = speed_run es (speed_add s b)"
| "speed_run (Refresh # es) s =
     (let (shown, s') = speed_exchange s; (rest, s'') = speed_run es s' in (shown # rest, s''))"

lemma speed_run_total:
  "speed_run es s = (shown, s') \<Longrightarrow>
   sum_list shown + session_bytes s' + bytes_downloaded s = session_bytes s + bytes_downloaded s'"
proof (induction es s arbitrary: shown s' rule: speed_run.induct)
  case (2 b es s)
  then show ?case by (fastforce simp: speed_add_def algebra_simps)
next
  case (3 es s)
  then show ?case
    by (fastforce simp: speed_exchange_def algebra_simps split: prod.splits)
qed simp

lemma reachable_started: "reachable writer_init writer_step (writer_start (Writer True))"
proof -
  have "reachable writer_init writer_step (Writer True)"
    by (rule reachable_init) (auto simp: writer_init_def)
  then show ?thesis
    by (rule reachable_step) (rule start, simp_all add: Writer_def)
qed

lemma reachable_thread_run:
  "reachable writer_init writer_step w \<Longrightarrow> reachable writer_init writer_step (thread_run n w)"
  by (induction n arbitrary: w) (auto split: option.split intro: reachable_step thread)

section \<open>Properties\<close>

text \<open>
  C16: the queue is first in, first out and loses nothing. In every reachable state of the two
  threads, the jobs added so far are, in order, those written, the one being written and those
  queued, and the file is the result of the written ones in that order.
\<close>

theorem writer_fifo:
  assumes "reachable writer_init writer_step w"
  shows "w_added w = w_done w @ in_flight (w_phase w) @ w_q w
    \<and> (\<exists>opened. w_out w = foldl do_job (ofs_open opened) (w_done w))"
  using writer.inv_reachable [OF assms] by (simp add: writer_inv_def)

theorem writer_fifo_witness:
  "\<exists>w a b. reachable writer_init writer_step w \<and> a \<noteq> b \<and> w_phase w = Writing a \<and> w_q w = [b] \<and> w_added w = [a, b]"
proof -
  define v where "v = fst (writer_add (fst (writer_add (writer_start (Writer True)) [8, 9] 3)) [7] 0)"
  let ?a = "\<lparr>job_b = [8, 9], job_offset = 3\<rparr>" and ?b = "\<lparr>job_b = [7], job_offset = 0\<rparr>"
  have "reachable writer_init writer_step (fst (writer_add (writer_start (Writer True)) [8, 9] 3))"
    by (rule reachable_step [OF reachable_started]) (rule add, simp add: writer_start_def Writer_def)
  then have "reachable writer_init writer_step v"
    unfolding v_def by (rule reachable_step) (rule add, simp add: writer_add_def writer_start_def Writer_def)
  then have r: "reachable writer_init writer_step (thread_run 1 v)"
    by (rule reachable_thread_run)
  moreover have w: "w_phase (thread_run 1 v) = Writing ?a" "w_q (thread_run 1 v) = [?b]" "w_done (thread_run 1 v) = []"
    by (simp_all add: v_def writer_add_def writer_start_def Writer_def thread_step.simps)
  moreover have "w_added (thread_run 1 v) = [?a, ?b]"
    using writer_fifo [OF r] w by (simp add: in_flight_def)
  ultimately show ?thesis
    by (intro exI [of _ "thread_run 1 v"] exI [of _ ?a] exI [of _ ?b]) simp
qed

text \<open>
  C17: shutdown drains the queue. From any reachable state in which the thread runs and the
  destructor has set the stop flag, the thread leaves its loop within its remaining work, two
  steps for each queued job and two more, and by then every job ever added has been written.
\<close>

theorem writer_shutdown:
  assumes "reachable writer_init writer_step w" and "w_stop w" and "w_phase w \<noteq> Not_Started"
    and "2 * length (w_q w) + 2 \<le> n"
  shows "w_phase (thread_run n w) = Exited \<and> w_q (thread_run n w) = []
    \<and> w_done (thread_run n w) = w_added w"
proof -
  have "thread_work w \<le> n"
    using assms(4) by (cases "w_phase w") auto
  then have e: "w_phase (thread_run n w) = Exited" "w_added (thread_run n w) = w_added w"
    using thread_run_exits assms(2,3) by blast+
  have "writer_inv (thread_run n w)"
    by (rule thread_run_inv [OF writer.inv_reachable [OF assms(1)]])
  with e writer_Exited show ?thesis by metis
qed

theorem writer_shutdown_witness:
  "w_phase (thread_run 2 (writer_stop (writer_start (Writer True)))) = Exited"
proof -
  let ?w = "writer_start (Writer True)"
  have "reachable writer_init writer_step (writer_stop ?w)"
    by (rule reachable_step [OF reachable_started]) (rule destroy, simp add: writer_start_def Writer_def)
  from writer_shutdown [OF this, of 2] show ?thesis
    by (simp add: writer_stop_def writer_start_def Writer_def)
qed

text \<open>
  C18: what was added is in the file. When the thread has left its loop and the stream is
  still good, as it is unless it could not be opened or an offset was negative, then after the
  stream is closed the bytes of each job whose range no job added later touches stand in the
  file at its offset, whatever the other jobs do.
\<close>

theorem writer_file:
  assumes "reachable writer_init writer_step w" and "w_phase w = Exited" and "ofs_good (w_out w)"
    and "w_added w = before @ j # later" and "\<forall>i\<in>set later. jobs_disjoint j i"
  shows "take (length (job_b j)) (drop (nat (job_offset j)) (ofs_file (ofs_close (w_out w)))) = job_b j"
proof -
  obtain opened where out: "w_out w = foldl do_job (ofs_open opened) (w_added w)"
    using writer_Exited [OF writer.inv_reachable [OF assms(1)] assms(2)] by blast
  then have "ofs_good (foldl do_job (ofs_open opened) (before @ j # later))"
    using assms(3,4) by simp
  from foldl_do_job_stored [OF assms(5) this] show ?thesis
    unfolding out assms(4) by (simp add: job_stored_def file_range_def ofs_close_def)
qed

theorem writer_file_witness:
  "take 2 (drop 3 (ofs_file (ofs_close (w_out (thread_run 3
      (writer_stop (fst (writer_add (writer_start (Writer True)) [8, 9] 3)))))))) = [8, 9]"
proof -
  let ?a = "fst (writer_add (writer_start (Writer True)) [8, 9] 3)"
  let ?w = "thread_run 3 (writer_stop ?a)"
  have "reachable writer_init writer_step ?a"
    by (rule reachable_step [OF reachable_started]) (rule add, simp add: writer_start_def Writer_def)
  then have "reachable writer_init writer_step (writer_stop ?a)"
    by (rule reachable_step) (rule destroy, simp add: writer_add_def writer_start_def Writer_def)
  then have r: "reachable writer_init writer_step ?w"
    by (rule reachable_thread_run)
  have w: "w_phase ?w = Exited" "w_added ?w = [\<lparr>job_b = [8, 9], job_offset = 3\<rparr>]" "ofs_good (w_out ?w)"
    by (simp_all add: writer_add_def writer_start_def writer_stop_def Writer_def thread_step.simps
        eval_nat_numeral do_job_def ofs_write_def seekp_def ofs_open_def)
  show ?thesis
    using writer_file [OF r w(1,3), of "[]" "\<lparr>job_b = [8, 9], job_offset = 3\<rparr>" "[]"] w(2)
    by (simp add: numeral_2_eq_2)
qed

text \<open>
  The display loses no byte. Over any sequence of additions and refreshes, the values
  shown and the current period add up to the bytes counted, modulo \<open>2 ^ 64\<close>.
\<close>

theorem speed_conserves:
  assumes "speed_run es (Speed tot) = (shown, s)"
  shows "sum_list shown + session_bytes s = bytes_downloaded s"
  using speed_run_total [OF assms] by (simp add: Speed_def)

theorem speed_conserves_witness:
  "sum_list [7, 5] + session_bytes \<lparr>bytes_downloaded = 13, total_bytes = 9, session_bytes = 1\<rparr> = (13 :: u64)"
proof -
  have "speed_run [Add 3, Add 4, Refresh, Add 5, Refresh, Add 1] (Speed 9)
      = ([7, 5], \<lparr>bytes_downloaded = 13, total_bytes = 9, session_bytes = 1\<rparr>)"
    by (simp add: Speed_def speed_add_def speed_exchange_def)
  from speed_conserves [OF this] show ?thesis by simp
qed

end
