(* ===== verification/Downloader.thy ===== *)
theory Downloader
  imports Torrent_File Sha1_Digest Transport Worker "HOL-Library.Signed_Division"
begin

text \<open>
  \<open>Downloader\<close> of include/download/downloader.h and source/download/downloader.cpp: the
  piece in memory, the check of its hash, the hand-over to the writer and the request counter.
  \<open>OnBlockReceived\<close> is modelled with the integer types of the source: the piece index and
  the offset arrive as \<open>int\<close>, the comparisons with container sizes convert them to
  \<open>size_t\<close>. An access outside a container, a division by zero and a signed overflow are
  undefined behaviour, a value of the result. Allocation succeeds up to \<open>max_size()\<close>.
\<close>

section \<open>State\<close>

text \<open>\<open>struct Peer\<close> of include/tracker/Peer.h.\<close>

record peer =
  ip :: string
  peer_port :: u16
  peer_id :: string

definition Peer :: "string \<Rightarrow> u16 \<Rightarrow> string \<Rightarrow> peer" where
  "Peer i p pid = \<lparr>ip = i, peer_port = p, peer_id = pid\<rparr>"

record downloader =
  torrent :: torrent_file
  my_id :: string
  peers :: "peer list"
  file_writer :: writer
  spd :: speed
  next_req_index :: i32
  downloaded_bytes :: u64
  piece_buffer :: buffer
  piece_bytes_received :: i32
  current_piece_index :: i32

definition Downloader :: "torrent_file \<Rightarrow> string \<Rightarrow> peer list \<Rightarrow> bool \<Rightarrow> downloader" where
  "Downloader tf pid p_list opened =
     \<lparr>torrent = tf, my_id = pid, peers = p_list, file_writer = Writer opened,
      spd = Speed (word_of_int (tf_length tf)), next_req_index = 0, downloaded_bytes = 0,
      piece_buffer = [], piece_bytes_received = 0, current_piece_index = - 1\<rparr>"

section \<open>Operations\<close>

text \<open>C++ \<open>%\<close> on 64-bit signed integers.\<close>

definition c_rem :: "int \<Rightarrow> int \<Rightarrow> int res" where
  "c_rem a b =
     (if b = 0 then Inl (Undefined Div_By_Zero)
      else if b = - 1 \<and> a = - (2 ^ 63) then Inl (Undefined Signed_Overflow)
      else Inr (a smod b))"

text \<open>
  The length of a piece, as \<open>OnBlockReceived\<close> and \<open>RequestNextBlock\<close> both
  compute it. \<open>piece_hashes.size() - 1\<close> wraps when there are no hashes.
\<close>

definition is_last_piece :: "torrent_file \<Rightarrow> i32 \<Rightarrow> bool" where
  "is_last_piece t i \<longleftrightarrow> int_to_size i = size_of (piece_hashes t) - 1"

definition piece_len :: "torrent_file \<Rightarrow> i32 \<Rightarrow> int res" where
  "piece_len t i =
     (if is_last_piece t i then
        res_bind (c_rem (tf_length t) (piece_length t)) (\<lambda>rem.
          Inr (if rem \<noteq> 0 then rem else piece_length t))
      else Inr (piece_length t))"

text \<open>\<open>piece_buffer.assign(n, 0)\<close> with a signed count.\<close>

definition vec_assign :: "int \<Rightarrow> buffer res" where
  "vec_assign n =
     (if n < 0 then Inl (Throw (Length_Error ''cannot create std::vector larger than max_size()''))
      else Inr (replicate (nat n) 0))"

definition init_piece :: "i32 \<Rightarrow> downloader \<Rightarrow> downloader act" where
  "init_piece i d =
     (if i \<noteq> current_piece_index d then
        let d = d\<lparr>current_piece_index := i, piece_bytes_received := 0\<rparr>
        in (case piece_len (torrent d) i of
              Inl f \<Rightarrow> (Some f, d)
            | Inr n \<Rightarrow>
                (case vec_assign n of
                   Inl f \<Rightarrow> (Some f, d)
                 | Inr b \<Rightarrow> (None, d\<lparr>piece_buffer := b\<rparr>)))
      else (None, d))"

text \<open>
  The bounds check adds a sign-extended \<open>int\<close> to a \<open>size_t\<close> modulo
  \<open>2 ^ 64\<close>, so a negative offset can pass it; \<open>memcpy\<close> then writes before the
  buffer. Copying no bytes does nothing.
\<close>

definition copy_into :: "buffer \<Rightarrow> nat \<Rightarrow> buffer \<Rightarrow> buffer" where
  "copy_into c off bs = take off c @ bs @ drop (off + length bs) c"

definition copy_block :: "i32 \<Rightarrow> buffer \<Rightarrow> downloader \<Rightarrow> downloader act" where
  "copy_block off data d =
     (if int_to_size off + size_of data \<le> size_of (piece_buffer d) then
        if data = [] then (None, d)
        else if sint off < 0 then (Some (Undefined Out_Of_Bounds), d)
        else (None, d\<lparr>piece_buffer := copy_into (piece_buffer d) (nat (sint off)) data,
                      piece_bytes_received := piece_bytes_received d + word_of_nat (length data)\<rparr>)
      else (None, d))"

text \<open>
  The integrity check. \<open>file_writer.add\<close> moves \<open>piece_buffer\<close> into the queue, so
  the size added to \<open>downloaded_bytes\<close> afterwards is that of the buffer left behind.
\<close>

definition verify_piece :: "i32 \<Rightarrow> downloader \<Rightarrow> downloader act" where
  "verify_piece i d =
     (if int_to_size (piece_bytes_received d) = size_of (piece_buffer d) then
        let calculated_hash = Calculate (piece_buffer d);
            k = unat (int_to_size i)
        in if k \<ge> length (piece_hashes (torrent d)) then (Some (Undefined Out_Of_Bounds), d)
           else if calculated_hash = piece_hashes (torrent d) ! k then
             let global_offset = sint i * piece_length (torrent d)
             in if \<not> in_int_range 64 global_offset then (Some (Undefined Signed_Overflow), d)
                else (case writer_add (file_writer d) (piece_buffer d) global_offset of
                        (w, b) \<Rightarrow>
                          (None, d\<lparr>file_writer := w, piece_buffer := b,
                                   downloaded_bytes := downloaded_bytes d + size_of b\<rparr>))
           else (None, d)
      else (None, d))"

definition count_block :: "buffer \<Rightarrow> downloader \<Rightarrow> downloader" where
  "count_block data d = d\<lparr>spd := speed_add (spd d) (size_of data)\<rparr>"

definition OnBlockReceived :: "i32 \<Rightarrow> i32 \<Rightarrow> buffer \<Rightarrow> downloader \<Rightarrow> downloader act" where
  "OnBlockReceived i off data d =
     act_then (init_piece i d) (\<lambda>d.
     act_then (copy_block off data d) (\<lambda>d.
     verify_piece i (count_block data d)))"

definition GetNextPieceToRequest :: "downloader \<Rightarrow> i32 \<times> downloader" where
  "GetNextPieceToRequest d =
     (let idx = next_req_index d;
          d = d\<lparr>next_req_index := idx + 1\<rparr>
      in if int_to_size idx \<ge> size_of (piece_hashes (torrent d)) then (- 1, d) else (idx, d))"

definition IsComplete :: "downloader \<Rightarrow> bool" where
  "IsComplete d \<longleftrightarrow> sint (downloaded_bytes d) \<ge> tf_length (torrent d)"

section \<open>What the operations leave unchanged\<close>

lemma init_piece_frame [frame_simps]:
  "torrent (snd (init_piece i d)) = torrent d"
  "downloaded_bytes (snd (init_piece i d)) = downloaded_bytes d"
  "file_writer (snd (init_piece i d)) = file_writer d"
  "next_req_index (snd (init_piece i d)) = next_req_index d"
  "my_id (snd (init_piece i d)) = my_id d"
  by (simp_all add: init_piece_def Let_def split: sum.split)

lemma copy_block_frame [frame_simps]:
  "torrent (snd (copy_block off data d)) = torrent d"
  "downloaded_bytes (snd (copy_block off data d)) = downloaded_bytes d"
  "file_writer (snd (copy_block off data d)) = file_writer d"
  "next_req_index (snd (copy_block off data d)) = next_req_index d"
  "my_id (snd (copy_block off data d)) = my_id d"
  by (simp_all add: copy_block_def)

lemma count_block_frame [frame_simps, simp]:
  "torrent (count_block data d) = torrent d"
  "downloaded_bytes (count_block data d) = downloaded_bytes d"
  "file_writer (count_block data d) = file_writer d"
  "next_req_index (count_block data d) = next_req_index d"
  "my_id (count_block data d) = my_id d"
  "piece_buffer (count_block data d) = piece_buffer d"
  "piece_bytes_received (count_block data d) = piece_bytes_received d"
  "current_piece_index (count_block data d) = current_piece_index d"
  by (simp_all add: count_block_def)

lemma verify_piece_frame [frame_simps]:
  "torrent (snd (verify_piece i d)) = torrent d"
  "downloaded_bytes (snd (verify_piece i d)) = downloaded_bytes d"
  "next_req_index (snd (verify_piece i d)) = next_req_index d"
  "my_id (snd (verify_piece i d)) = my_id d"
  by (simp_all add: verify_piece_def Let_def writer_add_def size_of_def)

lemma act_then_cases:
  assumes "P (snd a)" and "\<And>s. a = (None, s) \<Longrightarrow> P (snd (f s))"
  shows "P (snd (act_then a f))"
  using assms by (cases a) (auto simp: act_then_def split: option.split)

lemma OnBlockReceived_frame [frame_simps]:
  "torrent (snd (OnBlockReceived i off data d)) = torrent d"
  "downloaded_bytes (snd (OnBlockReceived i off data d)) = downloaded_bytes d"
  "next_req_index (snd (OnBlockReceived i off data d)) = next_req_index d"
  "my_id (snd (OnBlockReceived i off data d)) = my_id d"
  using init_piece_frame [of i d] copy_block_frame [of off data] verify_piece_frame [of i]
  by (auto simp: OnBlockReceived_def act_then_def split: prod.splits option.splits)
     (metis snd_conv)+

lemma GetNextPieceToRequest_frame [frame_simps]:
  "torrent (snd (GetNextPieceToRequest d)) = torrent d"
  "downloaded_bytes (snd (GetNextPieceToRequest d)) = downloaded_bytes d"
  "file_writer (snd (GetNextPieceToRequest d)) = file_writer d"
  "my_id (snd (GetNextPieceToRequest d)) = my_id d"
  "next_req_index (snd (GetNextPieceToRequest d)) = next_req_index d + 1"
  by (simp_all add: GetNextPieceToRequest_def Let_def)

end
