(* ===== verification/Message.thy ===== *)
theory Message
  imports Torrent_File
begin

text \<open>
  The peer messages of source/download/message.cpp: the builders of the outgoing messages and
  the two readers of an incoming one. The specification is the framing of the peer protocol: a
  frame is a body behind its length in four big-endian bytes, and the first byte of a body is
  the message id.
\<close>

section \<open>Identifiers, builders and readers\<close>

definition CHOKE :: u8 where "CHOKE = 0"
definition UNCHOKE :: u8 where "UNCHOKE = 1"
definition INTERESTED :: u8 where "INTERESTED = 2"
definition NOT_INTERESTED :: u8 where "NOT_INTERESTED = 3"
definition HAVE :: u8 where "HAVE = 4"
definition BITFIELD :: u8 where "BITFIELD = 5"
definition REQUEST :: u8 where "REQUEST = 6"
definition PIECE :: u8 where "PIECE = 7"
definition CANCEL :: u8 where "CANCEL = 8"

lemmas message_ids = CHOKE_def UNCHOKE_def INTERESTED_def NOT_INTERESTED_def HAVE_def
  BITFIELD_def REQUEST_def PIECE_def CANCEL_def

definition PushInt32 :: "buffer \<Rightarrow> u32 \<Rightarrow> buffer" where
  "PushInt32 b val =
     (((b @ [ucast (drop_bit 24 val AND 0xFF)]) @ [ucast (drop_bit 16 val AND 0xFF)])
        @ [ucast (drop_bit 8 val AND 0xFF)]) @ [ucast (val AND 0xFF)]"

definition BuildHandshake :: "torrent_file \<Rightarrow> string \<Rightarrow> buffer" where
  "BuildHandshake t peer_id =
     (let hs = [] @ [19];
          hs = hs @ FromString ''BitTorrent protocol'';
          hs = hs @ replicate 8 0;
          hs = hs @ info_hash t
      in hs @ FromString peer_id)"

definition BuildKeepAlive :: buffer where
  "BuildKeepAlive = [0, 0, 0, 0]"

definition BuildChoke :: buffer where
  "BuildChoke = PushInt32 [] 1 @ [CHOKE]"

definition BuildUnchoke :: buffer where
  "BuildUnchoke = PushInt32 [] 1 @ [UNCHOKE]"

definition BuildInterested :: buffer where
  "BuildInterested = PushInt32 [] 1 @ [INTERESTED]"

definition BuildRequest :: "u32 \<Rightarrow> u32 \<Rightarrow> u32 \<Rightarrow> buffer" where
  "BuildRequest index begin len =
     PushInt32 (PushInt32 (PushInt32 (PushInt32 [] 13 @ [REQUEST]) index) begin) len"

definition ReadMessageLength :: "buffer \<Rightarrow> u32" where
  "ReadMessageLength b = (if length b < 4 then 0 else be32 (b ! 0) (b ! 1) (b ! 2) (b ! 3))"

definition ReadMessageID :: "buffer \<Rightarrow> u8" where
  "ReadMessageID b = (if length b < 5 then 0 else b ! 4)"

interpretation Push: be_codec PushInt32 ReadBE32 4
proof unfold_locales
  fix a c :: buffer and v :: u32
  show "ReadBE32 (a @ PushInt32 [] v @ c) (length a) = Inr v"
    by (simp add: ReadBE32_def PushInt32_def nth_append be32_bytes)
qed (auto simp: ReadBE32_def PushInt32_def)

declare Push.length_put [wire_simps, simp]

section \<open>Framing\<close>

definition frame :: "buffer \<Rightarrow> buffer" where
  "frame body = PushInt32 [] (word_of_nat (length body)) @ body"

lemma ReadMessageLength_Push: "ReadMessageLength (PushInt32 [] v @ rest) = v"
  by (simp add: ReadMessageLength_def PushInt32_def nth_append be32_bytes)

lemma ReadMessageLength_ReadBE32: "4 \<le> length b \<Longrightarrow> ReadBE32 b 0 = Inr (ReadMessageLength b)"
  by (simp add: ReadBE32_def ReadMessageLength_def numeral_2_eq_2)

lemma length_frame [wire_simps, simp]: "length (frame body) = 4 + length body"
  by (simp add: frame_def)

lemma ReadMessageLength_frame:
  "length body < 2 ^ 32 \<Longrightarrow> unat (ReadMessageLength (frame body @ rest)) = length body"
  by (simp add: frame_def ReadMessageLength_Push unat_of_nat)

lemma ReadMessageID_frame: "ReadMessageID (frame (mid # payload) @ rest) = mid"
  by (simp add: ReadMessageID_def frame_def PushInt32_def nth_append)

lemma drop_frame: "drop (4 + length body) (frame body @ rest) = rest"
  by (simp add: frame_def)

lemma build_frames [wire_simps]:
  "BuildKeepAlive = frame []"
  "BuildChoke = frame [CHOKE]"
  "BuildUnchoke = frame [UNCHOKE]"
  "BuildInterested = frame [INTERESTED]"
  "BuildRequest i b n = frame (REQUEST # PushInt32 (PushInt32 (PushInt32 [] i) b) n)"
  by (simp_all add: BuildKeepAlive_def BuildChoke_def BuildUnchoke_def BuildInterested_def
      BuildRequest_def frame_def PushInt32_def)

text \<open>The payload of a piece message: index, begin and the block.\<close>

definition piece_payload :: "u32 \<Rightarrow> u32 \<Rightarrow> buffer \<Rightarrow> buffer" where
  "piece_payload index begin data = PushInt32 (PushInt32 [] index) begin @ data"

lemma piece_payload_fields:
  "ReadBE32 (piece_payload i b data) 0 = Inr i"
  "ReadBE32 (piece_payload i b data) 4 = Inr b"
  "drop 8 (piece_payload i b data) = data"
  "length (piece_payload i b data) = 8 + length data"
proof -
  show "ReadBE32 (piece_payload i b data) 4 = Inr b"
    using Push.get_put_append [of "PushInt32 [] i" b data] by (simp add: piece_payload_def)
  have "piece_payload i b data = PushInt32 [] i @ PushInt32 [] b @ data"
    by (simp add: piece_payload_def Push.put_appends [of "PushInt32 [] i"])
  then show "ReadBE32 (piece_payload i b data) 0 = Inr i"
    using Push.get_put_Nil [of "[]" i "PushInt32 [] b @ data"] by simp
qed (simp_all add: piece_payload_def)

section \<open>Properties\<close>

definition is_frame :: "buffer \<Rightarrow> u8 \<Rightarrow> bool" where
  "is_frame m mid \<longleftrightarrow> (\<forall>rest. unat (ReadMessageLength (m @ rest)) + 4 = length m \<and> ReadMessageID (m @ rest) = mid)"

lemma frame_is_frame: "length payload < 2 ^ 32 - 1 \<Longrightarrow> is_frame (frame (mid # payload)) mid"
  unfolding is_frame_def using ReadMessageLength_frame [of "mid # payload"] ReadMessageID_frame by simp

text \<open>
  Every message the client builds is one well-formed frame. The length prefix counts the
  bytes after it and the id is the one the builder is named after, whatever follows in the
  stream.
\<close>

theorem built_messages_are_frames:
  "is_frame BuildChoke CHOKE \<and> is_frame BuildUnchoke UNCHOKE \<and> is_frame BuildInterested INTERESTED
   \<and> is_frame (BuildRequest index off len) REQUEST \<and> unat (ReadMessageLength (BuildKeepAlive @ rest)) = 0"
  using ReadMessageLength_frame [of "[]" rest]
  by (simp add: build_frames frame_is_frame)

text \<open>
  A request can be read back. The seventeen bytes of \<open>BuildRequest\<close> hold the piece
  index, the offset and the length at their offsets, so distinct requests are distinct messages.
\<close>

theorem BuildRequest_roundtrip:
  "length (BuildRequest index off len) = 17
   \<and> ReadBE32 (BuildRequest index off len) 5 = Inr index
   \<and> ReadBE32 (BuildRequest index off len) 9 = Inr off
   \<and> ReadBE32 (BuildRequest index off len) 13 = Inr len"
proof -
  let ?h = "PushInt32 [] 13 @ [REQUEST]"
  have "BuildRequest index off len = foldl PushInt32 ?h [index, off, len]"
    by (simp add: BuildRequest_def)
  then show ?thesis
    using Push.get_field [of ?h "[]" index "[off, len]"] Push.get_field [of ?h "[index]" off "[len]"]
      Push.get_field [of ?h "[index, off]" len "[]"]
    by simp
qed

text \<open>
  The handshake has the layout of the protocol: 68 bytes, made of the length 19, the protocol
  name, eight reserved zero bytes, the info hash and the peer id, for an info hash and a peer id
  of twenty bytes.
\<close>

theorem BuildHandshake_layout:
  assumes "length (info_hash t) = 20" and "length peer_id = 20"
  shows "length (BuildHandshake t peer_id) = 68
    \<and> hd (BuildHandshake t peer_id) = 19
    \<and> ToString (take 19 (drop 1 (BuildHandshake t peer_id))) = ''BitTorrent protocol''
    \<and> take 8 (drop 20 (BuildHandshake t peer_id)) = replicate 8 0
    \<and> take 20 (drop 28 (BuildHandshake t peer_id)) = info_hash t
    \<and> ToString (drop 48 (BuildHandshake t peer_id)) = peer_id"
proof -
  have p: "length (FromString ''BitTorrent protocol'') = 19"
    by simp
  have hs: "BuildHandshake t peer_id
      = [19] @ FromString ''BitTorrent protocol'' @ replicate 8 0 @ info_hash t @ FromString peer_id"
    by (simp add: BuildHandshake_def)
  show ?thesis
    unfolding hs using assms p by (simp del: FromString_Cons add: ToString_FromString)
qed

theorem BuildHandshake_layout_witness:
  "length (BuildHandshake (sample_torrent (\<lambda>d. replicate 20 0)) ''-CPP-CLIENT-0001-XYZ'') = 68"
  using BuildHandshake_layout [of "sample_torrent (\<lambda>d. replicate 20 0)" "''-CPP-CLIENT-0001-XYZ''"]
  by (simp add: sample_torrent_def)

end
