(* ===== verification/Tracker.thy ===== *)
theory Tracker
  imports Downloader Url Message
begin

text \<open>
  \<open>Tracker\<close> of source/tracker/tracker.cpp: the announce over HTTP and over UDP. The
  answers of the operating system, the datagrams and the two random numbers are arguments. The
  UDP exchange returns, besides the peers, the datagrams it sent and the resource events it
  caused.
\<close>

section \<open>Encoding\<close>

definition is_unreserved :: "u8 \<Rightarrow> bool" where
  "is_unreserved c \<longleftrightarrow> isalnum (char_of_byte c) \<or> c = byte_of_char CHR ''-'' \<or> c = byte_of_char CHR ''_''
     \<or> c = byte_of_char CHR ''.'' \<or> c = byte_of_char CHR ''~''"

definition UrlEncode :: "buffer \<Rightarrow> string" where
  "UrlEncode buffer =
     concat (map (\<lambda>c. if is_unreserved c then [char_of_byte c]
                      else CHR ''%'' # setw 2 CHR ''0'' (hex_to_string (unat c))) buffer)"

text \<open>The file has its own \<open>WriteBE32\<close>, with the body of the one in \<open>BufferUtils\<close>.\<close>

definition TrackerWriteBE32 :: "buffer \<Rightarrow> u32 \<Rightarrow> buffer" where
  "TrackerWriteBE32 b val =
     (((b @ [ucast (drop_bit 24 val AND 0xFF)]) @ [ucast (drop_bit 16 val AND 0xFF)])
        @ [ucast (drop_bit 8 val AND 0xFF)]) @ [ucast (val AND 0xFF)]"

definition WriteBE64 :: "buffer \<Rightarrow> u64 \<Rightarrow> buffer" where
  "WriteBE64 b val =
     TrackerWriteBE32 (TrackerWriteBE32 b (ucast (drop_bit 32 val AND 0xFFFFFFFF))) (ucast (val AND 0xFFFFFFFF))"

section \<open>Compact peer lists\<close>

definition dotted :: "u8 \<Rightarrow> u8 \<Rightarrow> u8 \<Rightarrow> u8 \<Rightarrow> string" where
  "dotted a b c d = to_string (uint a) @ ''.'' @ to_string (uint b) @ ''.'' @ to_string (uint c) @ ''.'' @ to_string (uint d)"

text \<open>\<open>for (i = 0; i + 6 <= len; i += 6)\<close>: six bytes per peer, a shorter rest is dropped.\<close>

fun compact_peers :: "buffer \<Rightarrow> peer list" where
  "compact_peers (a # b # c # d # hi # lo # rest) = Peer (dotted a b c d) (be16 hi lo) [] # compact_peers rest"
| "compact_peers _ = []"

section \<open>HTTP\<close>

definition crlf :: string where
  "crlf = [char_of_byte 13, char_of_byte 10]"

definition http_request :: "url \<Rightarrow> torrent_file \<Rightarrow> string \<Rightarrow> i32 \<Rightarrow> string" where
  "http_request url tf pid prt =
     ''GET '' @ path url
     @ ''?info_hash='' @ UrlEncode (info_hash tf)
     @ ''&peer_id='' @ pid
     @ ''&port='' @ to_string (sint prt)
     @ ''&uploaded=0''
     @ ''&downloaded=0''
     @ ''&compact=1''
     @ ''&left='' @ to_string (tf_length tf)
     @ '' HTTP/1.1'' @ crlf
     @ ''Host: '' @ host url @ crlf
     @ ''User-Agent: BitTorrent/1.0'' @ crlf
     @ ''Connection: Close'' @ crlf @ crlf"

text \<open>The body of the \<open>try\<close> block; every exception in it yields no peers.\<close>

definition body_peers :: "string \<Rightarrow> peer list res" where
  "body_peers body =
     res_bind (Decode (FromString body)) (\<lambda>root.
     if IsDict root then
       res_bind (GetDict root) (\<lambda>d.
       if map_count d ''peers'' \<noteq> 0 then
         res_bind (map_at d ''peers'') (\<lambda>peersNode.
         if IsString peersNode then
           res_bind (NodeToString peersNode) (\<lambda>bin. Inr (compact_peers (FromString bin)))
         else Inr [])
       else Inr [])
     else Inr [])"

definition http_peers :: "string \<Rightarrow> peer list res" where
  "http_peers res_str =
     (case str_find (crlf @ crlf) res_str of
        None \<Rightarrow> Inr []
      | Some header_end \<Rightarrow>
          (case body_peers (drop (header_end + 4) res_str) of
             Inl (Throw e) \<Rightarrow> Inr []
           | r \<Rightarrow> r))"

definition GetPeersHTTP ::
  "os_answers \<Rightarrow> kernel \<Rightarrow> recv_answer \<Rightarrow> url \<Rightarrow> torrent_file \<Rightarrow> string \<Rightarrow> i32 \<Rightarrow> peer list res" where
  "GetPeersHTTP os k a url tf pid prt =
     res_bind (snd (TcpClient (host url) (port url) os)) (\<lambda>client.
     res_bind (TcpSend k client (FromString (http_request url tf pid prt))) (\<lambda>client.
     res_bind (TcpReceive 8192 a) (\<lambda>response.
     http_peers (ToString response))))"

section \<open>UDP\<close>

record udp_answers =
  u_gai :: int
  u_sock :: int
  u_send1 :: int
  u_recv1 :: recv_answer
  u_send2 :: int
  u_recv2 :: recv_answer
  u_transaction :: u32
  u_key :: u32

record udp_result =
  datagrams :: "buffer list"
  u_events :: "os_event list"
  u_peers :: "peer list"

text \<open>
  \<open>recvfrom\<close> of one datagram into the first bytes of \<open>recv_buf\<close>. A datagram that is
  longer than the 1024 bytes asked for is cut, and the rest of it is lost; a negative result is a
  length of -1.
\<close>

definition recv_size :: nat where
  "recv_size = 1024"

definition recv_len :: "recv_answer \<Rightarrow> int" where
  "recv_len a = (case a of None \<Rightarrow> - 1 | Some bs \<Rightarrow> int (length (take recv_size bs)))"

definition recv_into :: "buffer \<Rightarrow> recv_answer \<Rightarrow> buffer" where
  "recv_into b a = (case a of None \<Rightarrow> b | Some bs \<Rightarrow> take recv_size bs @ drop (length bs) b)"

definition connect_request :: "u32 \<Rightarrow> buffer" where
  "connect_request transaction_id =
     TrackerWriteBE32 (TrackerWriteBE32 (WriteBE64 [] 0x41727101980) 0) transaction_id"

definition connection_id_of :: "buffer \<Rightarrow> u64" where
  "connection_id_of recv_buf = foldl (\<lambda>cid i. push_bit 8 cid OR ucast (recv_buf ! (8 + i))) 0 [0..<8]"

definition announce_request :: "u64 \<Rightarrow> u32 \<Rightarrow> u32 \<Rightarrow> torrent_file \<Rightarrow> string \<Rightarrow> i32 \<Rightarrow> buffer" where
  "announce_request cid transaction_id key tf pid prt =
     (let b = WriteBE64 [] cid;
          b = TrackerWriteBE32 b 1;
          b = TrackerWriteBE32 b transaction_id;
          b = b @ info_hash tf;
          b = b @ FromString pid;
          b = WriteBE64 b 0;
          b = WriteBE64 b (word_of_int (tf_length tf));
          b = WriteBE64 b 0;
          b = TrackerWriteBE32 b 0;
          b = TrackerWriteBE32 b 0;
          b = TrackerWriteBE32 b key;
          b = TrackerWriteBE32 b (- 1)
      in (b @ [ucast (signed_drop_bit 8 prt AND 0xFF)]) @ [ucast (prt AND 0xFF)])"

text \<open>The exchange between the creation of the socket and its normal end.\<close>

definition udp_fail :: "buffer list \<Rightarrow> int \<Rightarrow> udp_result" where
  "udp_fail ds s = \<lparr>datagrams = ds, u_events = [Addr_Alloc, Opened s, Closed s], u_peers = []\<rparr>"

definition udp_exchange :: "udp_answers \<Rightarrow> torrent_file \<Rightarrow> string \<Rightarrow> i32 \<Rightarrow> udp_result" where
  "udp_exchange os tf pid prt =
     (let s = u_sock os;
          req1 = connect_request (u_transaction os)
      in if u_send1 os < 0 then udp_fail [] s
         else
           let buf = recv_into (replicate recv_size 0) (u_recv1 os)
           in if recv_len (u_recv1 os) < 16 then udp_fail [req1] s
              else if be32 (buf ! 0) (buf ! 1) (buf ! 2) (buf ! 3) \<noteq> 0
                \<or> be32 (buf ! 4) (buf ! 5) (buf ! 6) (buf ! 7) \<noteq> u_transaction os then udp_fail [req1] s
              else
                let req2 = announce_request (connection_id_of buf) (u_transaction os) (u_key os) tf pid prt
                in if u_send2 os < 0 then udp_fail [req1] s
                   else
                     let buf = recv_into buf (u_recv2 os);
                         len = recv_len (u_recv2 os)
                     in if len < 20 then udp_fail [req1, req2] s
                        else \<lparr>datagrams = [req1, req2],
                              u_events = [Addr_Alloc, Opened s, Addr_Free, Closed s],
                              u_peers = compact_peers (drop 20 (take (nat len) buf))\<rparr>)"

definition GetPeersUDP :: "udp_answers \<Rightarrow> torrent_file \<Rightarrow> string \<Rightarrow> i32 \<Rightarrow> udp_result" where
  "GetPeersUDP os tf pid prt =
     (if u_gai os \<noteq> 0 then \<lparr>datagrams = [], u_events = [], u_peers = []\<rparr>
      else if u_sock os < 0 then \<lparr>datagrams = [], u_events = [Addr_Alloc, Addr_Free], u_peers = []\<rparr>
      else udp_exchange os tf pid prt)"

section \<open>The announce\<close>

definition GetPeers ::
  "os_answers \<Rightarrow> kernel \<Rightarrow> recv_answer \<Rightarrow> udp_answers \<Rightarrow> torrent_file \<Rightarrow> string \<Rightarrow> i32 \<Rightarrow> peer list res" where
  "GetPeers os k a udp_os tf pid prt =
     res_bind (Url.Parse (announce tf)) (\<lambda>url.
     if protocol url = ''http'' then GetPeersHTTP os k a url tf pid prt
     else if protocol url = ''udp'' then Inr (u_peers (GetPeersUDP udp_os tf pid prt))
     else rt_error (''Unsupported Tracker Protocol: '' @ protocol url))"

end
