(* ===== verification/Tracker_Props.thy ===== *)
theory Tracker_Props
  imports Tracker
begin

text \<open>
  What the announce guarantees: the URL encoding can be undone, a compact list of peers is read
  back from both kinds of response, the announce datagram has the protocol's layout and repeats
  the connection id; and what it does not check.
\<close>

section \<open>URL encoding\<close>

definition hex_val :: "char \<Rightarrow> nat" where
  "hex_val c = (if isdigit c then char_code c - 48 else char_code c - 87)"

text \<open>The decoder of RFC 3986 for lower-case digits.\<close>

fun url_decode :: "string \<Rightarrow> buffer" where
  "url_decode [] = []"
| "url_decode (c # s) =
     (if c = CHR ''%'' then
        (case s of h # l # r \<Rightarrow> word_of_nat (16 * hex_val h + hex_val l) # url_decode r | _ \<Rightarrow> [])
      else byte_of_char c # url_decode s)"

lemma hex_val_digit: "d < 16 \<Longrightarrow> hex_val (hex_digit d) = d"
  by (auto simp: hex_val_def hex_digit_def isdigit_def char_code_def)

lemma setw_hex_byte:
  assumes "n < 256"
  shows "setw 2 CHR ''0'' (hex_to_string n) = [hex_digit (n div 16), hex_digit (n mod 16)]"
proof -
  have z: "CHR ''0'' = hex_digit 0"
    by (simp add: hex_digit_def char_of_def bit_iff_odd_drop_bit drop_bit_nat_def)
  show ?thesis
    using assms z by (auto simp: setw_def hex_to_string.simps [of n] hex_to_string.simps [of "n div 16"] numeral_2_eq_2)
qed

lemma unreserved_not_percent: "is_unreserved c \<Longrightarrow> char_of_byte c \<noteq> CHR ''%''"
  by (auto simp: is_unreserved_def isalnum_def isalpha_def isdigit_def char_code_def)

lemma url_decode_encode: "url_decode (UrlEncode b) = b"
proof (induction b)
  case (Cons c b)
  have "unat c < 256"
    using unsigned_less [of c, where ?'a = nat] by simp
  then have "(word_of_nat (16 * hex_val (hex_digit (unat c div 16)) + hex_val (hex_digit (unat c mod 16))) :: u8) = c"
    "unat c div 16 < 16"
    by (simp_all add: hex_val_digit)
  then show ?case
    using Cons \<open>unat c < 256\<close> unreserved_not_percent [of c]
    by (simp add: UrlEncode_def setw_hex_byte)
qed (simp add: UrlEncode_def)

section \<open>Compact peer lists\<close>

type_synonym endpoint = "u8 \<times> u8 \<times> u8 \<times> u8 \<times> u16"

fun compact_peer :: "endpoint \<Rightarrow> buffer" where
  "compact_peer (a, b, c, d, p) = [a, b, c, d, ucast (drop_bit 8 p), ucast p]"

fun peer_of :: "endpoint \<Rightarrow> peer" where
  "peer_of (a, b, c, d, p) = Peer (dotted a b c d) p []"

lemma compact_peers_short: "length tail < 6 \<Longrightarrow> compact_peers tail = []"
  by (induction tail rule: compact_peers.induct) auto

lemma compact_peers_all:
  "length tail < 6 \<Longrightarrow> compact_peers (concat (map compact_peer ps) @ tail) = map peer_of ps"
  by (induction ps) (auto simp: compact_peers_short be16_bytes)

lemma compact_peers_take:
  "length tail < 6 \<Longrightarrow>
   compact_peers (take k (concat (map compact_peer ps) @ tail)) = map peer_of (take (k div 6) ps)"
proof (induction ps arbitrary: k)
  case Nil
  then show ?case by (simp add: compact_peers_short)
next
  case (Cons p ps)
  show ?case
  proof (cases "k < 6")
    case True
    then show ?thesis by (simp add: compact_peers_short)
  next
    case False
    then have k: "k = Suc (Suc (Suc (Suc (Suc (Suc (k - 6))))))"
      by simp
    then obtain j where k: "k = Suc (Suc (Suc (Suc (Suc (Suc j)))))"
      by blast
    then have "k div 6 = Suc (j div 6)"
      by simp
    then show ?thesis
      using Cons k by (cases p) (simp add: be16_bytes)
  qed
qed

section \<open>The HTTP response\<close>

lemma ToString_take: "ToString (take n b) = take n (ToString b)"
  by (simp add: ToString_def take_map)

lemma length_crlf_crlf: "length (crlf @ crlf) = 4"
  by (simp add: crlf_def)

lemma http_peers_body:
  assumes "\<forall>q<length hdr. take 4 (drop q (hdr @ crlf @ crlf)) \<noteq> crlf @ crlf"
  shows "http_peers (hdr @ crlf @ crlf @ body) = (case body_peers body of Inl (Throw e) \<Rightarrow> Inr [] | r \<Rightarrow> r)"
proof -
  have "take 4 (drop q (hdr @ crlf @ crlf @ body)) = take 4 (drop q (hdr @ crlf @ crlf))" if "q < length hdr" for q
    using that length_crlf_crlf by simp
  then have "\<forall>q<length hdr. take 4 (drop q (hdr @ crlf @ crlf @ body)) \<noteq> crlf @ crlf"
    using assms by metis
  then have f: "str_find (crlf @ crlf) (hdr @ crlf @ crlf @ body) = Some (length hdr)"
    using str_find_append [of hdr "crlf @ crlf" body] unfolding length_crlf_crlf by (simp only: append_assoc)
  have d: "drop (length hdr + 4) (hdr @ crlf @ crlf @ body) = body"
    using length_crlf_crlf by simp
  show ?thesis
    unfolding http_peers_def f option.case d by simp
qed

lemma http_peers_no_body:
  assumes "\<forall>q<length hdr. take 4 (drop q (hdr @ crlf @ crlf)) \<noteq> crlf @ crlf" and "n < length hdr + 4"
  shows "http_peers (take n (hdr @ crlf @ crlf)) = Inr []"
proof -
  have "crlf @ crlf \<noteq> []"
    using length_crlf_crlf by auto
  then have "str_find (crlf @ crlf) (take n (hdr @ crlf @ crlf)) = None"
    using str_find_take [of "length hdr" "crlf @ crlf" "hdr @ crlf @ crlf" n] assms
    unfolding length_crlf_crlf by blast
  then show ?thesis
    by (simp add: http_peers_def)
qed

lemma body_peers_list:
  assumes "wf_bnode (BDict m)" and "map_of m ''peers'' = Some (BString (concat (map compact_peer ps) @ tail))"
    and "length tail < 6"
  shows "body_peers (ToString (Encode (BDict m) @ rest)) = Inr (map peer_of ps)"
  using assms compact_peers_all [OF assms(3), of ps] Decode_Encode_append [OF assms(1), of rest]
  by (simp add: body_peers_def map_count_def map_at_def NodeToString_def del: Encode.simps)

lemma body_peers_cut:
  assumes "wf_bnode n" and "k < length (Encode n)"
  shows "\<exists>e. body_peers (ToString (take k (Encode n))) = Inl (Throw e)"
  using Decode_cut [OF assms] by (auto simp: body_peers_def)

text \<open>What one \<open>recv\<close> makes of a response it may have cut.\<close>

lemma http_peers_received:
  assumes "\<forall>q<length hdr. take 4 (drop q (hdr @ crlf @ crlf)) \<noteq> crlf @ crlf"
    and "wf_bnode (BDict m)" and "map_of m ''peers'' = Some (BString (concat (map compact_peer ps) @ tail))"
    and "length tail < 6" and "got @ later = FromString (hdr @ crlf @ crlf) @ Encode (BDict m) @ rest"
  shows "http_peers (ToString got)
    = Inr (if length hdr + 4 + length (Encode (BDict m)) \<le> length got then map peer_of ps else [])"
proof -
  let ?e = "Encode (BDict m)" and ?n = "length got"
  define h where "h = hdr @ crlf @ crlf"
  have g: "got = take ?n (FromString h @ ?e @ rest)"
    using arg_cong [OF assms(5), of "take ?n"] unfolding h_def by simp
  have lh: "length h = length hdr + 4"
    by (simp add: crlf_def h_def)
  have t: "got = take ?n (FromString h) @ take (?n - length h) (?e @ rest)"
    using g by (metis take_append length_FromString)
  consider "?n < length hdr + 4" | "length hdr + 4 \<le> ?n" "?n < length hdr + 4 + length ?e"
    | "length hdr + 4 + length ?e \<le> ?n"
    by linarith
  then show ?thesis
  proof cases
    case 1
    then have "got = take ?n (FromString h)"
      using g lh by (metis length_FromString less_imp_le take_append take_all_iff diff_is_0_eq' append_Nil2 take0)
    then have "ToString got = take ?n h"
      by (metis ToString_take ToString_FromString)
    then show ?thesis
      using http_peers_no_body [OF assms(1) 1] 1 by (simp add: h_def)
  next
    case 2
    let ?k = "?n - length h"
    have "got = FromString h @ take ?k ?e"
      using t 2 by (simp add: lh del: Encode.simps)
    from arg_cong [OF this, of ToString] have "ToString got = hdr @ crlf @ crlf @ ToString (take ?k ?e)"
      by (simp add: h_def del: Encode.simps)
    moreover have "?k < length ?e"
      using 2 lh by linarith
    then obtain e where "body_peers (ToString (take ?k ?e)) = Inl (Throw e)"
      using body_peers_cut [OF assms(2)] by blast
    ultimately show ?thesis
      using http_peers_body [OF assms(1), of "ToString (take ?k ?e)"] 2(2) by (simp del: Encode.simps)
  next
    case 3
    let ?k = "?n - length h - length ?e"
    have "got = FromString h @ ?e @ take ?k rest"
      using t 3 by (simp add: lh del: Encode.simps)
    from arg_cong [OF this, of ToString] have "ToString got = hdr @ crlf @ crlf @ ToString (?e @ take ?k rest)"
      by (simp add: h_def del: Encode.simps)
    then show ?thesis
      using http_peers_body [OF assms(1)] body_peers_list [OF assms(2-4), of "take ?k rest"] 3
      by (simp del: Encode.simps)
  qed
qed

section \<open>The UDP datagrams\<close>

lemma TrackerWriteBE32_Push: "TrackerWriteBE32 = PushInt32"
  by (intro ext) (simp add: TrackerWriteBE32_def PushInt32_def)

lemma WriteBE64_appends: "WriteBE64 b v = b @ WriteBE64 [] v"
  by (simp add: WriteBE64_def TrackerWriteBE32_def)

lemma length_WriteBE64 [wire_simps, simp]: "length (WriteBE64 b v) = length b + 8"
  by (simp add: WriteBE64_def TrackerWriteBE32_Push)

definition be64 :: "u8 \<Rightarrow> u8 \<Rightarrow> u8 \<Rightarrow> u8 \<Rightarrow> u8 \<Rightarrow> u8 \<Rightarrow> u8 \<Rightarrow> u8 \<Rightarrow> u64" where
  "be64 a b c d e f g h = foldl (\<lambda>cid x. push_bit 8 cid OR ucast x) 0 [a, b, c, d, e, f, g, h]"

text \<open>The connection id is written back byte for byte.\<close>

lemma ucast_and_32 [simp]: "(ucast (x AND 0xFFFFFFFF :: u64) :: u32) = ucast x"
proof -
  have m: "(0xFFFFFFFF :: u64) = mask 32"
    by (simp add: mask_eq_exp_minus_1)
  show ?thesis
    unfolding m by (rule bit_word_eqI) (auto simp: bit_simps dest: bit_imp_le_length)
qed

lemma WriteBE64_be64: "WriteBE64 [] (be64 a b c d e f g h) = [a, b, c, d, e, f, g, h]"
  by (auto simp: WriteBE64_def TrackerWriteBE32_def be64_def intro!: bit_word_eqI) (auto simp: bit_simps dest: bit_imp_le_length)


lemma connection_id_be64:
  "connection_id_of b = be64 (b ! 8) (b ! 9) (b ! 10) (b ! 11) (b ! 12) (b ! 13) (b ! 14) (b ! 15)"
  by (simp add: connection_id_of_def be64_def upt_rec)

lemma connection_id_echo:
  assumes "length pre = 8" and "length cid = 8"
  shows "WriteBE64 [] (connection_id_of (pre @ cid @ rest)) = cid"
proof -
  obtain a b c d e f g h where "cid = [a, b, c, d, e, f, g, h]"
    using assms(2) by (auto simp: length_Suc_conv numeral_eq_Suc)
  then show ?thesis
    using assms(1) by (simp add: connection_id_be64 WriteBE64_be64 nth_append)
qed

text \<open>The announce datagram as the sequence of its fields.\<close>

lemma announce_request_fields:
  "announce_request cid tid key tf pid prt =
     WriteBE64 [] cid @ PushInt32 [] 1 @ PushInt32 [] tid @ info_hash tf @ FromString pid
     @ WriteBE64 [] 0 @ WriteBE64 [] (word_of_int (tf_length tf)) @ WriteBE64 [] 0
     @ PushInt32 [] 0 @ PushInt32 [] 0 @ PushInt32 [] key @ PushInt32 [] (- 1)
     @ [ucast (signed_drop_bit 8 prt), ucast prt]"
  by (simp add: announce_request_def TrackerWriteBE32_Push Push.put_appends [of "_ @ _"]
      WriteBE64_appends [of "_ @ _"] Push.put_appends [of "WriteBE64 _ _"] Let_def WriteBE64_appends [of "PushInt32 _ _"])

lemma be16_port: "be16 (ucast (signed_drop_bit 8 prt)) (ucast prt) = (ucast (prt :: i32) :: u16)"
proof (rule bit_word_eqI)
  fix n
  assume "n < LENGTH(16)"
  then consider "n < 8" | "8 \<le> n \<and> n < 16"
    by force
  then show "bit (be16 (ucast (signed_drop_bit 8 prt)) (ucast prt)) n = bit (ucast prt :: u16) n"
    unfolding be16_def by cases (auto simp: bit_simps)
qed

definition connect_response :: "u32 \<Rightarrow> buffer \<Rightarrow> buffer" where
  "connect_response tid cid = PushInt32 (PushInt32 [] 0) tid @ cid"

lemma connect_response_header:
  assumes "buf = connect_response tid cid @ rest"
  shows "be32 (buf ! 0) (buf ! 1) (buf ! 2) (buf ! 3) = 0" "be32 (buf ! 4) (buf ! 5) (buf ! 6) (buf ! 7) = tid"
  unfolding assms by (simp_all add: connect_response_def PushInt32_def nth_append be32_bytes) (simp add: be32_def)

section \<open>Properties\<close>

text \<open>
  C37: percent encoding loses nothing. Decoding what \<open>UrlEncode\<close> writes gives back the
  bytes, whatever they are, so the info hash reaches the tracker intact.
\<close>

theorem UrlEncode_decodes: "url_decode (UrlEncode b) = b"
  by (rule url_decode_encode)

text \<open>
  C38: the peers of an HTTP response are read, as far as the one call of \<open>recv\<close> has them. Let
  the client be connected and its request be accepted, and let the tracker's response be a header, a
  blank line, a bencoded dictionary with a compact list under \<open>peers\<close> and anything behind it.
  \<open>recv\<close> stores some beginning of it of at most 8192 bytes. If that reaches the end of the
  dictionary, \<open>GetPeersHTTP\<close> returns exactly the peers of the list, in order; if it does not,
  and always when the dictionary ends behind byte 8192, it returns no peer at all.
\<close>

theorem http_announce_peers:
  assumes "snd (TcpClient (host url) (port url) os) = Inr t" and "accepts_all k"
    and "\<forall>q<length hdr. take 4 (drop q (hdr @ crlf @ crlf)) \<noteq> crlf @ crlf"
    and "wf_bnode (BDict m)" and "map_of m ''peers'' = Some (BString (concat (map compact_peer ps) @ tail))"
    and "length tail < 6" and "got @ later = FromString (hdr @ crlf @ crlf) @ Encode (BDict m) @ rest"
    and "recv_contract 8192 (Some got)"
  shows "GetPeersHTTP os k (Some got) url tf pid prt
      = Inr (if length hdr + 4 + length (Encode (BDict m)) \<le> length got then map peer_of ps else [])
    \<and> (8192 < length hdr + 4 + length (Encode (BDict m)) \<longrightarrow> GetPeersHTTP os k (Some got) url tf pid prt = Inr [])"
proof -
  have "GetPeersHTTP os k (Some got) url tf pid prt = http_peers (ToString got)"
    using assms(1,2) by (simp add: GetPeersHTTP_def TcpSend_accepts_all)
  then show ?thesis
    using http_peers_received [OF assms(3-7)] assms(8) by (auto simp: recv_contract_def simp del: Encode.simps)
qed

definition sample_udp :: udp_answers where
  "sample_udp = \<lparr>u_gai = 0, u_sock = 7, u_send1 = 16, u_recv1 = Some (connect_response 5 [1, 2, 3, 4, 5, 6, 7, 8]),
     u_send2 = 98, u_recv2 = Some (replicate 20 9 @ [10, 0, 0, 1, 26, 225] @ [3]), u_transaction = 5, u_key = 6\<rparr>"

lemma sample_compact: "compact_peer (10, 0, 0, 1, 6881) = [10, 0, 0, 1, 26, 225]"
  by simp

lemma crlf_chars: "crlf = [CHR 0x0D, CHR 0x0A]"
  by code_simp

lemma digit_chars: "digit_char 0 = CHR ''0''" "digit_char (Suc 0) = CHR ''1''"
  by code_simp+

lemma sample_peer: "map peer_of [(10, 0, 0, 1, 6881)] = [Peer ''10.0.0.1'' 6881 []]"
  by (simp add: dotted_def to_string_def nat_to_string.simps digit_chars)

theorem http_announce_peers_witness:
  "GetPeersHTTP \<lparr>getaddrinfo_ret = 0, socket_ret = 3, connect_ret = 0\<rparr> (\<lambda>w d. int (length d))
     (Some (FromString (''OK'' @ crlf @ crlf) @ Encode (BDict [(''peers'', BString [10, 0, 0, 1, 26, 225, 3])]) @ []))
     \<lparr>protocol = ''http'', host = ''t'', port = 80, path = ''/a''\<rparr> (sample_torrent (\<lambda>d. replicate 20 0)) ''me'' 6881
   = Inr [Peer ''10.0.0.1'' 6881 []]"
  (is "GetPeersHTTP ?os ?k (Some (FromString (?hdr @ _) @ Encode (BDict ?m) @ _)) ?url _ _ _ = _")
proof -
  let ?got = "FromString (?hdr @ crlf @ crlf) @ Encode (BDict ?m) @ []"
  have "snd (TcpClient (host ?url) (port ?url) ?os) = Inr \<lparr>sock = 3, t_host = ''t'', t_port = 80, rcv_timeout = None, wire = []\<rparr>"
    by (simp add: TcpClient_def)
  moreover have "accepts_all ?k"
    by (simp add: accepts_all_def)
  moreover have "\<forall>q<length ?hdr. take 4 (drop q (?hdr @ crlf @ crlf)) \<noteq> crlf @ crlf"
    by (auto simp: crlf_chars less_Suc_eq numeral_2_eq_2)
  moreover have "wf_bnode (BDict ?m)"
    by simp
  moreover have "map_of ?m ''peers'' = Some (BString (concat (map compact_peer [(10, 0, 0, 1, 6881)]) @ [3]))"
    by (simp add: sample_compact)
  moreover have "length [3 :: u8] < 6"
    by simp
  moreover have "?got @ [] = ?got"
    by simp
  moreover have "recv_contract 8192 (Some ?got)"
    by (simp add: recv_contract_def crlf_def enc_string_def to_string_def nat_to_string.simps Encode.simps)
  ultimately have "GetPeersHTTP ?os ?k (Some ?got) ?url (sample_torrent (\<lambda>d. replicate 20 0)) ''me'' 6881
      = Inr (if length ?hdr + 4 + length (Encode (BDict ?m)) \<le> length ?got then map peer_of [(10, 0, 0, 1, 6881)] else [])"
    by (rule http_announce_peers [THEN conjunct1])
  moreover have "length ?hdr + 4 + length (Encode (BDict ?m)) \<le> length ?got"
    using length_crlf_crlf by (simp del: Encode.simps)
  ultimately show ?thesis
    by (simp only: sample_peer if_True)
qed

text \<open>
  The announce datagram has the layout of the UDP tracker protocol: 98 bytes with the
  connection id, action 1, the transaction id, the info hash, the peer id, the three counters with
  the torrent's length in the middle, the key and the port at their offsets.
\<close>

theorem announce_request_layout:
  assumes "length (info_hash tf) = 20" and "length pid = 20"
  shows "length (announce_request cid tid key tf pid prt) = 98
    \<and> take 8 (announce_request cid tid key tf pid prt) = WriteBE64 [] cid
    \<and> take 8 (drop 8 (announce_request cid tid key tf pid prt)) = PushInt32 [] 1 @ PushInt32 [] tid
    \<and> take 20 (drop 16 (announce_request cid tid key tf pid prt)) = info_hash tf
    \<and> ToString (take 20 (drop 36 (announce_request cid tid key tf pid prt))) = pid
    \<and> take 8 (drop 64 (announce_request cid tid key tf pid prt)) = WriteBE64 [] (word_of_int (tf_length tf))
    \<and> take 4 (drop 88 (announce_request cid tid key tf pid prt)) = PushInt32 [] key
    \<and> be16 (announce_request cid tid key tf pid prt ! 96) (announce_request cid tid key tf pid prt ! 97) = ucast prt"
  using assms by (simp add: announce_request_fields nth_append be16_port)

theorem announce_request_layout_witness:
  "length (announce_request 1 2 3 (sample_torrent (\<lambda>d. replicate 20 0)) ''-CPP-CLIENT-0001-XYZ'' 6881) = 98"
  using announce_request_layout [of "sample_torrent (\<lambda>d. replicate 20 0)" "''-CPP-CLIENT-0001-XYZ''" 1 2 3 6881]
  by (simp add: sample_torrent_def)

lemma recv_taken: "take (nat (recv_len (Some r))) (recv_into b (Some r)) = take recv_size r"
  by (simp add: recv_len_def recv_into_def min_def)

lemma udp_exchange_peers:
  assumes "u_gai os = 0" and "0 \<le> u_sock os" and "0 \<le> u_send1 os" and "0 \<le> u_send2 os"
    and "u_recv1 os = Some (connect_response (u_transaction os) cid)" and "length cid = 8"
    and "u_recv2 os = Some (hdr @ concat (map compact_peer ps) @ tail)" and "length hdr = 20" and "length tail < 6"
  shows "u_peers (GetPeersUDP os tf pid prt) = map peer_of (take 167 ps)
    \<and> (\<exists>req. datagrams (GetPeersUDP os tf pid prt) = [connect_request (u_transaction os), req] \<and> take 8 req = cid)
    \<and> u_events (GetPeersUDP os tf pid prt) = [Addr_Alloc, Opened (u_sock os), Addr_Free, Closed (u_sock os)]"
proof -
  let ?rest = "drop 16 (replicate recv_size (0 :: u8))"
  let ?buf = "connect_response (u_transaction os) cid @ ?rest"
  have l: "length (connect_response (u_transaction os) cid) = 16"
    using assms(6) by (simp add: connect_response_def)
  have r1: "recv_into (replicate recv_size 0) (u_recv1 os) = ?buf" "recv_len (u_recv1 os) = 16"
    using l assms(5) by (simp_all add: recv_into_def recv_len_def recv_size_def del: drop_replicate)
  have e: "WriteBE64 [] (connection_id_of ?buf) = cid"
    using connection_id_echo [of "PushInt32 (PushInt32 [] 0) (u_transaction os)" cid ?rest] assms(6)
    by (simp add: connect_response_def)
  have "drop 20 (take (nat (recv_len (u_recv2 os))) (recv_into ?buf (u_recv2 os)))
      = take 1004 (concat (map compact_peer ps) @ tail)"
    unfolding assms(7) recv_taken using assms(8) by (simp add: recv_size_def)
  then have p: "compact_peers (drop 20 (take (nat (recv_len (u_recv2 os))) (recv_into ?buf (u_recv2 os))))
      = map peer_of (take 167 ps)" "20 \<le> recv_len (u_recv2 os)"
    using compact_peers_take [OF assms(9), of 1004 ps] assms(7,8) by (simp_all add: recv_len_def recv_size_def)
  show ?thesis
    using assms(1-4,6) r1 p e connect_response_header [of ?buf "u_transaction os" cid ?rest]
    by (simp add: GetPeersUDP_def udp_exchange_def Let_def announce_request_fields not_less)
qed

lemma sample_udp_fields:
  "u_gai sample_udp = 0" "0 \<le> u_sock sample_udp" "0 \<le> u_send1 sample_udp" "0 \<le> u_send2 sample_udp"
  "u_recv1 sample_udp = Some (connect_response (u_transaction sample_udp) [1, 2, 3, 4, 5, 6, 7, 8])"
  "length [1, 2, 3, 4, 5, 6, 7, 8 :: u8] = 8"
  "u_recv2 sample_udp = Some (replicate 20 9 @ concat (map compact_peer [(10, 0, 0, 1, 6881)]) @ [3])"
  "length (replicate 20 (9 :: u8)) = 20" "length [3 :: u8] < 6"
  by (simp_all add: sample_udp_def)

lemma sample_udp_peers: "u_peers (GetPeersUDP sample_udp tf pid prt) = [Peer ''10.0.0.1'' 6881 []]"
  using udp_exchange_peers [OF sample_udp_fields, of tf pid prt] sample_peer by simp

text \<open>
  C39: the UDP exchange with an honest tracker. Let the name be resolved, the socket be opened, both
  datagrams be accepted, and let the tracker answer with a connect response of its protocol and then
  with twenty bytes and a compact list. Two datagrams go out; the second starts with the connection
  id of the first response, byte for byte. The first 167 peers of the list are returned in order:
  more do not fit into the 1024 bytes that \<open>recvfrom\<close> takes of a datagram, and are lost. The
  socket is closed and the address list freed.
\<close>

theorem udp_announce_peers:
  assumes "u_gai os = 0" and "0 \<le> u_sock os" and "0 \<le> u_send1 os" and "0 \<le> u_send2 os"
    and "u_recv1 os = Some (connect_response (u_transaction os) cid)" and "length cid = 8"
    and "u_recv2 os = Some (hdr @ concat (map compact_peer ps) @ tail)" and "length hdr = 20" and "length tail < 6"
  shows "u_peers (GetPeersUDP os tf pid prt) = map peer_of (take 167 ps)
    \<and> (\<exists>req. datagrams (GetPeersUDP os tf pid prt) = [connect_request (u_transaction os), req] \<and> take 8 req = cid)
    \<and> u_events (GetPeersUDP os tf pid prt) = [Addr_Alloc, Opened (u_sock os), Addr_Free, Closed (u_sock os)]"
  by (rule udp_exchange_peers [OF assms])

theorem udp_announce_peers_witness:
  "u_peers (GetPeersUDP sample_udp (sample_torrent (\<lambda>d. [])) ''me'' 6881) = [Peer ''10.0.0.1'' 6881 []]
   \<and> u_events (GetPeersUDP sample_udp (sample_torrent (\<lambda>d. [])) ''me'' 6881) = [Addr_Alloc, Opened 7, Addr_Free, Closed 7]"
  using udp_announce_peers [OF sample_udp_fields, of "sample_torrent (\<lambda>d. [])" "''me''" 6881]
  using sample_peer by (simp add: sample_udp_def)

text \<open>
  The announce response is not authenticated. Action and transaction id, checked in the
  connect response, are ignored here: any two datagrams that differ only in their first twenty
  bytes have the same effect, so a stray or forged datagram is taken for the peer list.
\<close>

theorem announce_response_unchecked:
  assumes "length h = 20" and "length h' = 20"
  shows "GetPeersUDP (os\<lparr>u_recv2 := Some (h @ x)\<rparr>) tf pid prt = GetPeersUDP (os\<lparr>u_recv2 := Some (h' @ x)\<rparr>) tf pid prt"
  using assms by (simp add: GetPeersUDP_def udp_exchange_def Let_def recv_into_def recv_len_def recv_size_def)

theorem announce_response_unchecked_witness:
  "GetPeersUDP (sample_udp\<lparr>u_recv2 := Some (replicate 20 1 @ [1, 2])\<rparr>) (sample_torrent (\<lambda>d. [])) ''me'' 6881
   = GetPeersUDP (sample_udp\<lparr>u_recv2 := Some (replicate 20 2 @ [1, 2])\<rparr>) (sample_torrent (\<lambda>d. [])) ''me'' 6881"
  by (rule announce_response_unchecked) simp_all

lemma length_compact_peers: "length (compact_peers b) = length b div 6"
  by (induction b rule: compact_peers.induct) auto

lemma recv_into_fields:
  assumes "n + 4 \<le> length (take recv_size r)"
  shows "recv_into b (Some r) ! n = r ! n" "recv_into b (Some r) ! (n + 1) = r ! (n + 1)"
    "recv_into b (Some r) ! (n + 2) = r ! (n + 2)" "recv_into b (Some r) ! (n + 3) = r ! (n + 3)"
  using assms by (simp_all add: recv_into_def nth_append)

lemma connect_checked:
  assumes "\<not> recv_len a < 16" and "buf = recv_into b a"
    and "\<not> (be32 (buf ! 0) (buf ! 1) (buf ! 2) (buf ! 3) \<noteq> 0 \<or> be32 (buf ! 4) (buf ! 5) (buf ! 6) (buf ! 7) \<noteq> tid)"
  shows "\<exists>r. a = Some r \<and> 16 \<le> length r \<and> ReadBE32 r 0 = Inr 0 \<and> ReadBE32 r 4 = Inr tid"
proof -
  obtain r where r: "a = Some r" "16 \<le> length (take recv_size r)"
    using assms(1) by (cases a) (auto simp: recv_len_def simp del: length_take)
  then show ?thesis
    using assms(2,3) recv_into_fields [of 0 r b] recv_into_fields [of 4 r b] by (simp add: ReadBE32_def numeral_2_eq_2)
qed

text \<open>
  C40: what any tracker can do to the client over UDP. Whatever the system answers, the exchange
  sends at most two datagrams, returns at most 167 peers, and closes its socket exactly once when it
  has opened it; peers are only accepted after a connect response of at least sixteen bytes with the
  action 0 and the transaction id of the request.
\<close>

theorem udp_exchange_guarded:
  "length (datagrams (GetPeersUDP os tf pid prt)) \<le> 2 \<and> length (u_peers (GetPeersUDP os tf pid prt)) \<le> 167
    \<and> (\<forall>s. closes s (u_events (GetPeersUDP os tf pid prt)) = count_list (u_events (GetPeersUDP os tf pid prt)) (Opened s))
    \<and> (u_peers (GetPeersUDP os tf pid prt) \<noteq> [] \<longrightarrow>
        (\<exists>r. u_recv1 os = Some r \<and> 16 \<le> length r \<and> ReadBE32 r 0 = Inr 0 \<and> ReadBE32 r 4 = Inr (u_transaction os)))"
proof -
  have l: "recv_len (u_recv2 os) \<le> 1024"
    by (auto simp: recv_len_def recv_size_def split: option.split)
  have n: "length (compact_peers (drop 20 (take (nat (recv_len (u_recv2 os))) b))) \<le> 167" for b
    unfolding length_compact_peers using l by (simp add: min_def) linarith
  show ?thesis
    using n connect_checked [of "u_recv1 os" "recv_into (replicate recv_size 0) (u_recv1 os)" "replicate recv_size 0" "u_transaction os"]
    by (auto simp: GetPeersUDP_def udp_exchange_def udp_fail_def closes_def Let_def)
qed

theorem udp_exchange_guarded_witness:
  "closes 7 (u_events (GetPeersUDP (sample_udp\<lparr>u_recv2 := Some [1, 2]\<rparr>) (sample_torrent (\<lambda>d. [])) ''me'' 6881)) =
   count_list (u_events (GetPeersUDP (sample_udp\<lparr>u_recv2 := Some [1, 2]\<rparr>) (sample_torrent (\<lambda>d. [])) ''me'' 6881)) (Opened 7)"
  using udp_exchange_guarded [of "sample_udp\<lparr>u_recv2 := Some [1, 2]\<rparr>" "sample_torrent (\<lambda>d. [])" "''me''" 6881] by auto

end
