(* ===== verification/Downloader_Props.thy ===== *)
theory Downloader_Props
  imports Downloader
begin

text \<open>
  What \<open>Downloader\<close> guarantees and what it does not: only blocks whose hash was checked
  reach the writer, the blocks of a piece in any order assemble the piece, each piece is handed
  out once; a peer can drive it into undefined behaviour, and it never counts a byte as
  downloaded.
\<close>

section \<open>Sizes\<close>

lemma unat_size_of: "length xs < 2 ^ 64 \<Longrightarrow> unat (size_of xs) = length xs"
  by (simp add: size_of_def unat_of_nat)

lemma size_of_le: "length xs < 2 ^ 64 \<Longrightarrow> length ys < 2 ^ 64 \<Longrightarrow> size_of xs \<le> size_of ys \<longleftrightarrow> length xs \<le> length ys"
  by (simp add: word_le_nat_alt unat_size_of)

lemma sint_i32_bounds: "- (2 ^ 31) \<le> sint (i :: i32)" "sint (i :: i32) < 2 ^ 31"
  using sint_ge [of i] sint_lt [of i] by simp_all

lemma unat_offset_plus_size:
  assumes "0 \<le> sint off" and "length data < 2 ^ 63"
  shows "unat (int_to_size off + size_of data) = nat (sint off) + length data"
proof -
  have "nat (sint off) < 2 ^ 31"
    using sint_i32_bounds(2) [of off] by simp
  then show ?thesis
    using assms by (simp add: unat_word_ariths unat_int_to_size_nonneg unat_size_of)
qed

lemma unat_negative_offset_plus_size:
  assumes "sint off < 0" and "- sint off \<le> int (length data)" and "length data < 2 ^ 63"
  shows "int (unat (int_to_size off + size_of data)) = int (length data) + sint off"
proof -
  have s: "int (unat (int_to_size off)) = 2 ^ 64 + sint off"
    by (rule unat_int_to_size_neg [OF assms(1)])
  have "int (unat (int_to_size off + size_of data)) = (2 ^ 64 + sint off + int (length data)) mod 2 ^ 64"
    using assms(3) s by (simp add: unat_word_ariths unat_size_of zmod_int)
  also have "\<dots> = (sint off + int (length data)) mod 2 ^ 64"
    by (simp add: add.assoc)
  also have "\<dots> = sint off + int (length data)"
    using assms by (intro mod_pos_pos_trivial) auto
  finally show ?thesis by simp
qed

section \<open>Steps and reachable states\<close>

text \<open>
  What can happen to a \<open>Downloader\<close> after its construction: a block arrives, with any
  arguments that fit into a \<open>std::vector\<close>, and the call returns or throws; a connection asks for a piece; the writer thread
  is started or moves.
\<close>

inductive downloader_step :: "downloader \<Rightarrow> downloader \<Rightarrow> bool" where
  block: "length data < 2 ^ 63 \<Longrightarrow> \<not> undefined_fault (fst (OnBlockReceived i off data d)) \<Longrightarrow>
    downloader_step d (snd (OnBlockReceived i off data d))"
| request: "downloader_step d (snd (GetNextPieceToRequest d))"
| start: "w_phase (file_writer d) = Not_Started \<Longrightarrow>
    downloader_step d (d\<lparr>file_writer := writer_start (file_writer d)\<rparr>)"
| thread: "thread_step (file_writer d) = Some w \<Longrightarrow> downloader_step d (d\<lparr>file_writer := w\<rparr>)"

inductive_cases downloader_stepE: "downloader_step d d'"

code_pred downloader_step .

text \<open>A container of the torrent holds at most \<open>2 ^ 63 - 1\<close> elements.\<close>

definition downloader_init :: "torrent_file \<Rightarrow> downloader \<Rightarrow> bool" where
  "downloader_init tf d \<longleftrightarrow>
     length (piece_hashes tf) < 2 ^ 63 \<and> (\<exists>pid ps opened. d = Downloader tf pid ps opened)"

definition verified_job :: "torrent_file \<Rightarrow> job \<Rightarrow> bool" where
  "verified_job tf j \<longleftrightarrow>
     (\<exists>i<length (piece_hashes tf). job_offset j = int i * piece_length tf
        \<and> Calculate (job_b j) = piece_hashes tf ! i)"

definition downloader_inv :: "torrent_file \<Rightarrow> downloader \<Rightarrow> bool" where
  "downloader_inv tf d \<longleftrightarrow>
     torrent d = tf \<and> length (piece_hashes tf) < 2 ^ 63 \<and> downloaded_bytes d = 0
     \<and> (\<forall>j\<in>set (w_added (file_writer d)). verified_job tf j)"

lemma int_to_size_small:
  assumes "unat (int_to_size i) < n" and "n < 2 ^ 63"
  shows "0 \<le> sint i \<and> unat (int_to_size i) = nat (sint i)"
proof (cases "0 \<le> sint i")
  case True
  then show ?thesis by (simp add: unat_int_to_size_nonneg)
next
  case False
  then have "int (unat (int_to_size i)) = 2 ^ 64 + sint i"
    by (intro unat_int_to_size_neg) simp
  moreover have "unat (int_to_size i) < 2 ^ 63"
    using assms by (rule less_trans)
  then have "int (unat (int_to_size i)) < int (2 ^ 63)"
    by (simp only: of_nat_less_iff)
  ultimately have False
    using sint_i32_bounds(1) [of i] by simp
  then show ?thesis ..
qed

lemma verify_piece_writer:
  assumes "length (piece_hashes (torrent d)) < 2 ^ 63"
  shows "file_writer (snd (verify_piece i d)) = file_writer d \<or>
    (0 \<le> sint i \<and> nat (sint i) < length (piece_hashes (torrent d))
     \<and> Calculate (piece_buffer d) = piece_hashes (torrent d) ! nat (sint i)
     \<and> file_writer (snd (verify_piece i d))
         = fst (writer_add (file_writer d) (piece_buffer d) (sint i * piece_length (torrent d))))"
  using int_to_size_small [of i, OF _ assms]
  by (auto simp: verify_piece_def Let_def writer_add_def not_le)

lemma OnBlockReceived_writer:
  assumes "length (piece_hashes (torrent d)) < 2 ^ 63"
  shows "file_writer (snd (OnBlockReceived i off data d)) = file_writer d \<or>
    (\<exists>j. verified_job (torrent d) j \<and>
       w_added (file_writer (snd (OnBlockReceived i off data d))) = w_added (file_writer d) @ [j])"
proof -
  obtain f1 d1 where 1: "init_piece i d = (f1, d1)" by (cases "init_piece i d")
  obtain f2 d2 where 2: "copy_block off data d1 = (f2, d2)" by (cases "copy_block off data d1")
  have t: "torrent d1 = torrent d" "torrent d2 = torrent d"
    "file_writer d1 = file_writer d" "file_writer d2 = file_writer d"
    using init_piece_frame [of i d] copy_block_frame [of off data d1] by (simp_all add: 1 2)
  have v: "file_writer (snd (verify_piece i (count_block data d2))) = file_writer d \<or>
    (\<exists>j. verified_job (torrent d) j \<and>
       w_added (file_writer (snd (verify_piece i (count_block data d2)))) = w_added (file_writer d) @ [j])"
    using verify_piece_writer [of "count_block data d2" i] assms
    by (auto simp: t writer_add_def verified_job_def) fastforce
  show ?thesis
    using t v by (auto simp: OnBlockReceived_def 1 2 act_then_def split: option.split)
qed

interpretation downloader: invariant_of "downloader_init tf" downloader_step "downloader_inv tf" for tf
proof
  fix d
  assume "downloader_init tf d"
  then show "downloader_inv tf d"
    by (auto simp: downloader_init_def downloader_inv_def Downloader_def Writer_def)
next
  fix d d'
  assume i: "downloader_inv tf d" and "downloader_step d d'"
  from this(2) show "downloader_inv tf d'"
  proof cases
    case (block data i off)
    then show ?thesis
      using \<open>downloader_inv tf d\<close> OnBlockReceived_frame [of i off data d] OnBlockReceived_writer [of d i off data]
      by (auto simp: downloader_inv_def)
  next
    case request
    then show ?thesis
      using i GetNextPieceToRequest_frame [of d] by (simp add: downloader_inv_def)
  next
    case start
    then show ?thesis
      using i by (simp add: downloader_inv_def writer_start_def)
  next
    case (thread w)
    then have "w_added w = w_added (file_writer d)"
      by (auto simp: thread_step.simps split: writer_phase.splits list.splits if_splits)
    then show ?thesis
      using i thread by (simp add: downloader_inv_def)
  qed
qed

section \<open>The steps of a block, on a valid piece\<close>

text \<open>
  A piece of the torrent: an index of the hash list, a positive piece length, and a position
  that is a 64-bit integer.
\<close>

definition valid_piece :: "torrent_file \<Rightarrow> i32 \<Rightarrow> bool" where
  "valid_piece tf i \<longleftrightarrow>
     0 \<le> sint i \<and> nat (sint i) < length (piece_hashes tf) \<and> length (piece_hashes tf) < 2 ^ 63
     \<and> 0 < piece_length tf \<and> in_int_range 64 (sint i * piece_length tf)"

lemma c_rem_pos: "0 < b \<Longrightarrow> c_rem a b = Inr (a smod b)"
  by (simp add: c_rem_def)

lemma piece_len_valid: "0 < piece_length tf \<Longrightarrow> \<exists>n. piece_len tf i = Inr n"
  by (simp add: piece_len_def c_rem_pos)

lemma unat_valid_piece: "valid_piece tf i \<Longrightarrow> unat (int_to_size i) = nat (sint i)"
  by (simp add: valid_piece_def unat_int_to_size_nonneg)

lemma init_piece_no_ub:
  "valid_piece (torrent d) i \<Longrightarrow> \<not> undefined_fault (fst (init_piece i d))"
  using piece_len_valid [of "torrent d" i]
  by (auto simp: init_piece_def Let_def valid_piece_def vec_assign_def split: if_splits)

lemma copy_block_no_ub: "0 \<le> sint off \<Longrightarrow> fst (copy_block off data d) = None"
  by (simp add: copy_block_def)

lemma verify_piece_no_ub:
  "valid_piece (torrent d) i \<Longrightarrow> fst (verify_piece i d) = None"
  by (auto simp: verify_piece_def Let_def unat_valid_piece valid_piece_def writer_add_def)

lemma OnBlockReceived_unfold:
  assumes "init_piece i d = (None, d1)" and "copy_block off data d1 = (None, d2)"
  shows "OnBlockReceived i off data d = verify_piece i (count_block data d2)"
  by (simp add: OnBlockReceived_def assms)

section \<open>Assembling a piece\<close>

text \<open>The blocks of one piece as they arrive, and what a block of the piece \<open>P\<close> is.\<close>

fun receive_all :: "i32 \<Rightarrow> (i32 \<times> buffer) list \<Rightarrow> downloader \<Rightarrow> downloader act" where
  "receive_all i [] d = (None, d)"
| "receive_all i ((off, data) # bs) d = act_then (OnBlockReceived i off data d) (receive_all i bs)"

definition block_of :: "buffer \<Rightarrow> i32 \<times> buffer \<Rightarrow> bool" where
  "block_of P b \<longleftrightarrow> 0 \<le> sint (fst b) \<and> snd b \<noteq> [] \<and> nat (sint (fst b)) + length (snd b) \<le> length P
     \<and> snd b = file_range P (nat (sint (fst b))) (length (snd b))"

definition covered :: "i32 \<times> buffer \<Rightarrow> nat set" where
  "covered b = {nat (sint (fst b))..<nat (sint (fst b)) + length (snd b)}"

text \<open>The state while the piece is incomplete: the bytes at the positions \<open>C\<close> are there.\<close>

definition assembling :: "i32 \<Rightarrow> buffer \<Rightarrow> nat set \<Rightarrow> downloader \<Rightarrow> bool" where
  "assembling i P C d \<longleftrightarrow>
     current_piece_index d = i \<and> length (piece_buffer d) = length P \<and> C \<subseteq> {..<length P}
     \<and> (\<forall>x\<in>C. piece_buffer d ! x = P ! x) \<and> piece_bytes_received d = word_of_nat (card C)"

lemma int_to_size_of_nat:
  assumes "n < 2 ^ 31"
  shows "unat (int_to_size (word_of_nat n)) = n"
proof -
  have "sint (word_of_nat n :: i32) = int n"
    using assms by (simp add: signed_of_nat signed_take_bit_int_eq_self)
  then show ?thesis
    by (simp add: unat_int_to_size_nonneg)
qed

lemma copy_into_nth:
  assumes "p + length bs \<le> length c" and "x < length c"
  shows "copy_into c p bs ! x = (if p \<le> x \<and> x < p + length bs then bs ! (x - p) else c ! x)"
  using assms by (auto simp: copy_into_def nth_append)

lemma copy_block_assembling:
  assumes "assembling i P C d" and "block_of P (off, data)" and "C \<inter> covered (off, data) = {}"
    and "length P < 2 ^ 31"
  shows "\<exists>d'. copy_block off data d = (None, d') \<and> assembling i P (C \<union> covered (off, data)) d'
    \<and> file_writer d' = file_writer d \<and> torrent d' = torrent d"
proof -
  let ?p = "nat (sint off)" and ?n = "length data"
  have b: "0 \<le> sint off" "data \<noteq> []" "?p + ?n \<le> length P" "data = file_range P ?p ?n"
    using assms(2) by (simp_all add: block_of_def)
  have l: "length (piece_buffer d) = length P"
    using assms(1) by (simp add: assembling_def)
  have fits: "int_to_size off + size_of data \<le> size_of (piece_buffer d)"
    using unat_offset_plus_size [OF b(1), of data] b(3) l assms(4)
    by (simp add: word_le_nat_alt unat_size_of)
  let ?d = "d\<lparr>piece_buffer := copy_into (piece_buffer d) ?p data,
    piece_bytes_received := piece_bytes_received d + word_of_nat ?n\<rparr>"
  have "copy_block off data d = (None, ?d)"
    using fits b by (simp add: copy_block_def)
  moreover have "assembling i P (C \<union> covered (off, data)) ?d"
  proof -
    have C: "C \<subseteq> {..<length P}" "\<forall>x\<in>C. piece_buffer d ! x = P ! x"
      using assms(1) by (simp_all add: assembling_def)
    then have fin: "finite C"
      using finite_subset by blast
    have "card (C \<union> covered (off, data)) = card C + ?n"
      using assms(3) fin by (simp add: card_Un_disjoint covered_def)
    moreover have "copy_into (piece_buffer d) ?p data ! x = P ! x" if "x \<in> C \<union> covered (off, data)" for x
    proof (cases "x \<in> covered (off, data)")
      case True
      then have "data ! (x - ?p) = P ! x"
        using b(3) by (subst b(4)) (auto simp: file_range_def covered_def)
      then show ?thesis
        using True b(3) l by (simp add: covered_def copy_into_nth)
    next
      case False
      then show ?thesis
        using that C b(3) l by (auto simp: covered_def copy_into_nth)
    qed
    ultimately show ?thesis
      using assms(1) C(1) b(3) l by (auto simp: assembling_def covered_def copy_into_def)
  qed
  ultimately show ?thesis by auto
qed

lemma verify_piece_incomplete:
  assumes "assembling i P C d" and "card C < length P" and "length P < 2 ^ 31"
  shows "verify_piece i d = (None, d)"
proof -
  have "unat (int_to_size (piece_bytes_received d)) = card C"
    using assms int_to_size_of_nat [of "card C"] by (simp add: assembling_def)
  moreover have "unat (size_of (piece_buffer d)) = length P"
    using assms by (simp add: assembling_def unat_size_of)
  ultimately have "int_to_size (piece_bytes_received d) \<noteq> size_of (piece_buffer d)"
    using assms(2) by auto
  then show ?thesis by (simp add: verify_piece_def)
qed

lemma verify_piece_complete:
  assumes "assembling i P C d" and "card C = length P" and "length P < 2 ^ 31"
    and "valid_piece (torrent d) i" and "Calculate P = piece_hashes (torrent d) ! nat (sint i)"
  shows "\<exists>d'. verify_piece i d = (None, d') \<and> w_added (file_writer d') = w_added (file_writer d)
      @ [\<lparr>job_b = P, job_offset = sint i * piece_length (torrent d)\<rparr>]"
proof -
  have C: "C \<subseteq> {..<length P}" "\<forall>x\<in>C. piece_buffer d ! x = P ! x" "length (piece_buffer d) = length P"
    using assms(1) by (simp_all add: assembling_def)
  then have "C = {..<length P}"
    using assms(2) by (intro card_subset_eq) simp_all
  with C have buf: "piece_buffer d = P"
    by (intro nth_equalityI) simp_all
  have "unat (int_to_size (piece_bytes_received d)) = unat (size_of (piece_buffer d))"
    using assms(1-3) int_to_size_of_nat [of "card C"] by (simp add: assembling_def unat_size_of)
  then have "int_to_size (piece_bytes_received d) = size_of (piece_buffer d)"
    by (simp only: word_unat_eq_iff)
  then show ?thesis
    using assms(4,5) unat_valid_piece [OF assms(4)]
    by (simp add: verify_piece_def buf valid_piece_def writer_add_def Let_def)
qed

lemma assembling_count [simp]: "assembling i P C (count_block data d) = assembling i P C d"
  by (simp add: assembling_def)

lemma receive_all_assembles:
  assumes "length P < 2 ^ 31" and "valid_piece (torrent d) i"
    and "Calculate P = piece_hashes (torrent d) ! nat (sint i)"
  shows "assembling i P C d \<Longrightarrow> card C < length P \<Longrightarrow> \<forall>b\<in>set bs. block_of P b \<Longrightarrow>
    \<forall>b\<in>set bs. C \<inter> covered b = {} \<Longrightarrow> sorted_wrt (\<lambda>a b. covered a \<inter> covered b = {}) bs \<Longrightarrow>
    card C + sum_list (map (length \<circ> snd) bs) = length P \<Longrightarrow>
    \<exists>d'. receive_all i bs d = (None, d') \<and> w_added (file_writer d') = w_added (file_writer d)
      @ [\<lparr>job_b = P, job_offset = sint i * piece_length (torrent d)\<rparr>]"
  using assms(2,3)
proof (induction bs arbitrary: C d)
  case Nil
  then show ?case by simp
next
  case (Cons b bs)
  obtain off data where b: "b = (off, data)" by (cases b)
  have bo: "block_of P (off, data)" and disj: "C \<inter> covered (off, data) = {}"
    using Cons.prems b by simp_all
  obtain d2 where d2: "copy_block off data d = (None, d2)" "assembling i P (C \<union> covered (off, data)) d2"
      "file_writer d2 = file_writer d" "torrent d2 = torrent d"
    using copy_block_assembling [OF Cons.prems(1) bo disj assms(1)] by blast
  have "finite C"
    using Cons.prems(1) finite_subset by (auto simp: assembling_def)
  then have card: "card (C \<union> covered (off, data)) = card C + length data"
    using disj by (simp add: card_Un_disjoint covered_def)
  have "init_piece i d = (None, d)"
    using Cons.prems(1) by (simp add: assembling_def init_piece_def)
  then have step: "OnBlockReceived i off data d = verify_piece i (count_block data d2)"
    using d2(1) by (rule OnBlockReceived_unfold)
  show ?case
  proof (cases bs)
    case Nil
    then show ?thesis
      using verify_piece_complete [of i P "C \<union> covered (off, data)" "count_block data d2"] Cons.prems
        card d2 step assms(1) by (auto simp: b Nil)
  next
    case (Cons b' bs')
    have "snd b' \<noteq> []"
      using Cons.prems(3) Cons by (simp add: block_of_def)
    then have lt: "card (C \<union> covered (off, data)) < length P"
      using Cons.prems(6) card by (cases "snd b'") (simp_all add: b Cons)
    have "verify_piece i (count_block data d2) = (None, count_block data d2)"
      using verify_piece_incomplete [OF _ lt assms(1)] d2(2) by simp
    moreover have "\<exists>d'. receive_all i bs (count_block data d2) = (None, d')
        \<and> w_added (file_writer d') = w_added (file_writer (count_block data d2))
          @ [\<lparr>job_b = P, job_offset = sint i * piece_length (torrent (count_block data d2))\<rparr>]"
      using Cons.prems d2 lt card by (intro Cons.IH [of "C \<union> covered (off, data)"]) (auto simp: b)
    ultimately show ?thesis
      using step d2 by (simp add: b)
  qed
qed

lemma init_piece_assembling:
  assumes "current_piece_index d \<noteq> i" and "piece_len (torrent d) i = Inr (int (length P))"
  shows "\<exists>d'. init_piece i d = (None, d') \<and> assembling i P {} d' \<and> torrent d' = torrent d
    \<and> file_writer d' = file_writer d"
  using assms by (simp add: init_piece_def Let_def vec_assign_def assembling_def)

lemma OnBlockReceived_after_init:
  "init_piece i d = (None, d') \<Longrightarrow> current_piece_index d' = i \<Longrightarrow>
   OnBlockReceived i off data d = OnBlockReceived i off data d'"
  by (simp add: OnBlockReceived_def init_piece_def [of i d'])

section \<open>Properties\<close>

text \<open>
  A finished download is never noticed. \<open>OnBlockReceived\<close> adds the size of
  \<open>piece_buffer\<close> to \<open>downloaded_bytes\<close> after the buffer has been moved away,
  so the counter stays 0 and \<open>IsComplete\<close> is false in every reachable state of every
  torrent of positive length.
\<close>

theorem never_complete:
  assumes "reachable (downloader_init tf) downloader_step d"
  shows "downloaded_bytes d = 0 \<and> (IsComplete d \<longleftrightarrow> tf_length tf \<le> 0)"
  using downloader.inv_reachable [OF assms] by (simp add: downloader_inv_def IsComplete_def)

lemma reachable_fresh:
  "length (piece_hashes tf) < 2 ^ 63 \<Longrightarrow>
   reachable (downloader_init tf) downloader_step (Downloader tf pid ps opened)"
  by (rule reachable_init) (auto simp: downloader_init_def)

lemma reachable_sample: "reachable (downloader_init (sample_torrent h)) downloader_step (Downloader (sample_torrent h) pid ps o')"
  by (rule reachable_fresh) (simp add: sample_torrent_def)

theorem never_complete_witness: "\<not> IsComplete (Downloader (sample_torrent (\<lambda>d. replicate 20 0)) ''me'' [] True)"
  using never_complete [OF reachable_sample [of "\<lambda>d. replicate 20 0" "''me''" "[]" True]] by (simp add: sample_torrent_def)

text \<open>
  Nothing is ever written for a real torrent. \<open>Load\<close> stores the expected hashes as
  twenty raw bytes while \<open>Sha1::Calculate\<close> returns forty hexadecimal digits, so no
  comparison succeeds and every piece is discarded as corrupt.
\<close>

theorem loaded_torrent_writes_nothing:
  assumes "reachable (downloader_init tf) downloader_step d" and "\<forall>h\<in>set (piece_hashes tf). length h = 20"
  shows "w_added (file_writer d) = []"
proof (rule ccontr)
  assume "w_added (file_writer d) \<noteq> []"
  then obtain j where "j \<in> set (w_added (file_writer d))"
    by (meson last_in_set)
  with downloader.inv_reachable [OF assms(1)] obtain i where
    "i < length (piece_hashes tf)" and "Calculate (job_b j) = piece_hashes tf ! i"
    by (auto simp: downloader_inv_def verified_job_def)
  then have "length (Calculate (job_b j)) = 20"
    using assms(2) nth_mem by metis
  then show False
    by (simp add: length_Calculate)
qed

theorem loaded_torrent_writes_nothing_witness:
  "w_added (file_writer (Downloader (sample_torrent (\<lambda>d. replicate 20 0)) ''me'' [] True)) = []"
  by (rule loaded_torrent_writes_nothing [OF reachable_sample]) (simp add: sample_torrent_def)

lemma OnBlockReceived_no_ub:
  assumes "valid_piece (torrent d) i" and "0 \<le> sint off"
  shows "\<not> undefined_fault (fst (OnBlockReceived i off data d))"
proof -
  obtain f1 d1 where 1: "init_piece i d = (f1, d1)" by (cases "init_piece i d")
  have t: "torrent d1 = torrent d"
    using init_piece_frame [of i d] by (simp add: 1)
  show ?thesis
  proof (cases f1)
    case None
    obtain d2 where 2: "copy_block off data d1 = (None, d2)"
      using copy_block_no_ub [OF assms(2), of data d1] by (metis prod.collapse)
    have "torrent (count_block data d2) = torrent d"
      using copy_block_frame [of off data d1] t by (simp add: 2)
    then show ?thesis
      using OnBlockReceived_unfold [of i d d1 off data d2] 1 2 None verify_piece_no_ub assms(1) by simp
  next
    case (Some f)
    then show ?thesis
      using init_piece_no_ub [OF assms(1)] 1 by (simp add: OnBlockReceived_def)
  qed
qed

text \<open>
  A block of a valid piece at an offset that is not negative is safe: whatever its size,
  the call has no undefined behaviour.
\<close>

theorem valid_block_safe:
  assumes "valid_piece (torrent d) i" and "0 \<le> sint off"
  shows "\<not> undefined_fault (fst (OnBlockReceived i off data d))"
  by (rule OnBlockReceived_no_ub [OF assms])

theorem valid_block_safe_witness:
  "\<not> undefined_fault (fst (OnBlockReceived 2 0 [1, 2] (Downloader (sample_torrent (\<lambda>d. replicate 20 0)) ''me'' [] True)))"
  by (rule valid_block_safe)
     (simp_all add: valid_piece_def Downloader_def sample_torrent_def in_int_range_def)

text \<open>
  C30: a negative offset writes before the buffer. A peer that sends a \<open>begin\<close> of
  \<open>2 ^ 32 - k\<close> for the piece being received, with at least \<open>k\<close> bytes that end
  inside the piece, passes the bounds check, because the sum wraps to a small \<open>size_t\<close>.
\<close>

theorem negative_offset_overflows:
  assumes "current_piece_index d = i" and "sint off < 0" and "- sint off \<le> int (length data)"
    and "int (length data) + sint off \<le> int (length (piece_buffer d))"
    and "length data < 2 ^ 63" and "length (piece_buffer d) < 2 ^ 63"
  shows "fst (OnBlockReceived i off data d) = Some (Undefined Out_Of_Bounds)"
proof -
  have "unat (int_to_size off + size_of data) \<le> length (piece_buffer d)"
    using unat_negative_offset_plus_size [OF assms(2,3,5)] assms(4) by linarith
  then have "int_to_size off + size_of data \<le> size_of (piece_buffer d)"
    using assms(6) by (simp add: word_le_nat_alt unat_size_of)
  moreover have "data \<noteq> []"
    using assms(2,3) by auto
  ultimately show ?thesis
    using assms(1,2) by (simp add: OnBlockReceived_def init_piece_def copy_block_def)
qed

theorem negative_offset_overflows_witness:
  "fst (OnBlockReceived 0 (- 2) [1, 2, 3]
     (Downloader (sample_torrent (\<lambda>d. replicate 20 0)) ''me'' [] True\<lparr>current_piece_index := 0, piece_buffer := [0, 0, 0, 0]\<rparr>))
   = Some (Undefined Out_Of_Bounds)"
  by (rule negative_offset_overflows) simp_all

text \<open>
  The piece index is not checked. A new downloader that receives a block with index
  \<open>0xFFFFFFFF\<close> reads \<open>piece_hashes[-1]\<close>, whatever the offset and the data, because the empty
  piece buffer counts as complete.
\<close>

theorem bad_index_reads_out_of_bounds:
  assumes "length (piece_hashes tf) < 2 ^ 63" and "length data < 2 ^ 63"
  shows "fst (OnBlockReceived (- 1) off data (Downloader tf pid ps opened)) = Some (Undefined Out_Of_Bounds)"
proof -
  let ?d = "Downloader tf pid ps opened"
  have k: "\<not> unat (int_to_size (- 1)) < length (piece_hashes tf)"
    using int_to_size_small [of "- 1", OF _ assms(1)] by auto
  have "copy_block off data ?d = (Some (Undefined Out_Of_Bounds), ?d) \<or> copy_block off data ?d = (None, ?d)"
    using unat_offset_plus_size [OF _ assms(2), of off]
    by (auto simp: copy_block_def Downloader_def size_of_def unat_eq_0)
  moreover have "fst (verify_piece (- 1) (count_block data ?d)) = Some (Undefined Out_Of_Bounds)"
    using k by (simp add: verify_piece_def Downloader_def count_block_def size_of_def int_to_size_def Let_def)
  moreover have "init_piece (- 1) ?d = (None, ?d)"
    by (simp add: init_piece_def Downloader_def)
  ultimately show ?thesis
    by (auto simp: OnBlockReceived_def)
qed

theorem bad_index_reads_out_of_bounds_witness:
  "fst (OnBlockReceived (- 1) 0 [] (Downloader (sample_torrent (\<lambda>d. replicate 20 0)) ''me'' [] True)) = Some (Undefined Out_Of_Bounds)"
  by (rule bad_index_reads_out_of_bounds) (simp_all add: sample_torrent_def)

lemma receive_all_piece:
  assumes "valid_piece (torrent d) i" and "current_piece_index d \<noteq> i"
    and "piece_len (torrent d) i = Inr (int (length P))" and "length P < 2 ^ 31" and "P \<noteq> []"
    and "Calculate P = piece_hashes (torrent d) ! nat (sint i)"
    and "\<forall>b\<in>set bs. block_of P b" and "sorted_wrt (\<lambda>a b. covered a \<inter> covered b = {}) bs"
    and "sum_list (map (length \<circ> snd) bs) = length P"
  shows "\<exists>d'. receive_all i bs d = (None, d') \<and> w_added (file_writer d') = w_added (file_writer d)
    @ [\<lparr>job_b = P, job_offset = sint i * piece_length (torrent d)\<rparr>]"
proof -
  obtain d1 where d1: "init_piece i d = (None, d1)" "assembling i P {} d1" "torrent d1 = torrent d"
      "file_writer d1 = file_writer d"
    using init_piece_assembling [OF assms(2,3)] by blast
  have "current_piece_index d1 = i"
    using d1(2) by (simp add: assembling_def)
  then have "receive_all i bs d = receive_all i bs d1"
    using assms(5,9) OnBlockReceived_after_init [OF d1(1)] by (cases bs) auto
  then show ?thesis
    using receive_all_assembles [OF assms(4), of d1 i "{}" bs] assms d1 by simp
qed

definition two_piece_torrent :: torrent_file where
  "two_piece_torrent = \<lparr>announce = ''udp://t'', tf_name = ''f'', tf_length = 5, piece_length = 3,
     piece_hashes = [Calculate [1, 2, 3], Calculate [4, 5]], info_hash = replicate 20 0\<rparr>"

text \<open>
  C7: blocks assemble the piece in any order. When the blocks of a piece that is not the
  current one arrive, in any order, disjoint and covering it, no call fails, and the last one
  hands exactly the piece, at its position in the file, to the writer if its hash is the
  expected one.
\<close>

theorem blocks_assemble_piece:
  assumes "valid_piece (torrent d) i" and "current_piece_index d \<noteq> i"
    and "piece_len (torrent d) i = Inr (int (length P))" and "length P < 2 ^ 31" and "P \<noteq> []"
    and "Calculate P = piece_hashes (torrent d) ! nat (sint i)"
    and "\<forall>b\<in>set bs. block_of P b" and "sorted_wrt (\<lambda>a b. covered a \<inter> covered b = {}) bs"
    and "sum_list (map (length \<circ> snd) bs) = length P"
  shows "\<exists>d'. receive_all i bs d = (None, d') \<and> w_added (file_writer d') = w_added (file_writer d)
    @ [\<lparr>job_b = P, job_offset = sint i * piece_length (torrent d)\<rparr>]"
  by (rule receive_all_piece [OF assms])

theorem blocks_assemble_piece_witness:
  "\<exists>d'. receive_all 1 [(1, [5]), (0, [4])] (Downloader two_piece_torrent ''me'' [] True) = (None, d')
     \<and> w_added (file_writer d') = [\<lparr>job_b = [4, 5], job_offset = 3\<rparr>]"
proof -
  let ?d = "Downloader two_piece_torrent ''me'' [] True"
  have t: "torrent ?d = two_piece_torrent" "current_piece_index ?d = - 1" "w_added (file_writer ?d) = []"
    by (simp_all add: Downloader_def Writer_def)
  have l: "is_last_piece two_piece_torrent 1"
    by (simp add: is_last_piece_def two_piece_torrent_def int_to_size_def size_of_def)
  have "piece_len two_piece_torrent 1 = Inr 2"
    using l by (simp add: piece_len_def c_rem_def) (simp add: two_piece_torrent_def)
  then have len: "piece_len (torrent ?d) 1 = Inr (int (length [4, 5 :: u8]))"
    by (simp add: t)
  let ?bs = "[(1, [5]), (0, [4])] :: (i32 \<times> buffer) list"
  have "valid_piece (torrent ?d) 1"
    unfolding t by (simp add: valid_piece_def two_piece_torrent_def in_int_range_def)
  moreover have "Calculate [4, 5] = piece_hashes (torrent ?d) ! nat (sint (1 :: i32))"
    unfolding t by (simp add: two_piece_torrent_def)
  moreover have "\<forall>b\<in>set ?bs. block_of [4, 5] b"
    by (simp add: block_of_def file_range_def)
  moreover have "sorted_wrt (\<lambda>a b. covered a \<inter> covered b = {}) ?bs"
    by (auto simp: covered_def)
  ultimately have "\<exists>d'. receive_all 1 ?bs ?d = (None, d') \<and> w_added (file_writer d') = w_added (file_writer ?d)
      @ [\<lparr>job_b = [4, 5], job_offset = sint (1 :: i32) * piece_length (torrent ?d)\<rparr>]"
    using t(2) len by (intro blocks_assemble_piece) simp_all
  then show ?thesis
    unfolding t by (simp add: two_piece_torrent_def)
qed

lemma two_piece_received:
  "\<exists>d'. receive_all 1 [(1, [5]), (0, [4])] (Downloader two_piece_torrent ''me'' [] True) = (None, d')
     \<and> w_added (file_writer d') = [\<lparr>job_b = [4, 5], job_offset = 3\<rparr>]"
proof -
  let ?d = "Downloader two_piece_torrent ''me'' [] True"
  have t: "torrent ?d = two_piece_torrent" "current_piece_index ?d = - 1" "w_added (file_writer ?d) = []"
    by (simp_all add: Downloader_def Writer_def)
  have l: "is_last_piece two_piece_torrent 1"
    by (simp add: is_last_piece_def two_piece_torrent_def int_to_size_def size_of_def)
  have "piece_len two_piece_torrent 1 = Inr 2"
    using l by (simp add: piece_len_def c_rem_def) (simp add: two_piece_torrent_def)
  then have len: "piece_len (torrent ?d) 1 = Inr (int (length [4, 5 :: u8]))"
    by (simp add: t)
  let ?bs = "[(1, [5]), (0, [4])] :: (i32 \<times> buffer) list"
  have "valid_piece (torrent ?d) 1"
    unfolding t by (simp add: valid_piece_def two_piece_torrent_def in_int_range_def)
  moreover have "Calculate [4, 5] = piece_hashes (torrent ?d) ! nat (sint (1 :: i32))"
    unfolding t by (simp add: two_piece_torrent_def)
  moreover have "\<forall>b\<in>set ?bs. block_of [4, 5] b"
    by (simp add: block_of_def file_range_def)
  moreover have "sorted_wrt (\<lambda>a b. covered a \<inter> covered b = {}) ?bs"
    by (auto simp: covered_def)
  ultimately have "\<exists>d'. receive_all 1 ?bs ?d = (None, d') \<and> w_added (file_writer d') = w_added (file_writer ?d)
      @ [\<lparr>job_b = [4, 5], job_offset = sint (1 :: i32) * piece_length (torrent ?d)\<rparr>]"
    using t(2) len by (intro receive_all_piece) simp_all
  then show ?thesis
    unfolding t by (simp add: two_piece_torrent_def)
qed

lemma receive_all_reachable:
  "receive_all i bs d = (None, d') \<Longrightarrow> \<forall>b\<in>set bs. length (snd b) < 2 ^ 63 \<Longrightarrow>
   reachable (downloader_init tf) downloader_step d \<Longrightarrow> reachable (downloader_init tf) downloader_step d'"
proof (induction i bs d rule: receive_all.induct)
  case (2 i off data bs d)
  obtain f d1 where r: "OnBlockReceived i off data d = (f, d1)" by (cases "OnBlockReceived i off data d")
  with 2(2) have "f = None" by (cases f) simp_all
  then have "downloader_step d d1"
    using downloader_step.block [of data i off d] r 2(3) by simp
  then show ?case
    using 2 r \<open>f = None\<close> reachable_step [OF 2(4)] by simp
qed simp

text \<open>
  C12: only verified data reach the file. In every reachable state, each job ever given to the
  writer is at the position of a piece of the torrent, and the SHA-1 text of its bytes is the
  expected hash of that piece.
\<close>

theorem only_verified_data_written:
  assumes "reachable (downloader_init tf) downloader_step d" and "j \<in> set (w_added (file_writer d))"
  shows "\<exists>i<length (piece_hashes tf). job_offset j = int i * piece_length tf
    \<and> Calculate (job_b j) = piece_hashes tf ! i"
  using downloader.inv_reachable [OF assms(1)] assms(2)
  by (simp add: downloader_inv_def verified_job_def)

theorem only_verified_data_written_witness:
  "\<exists>i<length (piece_hashes two_piece_torrent). 3 = int i * piece_length two_piece_torrent
    \<and> Calculate [4, 5] = piece_hashes two_piece_torrent ! i"
proof -
  obtain d' where d': "receive_all 1 [(1, [5]), (0, [4])] (Downloader two_piece_torrent ''me'' [] True) = (None, d')"
      "w_added (file_writer d') = [\<lparr>job_b = [4, 5], job_offset = 3\<rparr>]"
    using two_piece_received by blast
  have "reachable (downloader_init two_piece_torrent) downloader_step (Downloader two_piece_torrent ''me'' [] True)"
    by (rule reachable_fresh) (simp add: two_piece_torrent_def)
  from receive_all_reachable [OF d'(1) _ this]
  have "reachable (downloader_init two_piece_torrent) downloader_step d'" by simp
  from only_verified_data_written [OF this, of "\<lparr>job_b = [4, 5], job_offset = 3\<rparr>"] d'(2) show ?thesis
    by simp
qed

text \<open>
  Each piece is requested once, in order. The counter hands out its value if that is the
  index of a piece, -1 otherwise, and moves on, so it never returns to a piece that was skipped
  or lost.
\<close>

theorem next_piece_once:
  assumes "0 \<le> sint (next_req_index d)" and "length (piece_hashes (torrent d)) < 2 ^ 64"
  shows "GetNextPieceToRequest d =
    (if nat (sint (next_req_index d)) < length (piece_hashes (torrent d)) then next_req_index d else - 1,
     d\<lparr>next_req_index := next_req_index d + 1\<rparr>)"
proof -
  have "size_of (piece_hashes (torrent d)) \<le> int_to_size (next_req_index d)
      \<longleftrightarrow> length (piece_hashes (torrent d)) \<le> nat (sint (next_req_index d))"
    using assms by (simp add: word_le_nat_alt unat_size_of unat_int_to_size_nonneg)
  then show ?thesis
    by (auto simp: GetNextPieceToRequest_def Let_def)
qed

theorem next_piece_once_witness:
  "fst (GetNextPieceToRequest (Downloader two_piece_torrent ''me'' [] True)) = 0"
  using next_piece_once [of "Downloader two_piece_torrent ''me'' [] True"]
  by (simp add: Downloader_def two_piece_torrent_def)

text \<open>Blocks of any pieces, in the order in which the connections deliver them.\<close>

fun receive_blocks :: "(i32 \<times> i32 \<times> buffer) list \<Rightarrow> downloader \<Rightarrow> downloader act" where
  "receive_blocks [] d = (None, d)"
| "receive_blocks ((i, off, data) # bs) d = act_then (OnBlockReceived i off data d) (receive_blocks bs)"

definition short_block :: "torrent_file \<Rightarrow> i32 \<times> i32 \<times> buffer \<Rightarrow> bool" where
  "short_block tf b \<longleftrightarrow> 0 \<le> sint (fst (snd b))
     \<and> (\<exists>n<2 ^ 31. piece_len tf (fst b) = Inr (int n) \<and> length (snd (snd b)) < n)"

lemma short_block_lost:
  assumes "short_block (torrent d) (i, off, data)" and "current_piece_index d \<noteq> i"
  shows "\<exists>d'. OnBlockReceived i off data d = (None, d') \<and> file_writer d' = file_writer d
    \<and> torrent d' = torrent d \<and> current_piece_index d' = i"
proof -
  obtain n where n: "n < 2 ^ 31" "piece_len (torrent d) i = Inr (int n)" "length data < n" "0 \<le> sint off"
    using assms(1) by (auto simp: short_block_def)
  then obtain d1 where d1: "init_piece i d = (None, d1)" "piece_buffer d1 = replicate n 0"
      "piece_bytes_received d1 = 0" "torrent d1 = torrent d" "file_writer d1 = file_writer d" "current_piece_index d1 = i"
    using assms(2) by (simp add: init_piece_def Let_def vec_assign_def)
  obtain d2 where d2: "copy_block off data d1 = (None, d2)" "file_writer d2 = file_writer d1"
      "torrent d2 = torrent d1" "current_piece_index d2 = i" "length (piece_buffer d2) = n"
      "piece_bytes_received d2 \<in> {0, word_of_nat (length data)}"
  proof (cases "int_to_size off + size_of data \<le> size_of (piece_buffer d1) \<and> data \<noteq> []")
    case True
    then have "nat (sint off) + length data \<le> n"
      using unat_offset_plus_size [OF n(4), of data] n(1,3) d1(2) by (simp add: word_le_nat_alt unat_size_of)
    then show ?thesis
      using True n(4) d1
      by (intro that [of "d1\<lparr>piece_buffer := copy_into (piece_buffer d1) (nat (sint off)) data,
            piece_bytes_received := word_of_nat (length data)\<rparr>"])
        (simp_all add: copy_block_def copy_into_def)
  next
    case False
    then show ?thesis
      using d1 by (intro that [of d1]) (auto simp: copy_block_def)
  qed
  have "unat (int_to_size (piece_bytes_received d2)) < n"
    using d2(6) n(1,3) int_to_size_of_nat [of "length data"] int_to_size_of_nat [of 0] by auto
  then have "unat (int_to_size (piece_bytes_received (count_block data d2))) \<noteq> unat (size_of (piece_buffer d2))"
    using d2(5) n(1) by (simp add: unat_size_of)
  then have "verify_piece i (count_block data d2) = (None, count_block data d2)"
    by (auto simp: verify_piece_def)
  then show ?thesis
    using OnBlockReceived_unfold [OF d1(1) d2(1)] d1 d2 by simp
qed

text \<open>
  C14: two peers at once destroy each other's work. All connections share one piece buffer, and a
  block of another piece than the current one starts it afresh. Let every block have an
  offset that is not negative and be strictly shorter than its piece, which is of less than 2 GiB, and
  let no two blocks in a row be of the same piece, nor the first one of the current piece, as when two
  peers send, in turn, pieces that take several blocks. Then however many blocks arrive, all blocks of
  a piece among them, nothing is ever given to the writer.
\<close>

theorem alternating_pieces_lost:
  assumes "\<forall>b\<in>set bs. short_block (torrent d) b"
    and "successively (\<noteq>) (current_piece_index d # map fst bs)"
  shows "\<exists>d'. receive_blocks bs d = (None, d') \<and> file_writer d' = file_writer d"
  using assms
proof (induction bs arbitrary: d)
  case Nil
  then show ?case by simp
next
  case (Cons b bs)
  obtain i off data where b: "b = (i, off, data)" by (cases b)
  obtain d1 where d1: "OnBlockReceived i off data d = (None, d1)" "file_writer d1 = file_writer d"
      "torrent d1 = torrent d" "current_piece_index d1 = i"
    using short_block_lost [of d i off data] Cons.prems b by auto
  then have "\<exists>d'. receive_blocks bs d1 = (None, d') \<and> file_writer d' = file_writer d1"
    using Cons.prems b by (intro Cons.IH) simp_all
  then show ?case
    using d1 b by simp
qed

theorem alternating_pieces_lost_witness:
  "\<exists>d'. receive_blocks [(0, 0, [1]), (1, 0, [4]), (0, 1, [2, 3]), (1, 1, [5])]
      (Downloader two_piece_torrent ''me'' [] True) = (None, d') \<and> w_added (file_writer d') = []"
proof -
  have l: "piece_len two_piece_torrent 0 = Inr (int 3)" "piece_len two_piece_torrent 1 = Inr (int 2)"
    by (simp_all add: piece_len_def is_last_piece_def c_rem_def int_to_size_def size_of_def two_piece_torrent_def)
  have t: "torrent (Downloader two_piece_torrent ''me'' [] True) = two_piece_torrent"
      "current_piece_index (Downloader two_piece_torrent ''me'' [] True) = - 1"
      "w_added (file_writer (Downloader two_piece_torrent ''me'' [] True)) = []"
    by (simp_all add: Downloader_def Writer_def)
  have b: "short_block two_piece_torrent (0, 0, [1])" "short_block two_piece_torrent (1, 0, [4])"
      "short_block two_piece_torrent (0, 1, [2, 3])" "short_block two_piece_torrent (1, 1, [5])"
    unfolding short_block_def fst_conv snd_conv l by auto
  then show ?thesis
    using alternating_pieces_lost [of "[(0, 0, [1]), (1, 0, [4]), (0, 1, [2, 3]), (1, 1, [5])]"
        "Downloader two_piece_torrent ''me'' [] True"] t
    by auto
qed

end
