(* ===== verification/Connection.thy ===== *)
theory Connection
  imports Downloader Message
begin

text \<open>
  \<open>Connection\<close> of include/download/Connection.h and source/download/Connection.cpp: one
  peer. A connection works on its own fields and on the shared \<open>Downloader\<close>, so every
  operation is a function on the pair of both. \<open>ProcessBuffer\<close> consumes handshake and
  frames from the receive buffer until no complete one is left; an exception leaves it in the
  state it had reached, and \<open>OnReadyRead\<close> turns it into a closed socket. The argument
  \<open>k\<close> is what the kernel answers to \<open>send\<close> (theory \<open>Transport\<close>).
\<close>

section \<open>State\<close>

datatype conn_state = CONNECTING | HANDSHAKING | DOWNLOADING

text \<open>The states in the order in which a connection goes through them.\<close>

fun state_rank :: "conn_state \<Rightarrow> nat" where
  "state_rank CONNECTING = 0"
| "state_rank HANDSHAKING = 1"
| "state_rank DOWNLOADING = 2"

instantiation conn_state :: linorder
begin

definition less_eq_conn_state :: "conn_state \<Rightarrow> conn_state \<Rightarrow> bool" where
  "x \<le> y \<longleftrightarrow> state_rank x \<le> state_rank y"

definition less_conn_state :: "conn_state \<Rightarrow> conn_state \<Rightarrow> bool" where
  "x < y \<longleftrightarrow> state_rank x < state_rank y"

instance
proof
  fix x y :: conn_state
  assume "x \<le> y" "y \<le> x"
  then show "x = y"
    by (cases x; cases y) (simp_all add: less_eq_conn_state_def)
qed (auto simp: less_eq_conn_state_def less_conn_state_def)

end

lemma conn_state_bounds [simp]: "CONNECTING \<le> x" "x \<le> DOWNLOADING"
  by (cases x; simp add: less_eq_conn_state_def)+

record connection =
  c_peer :: peer
  socket :: "transport option"
  c_state :: conn_state
  choked :: bool
  handshake_done :: bool
  recv_buffer :: buffer
  current_piece :: i32
  block_offset :: i32
  peer_pieces :: "bool list"

type_synonym session = "connection \<times> downloader"

definition Connection :: "peer \<Rightarrow> connection" where
  "Connection p = \<lparr>c_peer = p, socket = None, c_state = CONNECTING, choked = True,
     handshake_done = False, recv_buffer = [], current_piece = - 1, block_offset = 0, peer_pieces = []\<rparr>"

definition GetSocketFd :: "connection \<Rightarrow> int" where
  "GetSocketFd c = (case socket c of None \<Rightarrow> - 1 | Some t \<Rightarrow> GetSocket t)"

definition HasPiece :: "connection \<Rightarrow> i32 \<Rightarrow> bool" where
  "HasPiece c i =
     (if int_to_size i \<ge> size_of (peer_pieces c) then False else peer_pieces c ! unat (int_to_size i))"

section \<open>Connecting\<close>

definition Connect :: "os_answers \<Rightarrow> connection \<Rightarrow> connection" where
  "Connect os c =
     (case snd (TcpClient (ip (c_peer c)) (uint (peer_port (c_peer c))) os) of
        Inl f \<Rightarrow> c\<lparr>socket := None\<rparr>
      | Inr t \<Rightarrow> c\<lparr>socket := Some (SetTimeout 2 t), c_state := CONNECTING\<rparr>)"

definition OnReadyWrite :: "kernel \<Rightarrow> session \<Rightarrow> session" where
  "OnReadyWrite k s =
     (case s of (c, d) \<Rightarrow>
      case socket c of
        None \<Rightarrow> (c, d)
      | Some t \<Rightarrow>
          if c_state c = CONNECTING then
            (case TcpSend k t (BuildHandshake (torrent d) (my_id d)) of
               Inl f \<Rightarrow> (c\<lparr>socket := None\<rparr>, d)
             | Inr t' \<Rightarrow> (c\<lparr>socket := Some t', c_state := HANDSHAKING\<rparr>, d))
          else (c, d))"

text \<open>\<open>socket->Send(data)\<close>.\<close>

definition conn_send :: "kernel \<Rightarrow> buffer \<Rightarrow> session \<Rightarrow> session act" where
  "conn_send k data s =
     (case s of (c, d) \<Rightarrow>
      case socket c of
        None \<Rightarrow> (Some (Undefined Null_Deref), (c, d))
      | Some t \<Rightarrow>
          (case TcpSend k t data of
             Inl f \<Rightarrow> (Some f, (c, d))
           | Inr t' \<Rightarrow> (None, (c\<lparr>socket := Some t'\<rparr>, d))))"

section \<open>Requesting blocks\<close>

text \<open>
  The loop that looks for a piece the peer has: true when \<open>current_piece\<close> was set. Each
  turn takes the next index from the downloader, and an index the peer lacks is dropped.
\<close>

lemma GetNextPieceToRequest_torrent: "(i, d') = GetNextPieceToRequest d \<Longrightarrow> torrent d' = torrent d"
  using GetNextPieceToRequest_frame(1) [of d] by (metis prod.sel(2))

function find_piece :: "nat \<Rightarrow> connection \<Rightarrow> downloader \<Rightarrow> bool \<times> session" where
  "find_piece attempts c d =
     (case GetNextPieceToRequest d of (candidate, d') \<Rightarrow>
        if candidate = - 1 then (False, (c, d'))
        else if HasPiece c candidate then
          (True, (c\<lparr>current_piece := candidate, block_offset := 0\<rparr>, d'))
        else if attempts + 1 > length (piece_hashes (torrent d)) then (False, (c, d'))
        else find_piece (attempts + 1) c d')"
  by pat_completeness auto
termination
  by (relation "measure (\<lambda>(attempts, c, d). length (piece_hashes (torrent d)) + 1 - attempts)")
     (auto dest: GetNextPieceToRequest_torrent)

declare find_piece.simps [simp del]

text \<open>
  The request itself. \<open>block_offset + req_len\<close> is an unsigned 32-bit sum, compared with
  the 64-bit piece length.
\<close>

definition request_len :: "i32 \<Rightarrow> int \<Rightarrow> u32" where
  "request_len off plen =
     (if int (unat (off + 16384)) > plen then word_of_int (plen - sint off) else 16384)"

definition finish_piece :: "int \<Rightarrow> session \<Rightarrow> session act" where
  "finish_piece plen s =
     (case s of (c, d) \<Rightarrow>
        (None, (if sint (block_offset c) \<ge> plen then c\<lparr>current_piece := - 1\<rparr> else c, d)))"

definition request_block :: "kernel \<Rightarrow> session \<Rightarrow> session act" where
  "request_block k s =
     (case s of (c, d) \<Rightarrow>
      case piece_len (torrent d) (current_piece c) of
        Inl f \<Rightarrow> (Some f, (c, d))
      | Inr plen \<Rightarrow>
          if sint (block_offset c) < plen then
            let req_len = request_len (block_offset c) plen
            in act_then (conn_send k (BuildRequest (current_piece c) (block_offset c) req_len) (c, d))
                 (\<lambda>(c, d). finish_piece plen (c\<lparr>block_offset := block_offset c + req_len\<rparr>, d))
          else finish_piece plen (c, d))"

definition RequestNextBlock :: "kernel \<Rightarrow> session \<Rightarrow> session act" where
  "RequestNextBlock k s =
     (case s of (c, d) \<Rightarrow>
        if choked c then (None, (c, d))
        else if current_piece c = - 1 then
          (case find_piece 0 c d of
             (True, s') \<Rightarrow> request_block k s'
           | (False, s') \<Rightarrow> (None, s'))
        else request_block k (c, d))"

section \<open>Handling messages\<close>

text \<open>The two loops over the bitfield, byte by byte and from bit 7 down to bit 0.\<close>

definition set_piece :: "u8 \<Rightarrow> nat \<Rightarrow> bool list \<Rightarrow> nat \<Rightarrow> bool list" where
  "set_piece byte i pp b =
     (if drop_bit (7 - b) byte AND 1 \<noteq> 0 then
        let piece_index = i * 8 + b
        in if piece_index < length pp then pp[piece_index := True] else pp
      else pp)"

definition apply_bitfield :: "nat \<Rightarrow> buffer \<Rightarrow> bool list \<Rightarrow> bool list" where
  "apply_bitfield n payload pp =
     foldl (\<lambda>pp i. foldl (set_piece (payload ! i) i) pp [0..<8]) (vec_resize n False pp) [0..<length payload]"

definition handle_message :: "kernel \<Rightarrow> u8 \<Rightarrow> buffer \<Rightarrow> session \<Rightarrow> session act" where
  "handle_message k mid payload s =
     (case s of (c, d) \<Rightarrow>
        if mid = UNCHOKE then RequestNextBlock k (c\<lparr>choked := False\<rparr>, d)
        else if mid = BITFIELD then
          (None, (c\<lparr>peer_pieces := apply_bitfield (length (piece_hashes (torrent d))) payload (peer_pieces c)\<rparr>, d))
        else if mid = CHOKE then (None, (c\<lparr>choked := True\<rparr>, d))
        else if mid = PIECE then
          (case ReadBE32 payload 0 of
             Inl f \<Rightarrow> (Some f, (c, d))
           | Inr index \<Rightarrow>
               (case ReadBE32 payload 4 of
                  Inl f \<Rightarrow> (Some f, (c, d))
                | Inr off \<Rightarrow>
                    (case OnBlockReceived index off (drop 8 payload) d of
                       (Some f, d') \<Rightarrow> (Some f, (c, d'))
                     | (None, d') \<Rightarrow> RequestNextBlock k (c, d'))))
        else (None, (c, d)))"

subsection \<open>The handlers do not touch the receive buffer\<close>

definition set_buf :: "buffer \<Rightarrow> session \<Rightarrow> session" where
  "set_buf b s = (fst s\<lparr>recv_buffer := b\<rparr>, snd s)"

abbreviation buf :: "session \<Rightarrow> buffer" where
  "buf s \<equiv> recv_buffer (fst s)"

lemma set_buf_simps [simp]:
  "set_buf b (c, d) = (c\<lparr>recv_buffer := b\<rparr>, d)"
  "buf (set_buf b s) = b"
  "set_buf a (set_buf b s) = set_buf a s"
  "set_buf (buf s) s = s"
  by (simp_all add: set_buf_def)

text \<open>An operation that commutes with replacing the receive buffer.\<close>

definition ignores_buf :: "(session \<Rightarrow> session act) \<Rightarrow> bool" where
  "ignores_buf f \<longleftrightarrow> (\<forall>b s. f (set_buf b s) = apsnd (set_buf b) (f s))"

lemma ignores_bufD: "ignores_buf f \<Longrightarrow> f (set_buf b s) = apsnd (set_buf b) (f s)"
  unfolding ignores_buf_def by blast

lemma ignores_buf_keeps: "ignores_buf f \<Longrightarrow> buf (snd (f s)) = buf s"
  using ignores_bufD [of f "buf s" s] by (metis set_buf_simps(2,4) snd_apsnd)

lemma ignores_buf_then:
  "ignores_buf f \<Longrightarrow> ignores_buf g \<Longrightarrow> ignores_buf (\<lambda>s. act_then (f s) g)"
  unfolding ignores_buf_def
  by (auto simp: act_then_def split: option.splits prod.splits)

lemma conn_send_ignores: "ignores_buf (conn_send k data)"
  by (auto simp: ignores_buf_def conn_send_def set_buf_def split: option.split sum.split)

lemma finish_piece_ignores: "ignores_buf (finish_piece plen)"
  by (auto simp: ignores_buf_def finish_piece_def set_buf_def)

lemma request_block_ignores: "ignores_buf (request_block k)"
proof -
  have "request_block k (set_buf b (c, d)) = apsnd (set_buf b) (request_block k (c, d))" for b c d
    using conn_send_ignores [of k]
    by (auto simp: request_block_def finish_piece_def Let_def conn_send_def set_buf_def
        split: sum.split option.split)
  then show ?thesis
    by (simp add: ignores_buf_def)
qed

lemma find_piece_set_buf:
  "find_piece a (c\<lparr>recv_buffer := b\<rparr>) d = apsnd (set_buf b) (find_piece a c d)"
proof (induction a c d rule: find_piece.induct)
  case (1 a c d)
  obtain i d' where g: "GetNextPieceToRequest d = (i, d')" by (cases "GetNextPieceToRequest d")
  have h: "HasPiece (c\<lparr>recv_buffer := b\<rparr>) i = HasPiece c i"
    by (simp add: HasPiece_def)
  show ?case
    using 1 [OF g [symmetric]] by (simp add: find_piece.simps [of a _ d] g h)
qed

lemma RequestNextBlock_ignores: "ignores_buf (RequestNextBlock k)"
proof -
  have "RequestNextBlock k (set_buf b (c, d)) = apsnd (set_buf b) (RequestNextBlock k (c, d))" for b c d
    using ignores_bufD [OF request_block_ignores, of k b]
    by (auto simp: RequestNextBlock_def find_piece_set_buf split: prod.split bool.split)
  then show ?thesis
    by (simp add: ignores_buf_def)
qed

lemma handle_message_ignores: "ignores_buf (handle_message k mid payload)"
proof -
  have r: "RequestNextBlock k (c\<lparr>recv_buffer := b\<rparr>, d) = apsnd (set_buf b) (RequestNextBlock k (c, d))" for b c d
    using ignores_bufD [OF RequestNextBlock_ignores, of k b "(c, d)"] by simp
  have r': "RequestNextBlock k (c\<lparr>recv_buffer := b, choked := x\<rparr>, d)
      = apsnd (set_buf b) (RequestNextBlock k (c\<lparr>choked := x\<rparr>, d))" for b c d x
  proof -
    have "c\<lparr>recv_buffer := b, choked := x\<rparr> = c\<lparr>choked := x, recv_buffer := b\<rparr>"
      by simp
    then show ?thesis by (simp only: r)
  qed
  have "handle_message k mid payload (set_buf b (c, d)) = apsnd (set_buf b) (handle_message k mid payload (c, d))"
    for b c d
    by (auto simp: handle_message_def r r' split: sum.split prod.split option.split)
  then show ?thesis
    by (simp add: ignores_buf_def)
qed

section \<open>Digesting the receive buffer\<close>

lemma act_then_cong [fundef_cong]:
  "a = a' \<Longrightarrow> (\<And>s. a' = (None, s) \<Longrightarrow> f s = f' s) \<Longrightarrow> act_then a f = act_then a' f'"
  by (cases a') (auto simp: act_then_def split: option.split)

lemma conn_send_buf: "conn_send k data s = (f, t) \<Longrightarrow> buf t = buf s"
  using ignores_buf_keeps [OF conn_send_ignores, of k data s] by simp

lemma handle_message_buf: "handle_message k mid payload s = (f, t) \<Longrightarrow> buf t = buf s"
  using ignores_buf_keeps [OF handle_message_ignores, of k mid payload s] by simp

text \<open>
  The loop of \<open>ProcessBuffer\<close>. \<open>4 + len\<close> is a 32-bit sum: for the four largest
  lengths it wraps below 4, the test for a complete message passes, and the body is read past
  the end of the buffer.
\<close>

function ProcessBuffer :: "kernel \<Rightarrow> session \<Rightarrow> session act" where
  "ProcessBuffer k s =
     (if c_state (fst s) = HANDSHAKING then
        if length (buf s) < 68 then (None, s)
        else act_then
               (conn_send k BuildInterested
                  ((fst s)\<lparr>recv_buffer := drop 68 (buf s), handshake_done := True, c_state := DOWNLOADING\<rparr>, snd s))
               (ProcessBuffer k)
      else if length (buf s) < 4 then (None, s)
      else
        let len = ReadMessageLength (buf s)
        in if len = 0 then ProcessBuffer k (set_buf (drop 4 (buf s)) s)
           else if length (buf s) < unat (4 + len) then (None, s)
           else if length (buf s) < 4 + unat len then (Some (Undefined Out_Of_Bounds), s)
           else
             let mid = buf s ! 4;
                 payload = (if unat len > 1 then take (unat len - 1) (drop 5 (buf s)) else [])
             in act_then (handle_message k mid payload (set_buf (drop (4 + unat len) (buf s)) s))
                  (ProcessBuffer k))"
  by pat_completeness auto
termination
  by (relation "measure (\<lambda>(k, s). length (buf s))") (auto dest!: conn_send_buf handle_message_buf)

declare ProcessBuffer.simps [simp del]

definition OnReadyRead :: "kernel \<Rightarrow> recv_answer \<Rightarrow> session \<Rightarrow> session act" where
  "OnReadyRead k a s =
     (case s of (c, d) \<Rightarrow>
      if socket c = None then (None, (c, d))
      else
        (case TcpReceive 8192 a of
           Inl f \<Rightarrow> (None, (c\<lparr>socket := None\<rparr>, d))
         | Inr chunk \<Rightarrow>
             if chunk = [] then (None, (c\<lparr>socket := None\<rparr>, d))
             else
               (case ProcessBuffer k (c\<lparr>recv_buffer := recv_buffer c @ chunk\<rparr>, d) of
                  (None, s') \<Rightarrow> (None, s')
                | (Some (Throw e), (c', d')) \<Rightarrow> (None, (c'\<lparr>socket := None\<rparr>, d'))
                | (Some (Undefined u), s') \<Rightarrow> (Some (Undefined u), s'))))"

end
