(* ===== verification/Connection_Props.thy ===== *)
theory Connection_Props
  imports Connection Downloader_Props
begin

text \<open>
  What \<open>Connection\<close> guarantees: TCP may cut the stream anywhere, the messages handled are
  the frames of the stream in order; the requests tile a piece; a bitfield is read bit by bit; a
  piece the peer has is found. And what a peer can do to it.
\<close>

section \<open>Reassembly of the stream\<close>

lemma ReadMessageLength_append: "4 \<le> length b \<Longrightarrow> ReadMessageLength (b @ c) = ReadMessageLength b"
  by (cases b) (auto simp: ReadMessageLength_def nth_append)

text \<open>One turn of the loop, by cases.\<close>

lemma ProcessBuffer_handshake:
  "c_state (fst s) = HANDSHAKING \<Longrightarrow> 68 \<le> length (buf s) \<Longrightarrow>
   ProcessBuffer k s = act_then
     (conn_send k BuildInterested
        (set_buf (drop 68 (buf s)) ((fst s)\<lparr>handshake_done := True, c_state := DOWNLOADING\<rparr>, snd s)))
     (ProcessBuffer k)"
proof -
  have swap: "c\<lparr>recv_buffer := b, handshake_done := True, c_state := DOWNLOADING\<rparr>
      = c\<lparr>handshake_done := True, c_state := DOWNLOADING, recv_buffer := b\<rparr>" for c :: connection and b
    by simp
  assume "c_state (fst s) = HANDSHAKING" "68 \<le> length (buf s)"
  then show ?thesis
    by (simp add: ProcessBuffer.simps [of k s] swap)
qed

lemma ProcessBuffer_keep_alive:
  "c_state (fst s) \<noteq> HANDSHAKING \<Longrightarrow> 4 \<le> length (buf s) \<Longrightarrow> ReadMessageLength (buf s) = 0 \<Longrightarrow>
   ProcessBuffer k s = ProcessBuffer k (set_buf (drop 4 (buf s)) s)"
  by (simp add: ProcessBuffer.simps [of k s])

definition message_of :: "buffer \<Rightarrow> nat \<Rightarrow> buffer" where
  "message_of b n = take n (drop 4 b)"

lemma message_of_append: "4 + n \<le> length b \<Longrightarrow> message_of (b @ c) n = message_of b n"
  by (simp add: message_of_def)

lemma ProcessBuffer_message:
  assumes "c_state (fst s) \<noteq> HANDSHAKING" and "n = unat (ReadMessageLength (buf s))" and "n \<noteq> 0"
    and "unat (4 + ReadMessageLength (buf s)) \<le> length (buf s)" and "4 + n \<le> length (buf s)"
  shows "ProcessBuffer k s = act_then
     (handle_message k (hd (message_of (buf s) n)) (tl (message_of (buf s) n)) (set_buf (drop (4 + n) (buf s)) s))
     (ProcessBuffer k)"
proof -
  have "drop 4 (buf s) = buf s ! 4 # drop 5 (buf s)"
    using assms(3,5) Cons_nth_drop_Suc [of 4 "buf s"] by simp
  then have "message_of (buf s) n = buf s ! 4 # take (n - 1) (drop 5 (buf s))"
    using assms(3) by (cases n) (simp_all add: message_of_def)
  moreover have "(if n > 1 then take (n - 1) (drop 5 (buf s)) else []) = take (n - 1) (drop 5 (buf s))"
    using assms(3) by simp
  moreover have "ReadMessageLength (buf s) \<noteq> 0"
    using assms(2,3) by auto
  ultimately show ?thesis
    using assms by (simp add: ProcessBuffer.simps [of k s] Let_def not_less)
qed

text \<open>When the loop waits for more data.\<close>

definition waiting :: "session \<Rightarrow> bool" where
  "waiting s \<longleftrightarrow>
     (if c_state (fst s) = HANDSHAKING then length (buf s) < 68
      else length (buf s) < 4 \<or>
        ReadMessageLength (buf s) \<noteq> 0 \<and> length (buf s) < unat (4 + ReadMessageLength (buf s)))"

lemma ProcessBuffer_waiting: "waiting s \<Longrightarrow> ProcessBuffer k s = (None, s)"
  by (auto simp: waiting_def ProcessBuffer.simps [of k s] Let_def split: if_splits)

lemma ProcessBuffer_cases [case_names waiting handshake keep_alive overflow message]:
  obtains "waiting s"
  | "c_state (fst s) = HANDSHAKING" "68 \<le> length (buf s)"
  | "c_state (fst s) \<noteq> HANDSHAKING" "4 \<le> length (buf s)" "ReadMessageLength (buf s) = 0"
  | "c_state (fst s) \<noteq> HANDSHAKING" "ProcessBuffer k s = (Some (Undefined Out_Of_Bounds), s)"
  | n where "c_state (fst s) \<noteq> HANDSHAKING" "n = unat (ReadMessageLength (buf s))" "n \<noteq> 0"
      "4 \<le> length (buf s)"
      "unat (4 + ReadMessageLength (buf s)) \<le> length (buf s)" "4 + n \<le> length (buf s)"
  by (cases "waiting s"; cases "c_state (fst s) = HANDSHAKING"; cases "length (buf s) < 4";
      cases "ReadMessageLength (buf s) = 0";
      cases "length (buf s) < 4 + unat (ReadMessageLength (buf s))")
     (auto simp: waiting_def ProcessBuffer.simps [of k s] Let_def not_less unat_eq_zero)

lemma ignores_buf_append:
  assumes "ignores_buf f" and "f s = (e, t)"
  shows "f (set_buf (buf s @ ext) s) = (e, set_buf (buf t @ ext) t)"
proof -
  have "buf t = buf s"
    using ignores_buf_keeps [OF assms(1), of s] assms(2) by simp
  then show ?thesis
    using ignores_bufD [OF assms(1), of "buf s @ ext" s] assms(2) by simp
qed

text \<open>More data at the end of the buffer does not change what happens to the data before it.\<close>

lemma ProcessBuffer_more:
  "ProcessBuffer k s = (e, t) \<Longrightarrow> \<not> undefined_fault e \<Longrightarrow>
   ProcessBuffer k (set_buf (buf s @ ext) s) =
     (if e = None then ProcessBuffer k (set_buf (buf t @ ext) t) else (e, set_buf (buf t @ ext) t))"
proof (induction "length (buf s)" arbitrary: s rule: less_induct)
  case less
  have step: ?case
    if g: "ignores_buf g" and p: "\<And>ext. ProcessBuffer k (set_buf (buf s @ ext) s)
        = act_then (g (set_buf (r @ ext) s')) (ProcessBuffer k)"
      and l: "length r < length (buf s)" for g r s'
  proof -
    obtain f u where u: "g (set_buf r s') = (f, u)" by (cases "g (set_buf r s')")
    have b: "buf u = r"
      using ignores_buf_keeps [OF g, of "set_buf r s'"] u by simp
    have m: "g (set_buf (r @ ext) s') = (f, set_buf (buf u @ ext) u)"
      using ignores_buf_append [OF g u, of ext] by simp
    have q: "act_then (f, u) (ProcessBuffer k) = (e, t)"
      using less.prems(1) p [of "[]"] u by simp
    show ?thesis
    proof (cases f)
      case None
      then show ?thesis
        using less.hyps [of u] less.prems(2) l b q m p [of ext] by simp
    next
      case (Some x)
      then show ?thesis using p [of ext] q m by (auto split: if_splits)
    qed
  qed
  show ?case
  proof (cases rule: ProcessBuffer_cases [where k = k and s = s])
    case waiting
    then show ?thesis
      using less.prems by (simp add: ProcessBuffer_waiting)
  next
    case handshake
    show ?thesis
      by (rule step [OF conn_send_ignores, of _ BuildInterested "drop 68 (buf s)"
            "((fst s)\<lparr>handshake_done := True, c_state := DOWNLOADING\<rparr>, snd s)"])
        (use handshake in \<open>simp_all add: ProcessBuffer_handshake set_buf_def\<close>)
  next
    case keep_alive
    have i: "ignores_buf (Pair None)"
      by (simp add: ignores_buf_def)
    have p: "ProcessBuffer k (set_buf (buf s @ ext) s) = ProcessBuffer k (set_buf (drop 4 (buf s) @ ext) s)" for ext
      using keep_alive ProcessBuffer_keep_alive [of "set_buf (buf s @ ext) s" k]
      by (simp add: ReadMessageLength_append set_buf_def)
    show ?thesis
      by (rule step [OF i, of "drop 4 (buf s)" s]) (use keep_alive p in simp_all)
  next
    case overflow
    then show ?thesis using less.prems by auto
  next
    case (message n)
    let ?m = "message_of (buf s) n"
    have p: "ProcessBuffer k (set_buf (buf s @ ext) s) = act_then
        (handle_message k (hd ?m) (tl ?m) (set_buf (drop (4 + n) (buf s) @ ext) s)) (ProcessBuffer k)" for ext
      using message ProcessBuffer_message [of "set_buf (buf s @ ext) s" n k]
      by (simp add: ReadMessageLength_append message_of_append set_buf_def)
    show ?thesis
      by (rule step [OF handle_message_ignores p]) (use message in simp)
  qed
qed


section \<open>The events of a connection\<close>

text \<open>The reads of a connection in order, each with the bytes the kernel delivers.\<close>

fun read_chunks :: "kernel \<Rightarrow> buffer list \<Rightarrow> session \<Rightarrow> session act" where
  "read_chunks k [] s = (None, s)"
| "read_chunks k (b # bs) s = act_then (OnReadyRead k (Some b) s) (read_chunks k bs)"

definition same_but_buf :: "session \<Rightarrow> session \<Rightarrow> bool" where
  "same_but_buf s t \<longleftrightarrow> set_buf [] s = set_buf [] t"

lemma same_but_buf_set_buf [simp]: "same_but_buf s (set_buf b s)" "same_but_buf (set_buf b s) s"
  by (simp_all add: same_but_buf_def)

lemma read_chunks_closed: "socket (fst s) = None \<Longrightarrow> read_chunks k bs s = (None, s)"
  by (induction bs) (auto simp: OnReadyRead_def split: prod.split)

text \<open>\<open>OnReadyRead\<close> in terms of the buffer, for a read that delivers bytes.\<close>

definition close_on_throw :: "session act \<Rightarrow> session act" where
  "close_on_throw r =
     (case r of (Some (Throw e), s) \<Rightarrow> (None, (fst s)\<lparr>socket := None\<rparr>, snd s) | _ \<Rightarrow> r)"

lemma close_on_throw_undefined: "fst r = Some (Undefined u) \<Longrightarrow> fst (close_on_throw r) = Some (Undefined u)"
  by (cases r) (simp add: close_on_throw_def)

lemma OnReadyRead_Some:
  "socket (fst s) \<noteq> None \<Longrightarrow> b \<noteq> [] \<Longrightarrow>
   OnReadyRead k (Some b) s = close_on_throw (ProcessBuffer k (set_buf (buf s @ b) s))"
  by (cases s) (auto simp: OnReadyRead_def close_on_throw_def split: prod.split option.split fault.split)


subsection \<open>What the handlers keep\<close>

definition keeps :: "session \<Rightarrow> session \<Rightarrow> bool" where
  "keeps s t \<longleftrightarrow> c_state (fst t) = c_state (fst s) \<and> handshake_done (fst t) = handshake_done (fst s)
     \<and> (socket (fst t) = None \<longleftrightarrow> socket (fst s) = None)
     \<and> torrent (snd t) = torrent (snd s)"

lemma keeps_trans: "keeps s t \<Longrightarrow> keeps t u \<Longrightarrow> keeps s u"
  by (simp add: keeps_def)

lemma keeps_then: "keeps s (snd a) \<Longrightarrow> (\<And>t. keeps s t \<Longrightarrow> keeps s (snd (f t))) \<Longrightarrow> keeps s (snd (act_then a f))"
  by (auto simp: act_then_def split: prod.split option.split)

lemma conn_send_keeps: "keeps s (snd (conn_send k data s))"
  by (auto simp: conn_send_def keeps_def split: prod.split option.split sum.split)

lemma finish_piece_keeps: "keeps s (snd (finish_piece plen s))"
  by (auto simp: finish_piece_def keeps_def split: prod.split)

lemma request_block_keeps: "keeps s (snd (request_block k s))"
proof -
  have f: "keeps s (snd (finish_piece n t))" if "keeps s t" for n t
    using that finish_piece_keeps keeps_trans by blast
  have "keeps s (snd (act_then (conn_send k data s)
      (\<lambda>(c, d). finish_piece n (c\<lparr>block_offset := block_offset c + x\<rparr>, d))))" for data n x
    by (rule keeps_then [OF conn_send_keeps], clarsimp split: prod.split, rule f) (simp add: keeps_def)
  then show ?thesis
    using f [of s] by (cases s) (auto simp: request_block_def Let_def keeps_def split: sum.split)
qed

lemma find_piece_keeps: "keeps (c, d) (snd (find_piece a c d))"
proof (induction a c d rule: find_piece.induct)
  case (1 a c d)
  obtain i d' where g: "GetNextPieceToRequest d = (i, d')" by (cases "GetNextPieceToRequest d")
  have "torrent d' = torrent d"
    using GetNextPieceToRequest_torrent [OF g [symmetric]] .
  then show ?case
    using 1 [OF g [symmetric]] by (auto simp: find_piece.simps [of a c d] g keeps_def)
qed

lemma RequestNextBlock_keeps: "keeps s (snd (RequestNextBlock k s))"
proof (cases s)
  case (Pair c d)
  obtain ok u where u: "find_piece 0 c d = (ok, u)" by (cases "find_piece 0 c d")
  then have "keeps s u"
    using find_piece_keeps [of c d 0] Pair by simp
  moreover have "keeps s s" by (simp add: keeps_def)
  ultimately show ?thesis
    using keeps_trans [OF _ request_block_keeps] u
    by (auto simp: RequestNextBlock_def Pair split: bool.split)
qed

lemma handle_message_keeps: "keeps s (snd (handle_message k mid payload s))"
proof (cases s)
  case (Pair c d)
  have r: "keeps (c, d) (snd (RequestNextBlock k t))" if "keeps (c, d) t" for t
    using that RequestNextBlock_keeps keeps_trans by blast
  show ?thesis
    using OnBlockReceived_frame(1) [of _ _ _ d]
    by (auto simp: handle_message_def Pair split: sum.split prod.split option.split intro!: r)
      (auto simp: keeps_def dest!: arg_cong [where f = "torrent \<circ> snd"])
qed


text \<open>
  The complete messages at the front of a buffer, and those that \<open>ProcessBuffer\<close> finds in
  the receive buffer of a connection. A keep-alive is not counted.
\<close>

function messages_in :: "buffer \<Rightarrow> nat" where
  "messages_in b =
     (if length b < 4 then 0
      else let len = unat (ReadMessageLength b)
        in if len = 0 then messages_in (drop 4 b)
           else if length b < 4 + len then 0
           else Suc (messages_in (drop (4 + len) b)))"
  by pat_completeness auto
termination
  by (relation "measure length") auto

declare messages_in.simps [simp del]

definition messages_due :: "session \<Rightarrow> nat" where
  "messages_due s = messages_in (if c_state (fst s) = HANDSHAKING then drop 68 (buf s) else buf s)"

lemma messages_due_set_buf:
  "messages_due (set_buf b s) = messages_in (if c_state (fst s) = HANDSHAKING then drop 68 b else b)"
  by (simp add: messages_due_def set_buf_def)

lemma messages_in_le: "messages_in b \<le> length b"
proof (induction b rule: messages_in.induct)
  case (1 b)
  show ?case
    using 1 by (subst messages_in.simps) (fastforce simp: Let_def)
qed

text \<open>
  What a predicate on a connection and the downloader must satisfy to hold after any read, when
  it may also depend on the number of messages handled so far: it does not depend on the receive
  buffer, and the three things a read can do keep it, or establish \<open>left\<close> when they throw.
  The messages handled are among those complete in the buffer.
\<close>

locale counted_invariant =
  fixes k :: kernel
    and holds :: "nat \<Rightarrow> session \<Rightarrow> bool"
    and left :: "nat \<Rightarrow> session \<Rightarrow> bool"
  assumes counted_buf: "holds n s \<Longrightarrow> holds n (set_buf b s)"
    and left_buf: "left n s \<Longrightarrow> left n (set_buf b s)"
    and counted_handshake: "holds n (c, d) \<Longrightarrow> \<not> undefined_fault e \<Longrightarrow> c_state c = HANDSHAKING \<Longrightarrow>
      conn_send k BuildInterested (c\<lparr>handshake_done := True, c_state := DOWNLOADING\<rparr>, d) = (e, t) \<Longrightarrow>
      (if e = None then holds n t else left n t)"
    and counted_message: "holds n s \<Longrightarrow> length payload < 2 ^ 32 \<Longrightarrow> \<not> undefined_fault e \<Longrightarrow> c_state (fst s) \<noteq> HANDSHAKING \<Longrightarrow>
      handle_message k mid payload s = (e, t) \<Longrightarrow> (if e = None then holds (Suc n) t else left (Suc n) t)"
begin

lemma ProcessBuffer_counts:
  "holds n s \<Longrightarrow> ProcessBuffer k s = (e, t) \<Longrightarrow> \<not> undefined_fault e \<Longrightarrow>
   \<exists>n'\<le>n + messages_due s. if e = None then holds n' t else left n' t"
proof (induction "length (buf s)" arbitrary: n s rule: less_induct)
  case less
  have step: ?case
    if g: "g = (f, u)" and p: "ProcessBuffer k s = act_then g (ProcessBuffer k)"
      and h: "\<not> undefined_fault f \<Longrightarrow> if f = None then holds n' u else left n' u" and l: "length (buf u) < length (buf s)"
      and n: "n' + messages_due u \<le> n + messages_due s" for g f u n'
  proof (cases f)
    case None
    then have "ProcessBuffer k u = (e, t)" "holds n' u"
      using less.prems(2) h by (simp_all add: p g)
    then obtain n'' where "n'' \<le> n' + messages_due u" "if e = None then holds n'' t else left n'' t"
      using less.hyps [OF l, of n'] less.prems(3) by blast
    then show ?thesis
      using n order_trans by blast
  next
    case (Some flt)
    then have "t = u" "e = f" "\<not> undefined_fault f"
      using less.prems(2,3) by (auto simp: p g)
    moreover have "n' \<le> n + messages_due s"
      using n by simp
    ultimately show ?thesis
      using h by auto
  qed
  show ?case
  proof (cases rule: ProcessBuffer_cases [where k = k and s = s])
    case waiting
    then show ?thesis
      using less.prems by (intro exI [of _ n]) (simp add: ProcessBuffer_waiting)
  next
    case handshake
    obtain c d where s: "s = (c, d)" by (cases s)
    let ?u = "(c\<lparr>handshake_done := True, c_state := DOWNLOADING\<rparr>, d)"
    obtain f u where u: "conn_send k BuildInterested ?u = (f, u)"
      by (cases "conn_send k BuildInterested ?u")
    then have g: "conn_send k BuildInterested (set_buf (drop 68 (buf s)) ?u) = (f, set_buf (drop 68 (buf s)) u)"
      using ignores_bufD [OF conn_send_ignores] by (metis apsnd_conv)
    have h: "if f = None then holds n (set_buf b u) else left n (set_buf b u)" if "\<not> undefined_fault f" for b
    proof -
      have "if f = None then holds n u else left n u"
        using counted_handshake [OF _ that _ u, of n] less.prems(1) handshake(1) by (simp add: s)
      then show ?thesis
        by (cases f) (simp_all add: counted_buf left_buf)
    qed
    have "c_state (fst u) = DOWNLOADING"
      using conn_send_keeps [of ?u k BuildInterested] by (simp add: u keeps_def)
    then show ?thesis
      using h handshake ProcessBuffer_handshake [OF handshake, of k]
      by (intro step [OF g, of n]) (simp_all add: s messages_due_set_buf, simp add: messages_due_def)
  next
    case keep_alive
    then have "messages_due (set_buf (drop 4 (buf s)) s) = messages_due s"
      by (simp add: messages_due_def set_buf_def messages_in.simps [of "buf s"])
    then show ?thesis
      using keep_alive counted_buf [OF less.prems(1)] ProcessBuffer_keep_alive [OF keep_alive, of k]
      by (intro step [OF refl, of None "set_buf (drop 4 (buf s)) s" n]) simp_all
  next
    case overflow
    then show ?thesis using less.prems by auto
  next
    case (message m)
    let ?m = "message_of (buf s) m" and ?u = "set_buf (drop (4 + m) (buf s)) s"
    obtain f u where u: "handle_message k (hd ?m) (tl ?m) ?u = (f, u)"
      by (cases "handle_message k (hd ?m) (tl ?m) ?u")
    have b: "length (buf u) < length (buf s)" "buf u = drop (4 + m) (buf s)"
      using handle_message_buf [OF u] message(4) by simp_all
    have "c_state (fst u) = c_state (fst s)"
      using handle_message_keeps [of ?u k "hd ?m" "tl ?m"] unfolding u by (simp add: keeps_def set_buf_def)
    then have d: "Suc n + messages_due u \<le> n + messages_due s"
      using message b(2) by (simp add: messages_due_def messages_in.simps [of "buf s"])
    have "m < 2 ^ 32"
      using unsigned_less [of "ReadMessageLength (buf s)", where ?'a = nat] message(2) by simp
    then have "length (tl ?m) < 2 ^ 32"
      by (simp add: message_of_def)
    then show ?thesis
      using counted_message [OF counted_buf [OF less.prems(1)] _ _ _ u] message(1)
        ProcessBuffer_message [OF message(1-3,5,6), of k] u b(1) d
      by (intro step [OF u, of "Suc n"]) (simp_all add: set_buf_def)
  qed
qed

end

text \<open>The same for a predicate that does not count.\<close>

locale session_invariant =
  fixes k :: kernel
    and holds :: "session \<Rightarrow> bool"
  assumes holds_buf: "holds s \<Longrightarrow> holds (set_buf b s)"
    and holds_handshake: "holds (c, d) \<Longrightarrow> \<not> undefined_fault e \<Longrightarrow>
      conn_send k BuildInterested (c\<lparr>handshake_done := True, c_state := DOWNLOADING\<rparr>, d) = (e, t) \<Longrightarrow> holds t"
    and holds_message: "holds s \<Longrightarrow> length payload < 2 ^ 32 \<Longrightarrow> \<not> undefined_fault e \<Longrightarrow>
      handle_message k mid payload s = (e, t) \<Longrightarrow> holds t"

sublocale session_invariant \<subseteq> counted: counted_invariant k "\<lambda>_. holds" "\<lambda>_. holds"
proof
  show "holds (set_buf b s)" if "holds s" for s b
    by (rule holds_buf [OF that])
  show "if e = None then holds t else holds t" if "holds (c, d)" "\<not> undefined_fault e"
    and "conn_send k BuildInterested (c\<lparr>handshake_done := True, c_state := DOWNLOADING\<rparr>, d) = (e, t)" for c d e t
    using holds_handshake [OF that] by simp
  show "if e = None then holds t else holds t" if "holds s" "length payload < 2 ^ 32" "\<not> undefined_fault e"
    and "handle_message k mid payload s = (e, t)" for s payload e mid t
    using holds_message [OF that] by simp
qed

context session_invariant
begin

lemma ProcessBuffer_holds: "holds s \<Longrightarrow> ProcessBuffer k s = (e, t) \<Longrightarrow> \<not> undefined_fault e \<Longrightarrow> holds t"
  using counted.ProcessBuffer_counts [of s] by (auto split: if_splits)

end

text \<open>An open connection stays open while the buffer is digested.\<close>

interpretation open_socket: session_invariant k "\<lambda>s. socket (fst s) \<noteq> None" for k
proof
  fix s :: session and b
  assume "socket (fst s) \<noteq> None"
  then show "socket (fst (set_buf b s)) \<noteq> None" by (simp add: set_buf_def)
next
  fix c :: connection and d :: downloader and e t
  let ?s = "(c\<lparr>handshake_done := True, c_state := DOWNLOADING\<rparr>, d)"
  assume "socket (fst (c, d)) \<noteq> None" "conn_send k BuildInterested ?s = (e, t)"
  then show "socket (fst t) \<noteq> None"
    using conn_send_keeps [of ?s k BuildInterested] by (simp add: keeps_def)
next
  fix s mid payload e t
  assume "socket (fst s) \<noteq> None" "handle_message k mid payload s = (e, t)"
  then show "socket (fst t) \<noteq> None"
    using handle_message_keeps [of s k mid payload] by (simp add: keeps_def)
qed

text \<open>The handshake flag and the state agree, and the state does not go back.\<close>

definition lifecycle :: "conn_state \<Rightarrow> session \<Rightarrow> bool" where
  "lifecycle st s \<longleftrightarrow> st \<le> c_state (fst s) \<and> (handshake_done (fst s) \<longleftrightarrow> c_state (fst s) = DOWNLOADING)"

interpretation lifecycle_session: session_invariant k "lifecycle st" for k st
proof
  fix s :: session and b
  assume "lifecycle st s"
  then show "lifecycle st (set_buf b s)" by (simp add: lifecycle_def set_buf_def)
next
  fix c :: connection and d :: downloader and e t
  let ?s = "(c\<lparr>handshake_done := True, c_state := DOWNLOADING\<rparr>, d)"
  assume "conn_send k BuildInterested ?s = (e, t)"
  then show "lifecycle st t"
    using conn_send_keeps [of ?s k BuildInterested] by (simp add: keeps_def lifecycle_def)
next
  fix s mid payload e t
  assume "lifecycle st s" "handle_message k mid payload s = (e, t)"
  then show "lifecycle st t"
    using handle_message_keeps [of s k mid payload] by (simp add: keeps_def lifecycle_def)
qed

lemma OnReadyRead_split:
  assumes "OnReadyRead k (Some a) s = (None, t)" and "a \<noteq> []" and "b \<noteq> []"
  shows "if socket (fst t) \<noteq> None then OnReadyRead k (Some (a @ b)) s = OnReadyRead k (Some b) t
    else \<exists>u. OnReadyRead k (Some (a @ b)) s = (None, u) \<and> same_but_buf u t"
proof (cases "socket (fst s) = None")
  case True
  then show ?thesis
    using assms(1) by (auto simp: OnReadyRead_def same_but_buf_def split: prod.split)
next
  case False
  let ?a = "set_buf (buf s @ a) s"
  have open_a: "socket (fst ?a) \<noteq> None"
    using False by (simp add: set_buf_def)
  obtain e u where p: "ProcessBuffer k ?a = (e, u)" by (cases "ProcessBuffer k ?a")
  have c: "close_on_throw (e, u) = (None, t)"
    using assms(1,2) False p by (simp add: OnReadyRead_Some)
  then have ne: "\<not> undefined_fault e"
    by (auto simp: close_on_throw_def split: option.splits fault.splits)
  have ab: "OnReadyRead k (Some (a @ b)) s = close_on_throw (ProcessBuffer k (set_buf (buf ?a @ b) ?a))"
    using False assms(2) by (simp add: OnReadyRead_Some)
  show ?thesis
  proof (cases e)
    case None
    then have "t = u"
      using c by (simp add: close_on_throw_def)
    moreover have "socket (fst u) \<noteq> None"
      using open_socket.ProcessBuffer_holds [OF open_a p] None by simp
    ultimately show ?thesis
      using ab assms(3) ProcessBuffer_more [OF p ne, of b] None by (simp add: OnReadyRead_Some)
  next
    case (Some f)
    then obtain x where f: "f = Throw x"
      using ne by (cases f) auto
    then have "t = ((fst u)\<lparr>socket := None\<rparr>, snd u)"
      using c Some by (simp add: close_on_throw_def)
    then show ?thesis
      using ab ProcessBuffer_more [OF p ne, of b] Some f
      by (simp add: close_on_throw_def same_but_buf_def set_buf_def)
  qed
qed


lemma read_chunks_concat:
  "read_chunks k bs s = (None, t) \<Longrightarrow> [] \<notin> set bs \<Longrightarrow> bs \<noteq> [] \<Longrightarrow>
   \<exists>u. OnReadyRead k (Some (concat bs)) s = (None, u) \<and> same_but_buf u t \<and> (socket (fst t) \<noteq> None \<longrightarrow> u = t)"
proof (induction bs arbitrary: s)
  case (Cons b bs)
  obtain e s1 where r: "OnReadyRead k (Some b) s = (e, s1)" by (cases "OnReadyRead k (Some b) s")
  with Cons.prems(1) have e: "e = None"
    by (cases e) simp_all
  show ?case
  proof (cases "bs = []")
    case True
    then show ?thesis
      using Cons.prems(1) r by (simp add: e same_but_buf_def)
  next
    case False
    then have c: "concat bs \<noteq> []"
      using Cons.prems(2) by (cases bs) auto
    have rest: "read_chunks k bs s1 = (None, t)"
      using Cons.prems(1) r e by simp
    show ?thesis
    proof (cases "socket (fst s1) = None")
      case True
      then have "t = s1"
        using rest by (simp add: read_chunks_closed)
      then show ?thesis
        using OnReadyRead_split [OF r [unfolded e] _ c] Cons.prems(2) True by auto
    next
      case still_open: False
      then show ?thesis
        using OnReadyRead_split [OF r [unfolded e] _ c] Cons.prems(2) Cons.IH [OF rest _ False] by auto
    qed
  qed
qed simp

subsection \<open>A read moves the downloader by its own steps\<close>

lemma find_piece_steps: "downloader_step\<^sup>*\<^sup>* d (snd (snd (find_piece a c d)))"
proof (induction a c d rule: find_piece.induct)
  case (1 a c d)
  obtain i d' where g: "GetNextPieceToRequest d = (i, d')" by (cases "GetNextPieceToRequest d")
  have "downloader_step d d'"
    using downloader_step.request [of d] g by simp
  then show ?case
    using 1 [OF g [symmetric]] by (auto simp: find_piece.simps [of a c d] g intro: converse_rtranclp_into_rtranclp)
qed

lemma finish_piece_downloader: "snd (snd (finish_piece n s)) = snd s"
  by (simp add: finish_piece_def split: prod.split)

lemma request_block_downloader: "snd (snd (request_block k s)) = snd s"
  by (auto simp: request_block_def Let_def conn_send_def finish_piece_def split: prod.split sum.split option.split)

lemma RequestNextBlock_steps: "downloader_step\<^sup>*\<^sup>* d (snd (snd (RequestNextBlock k (c, d))))"
proof -
  obtain ok u where u: "find_piece 0 c d = (ok, u)" by (cases "find_piece 0 c d")
  then show ?thesis
    using find_piece_steps [of d 0 c]
    by (auto simp: RequestNextBlock_def request_block_downloader split: bool.split)
qed

lemma handle_message_steps:
  assumes "length payload < 2 ^ 32" and "\<not> undefined_fault e" and "handle_message k mid payload s = (e, t)"
  shows "downloader_step\<^sup>*\<^sup>* (snd s) (snd t)"
proof (cases s)
  case (Pair c d)
  have r: "downloader_step\<^sup>*\<^sup>* d (snd t)" if "RequestNextBlock k (c', d') = (e, t)" "downloader_step\<^sup>*\<^sup>* d d'" for c' d'
    using RequestNextBlock_steps [of d' k c'] that by simp
  have b: "downloader_step\<^sup>*\<^sup>* d d'" if "OnBlockReceived i off (drop 8 payload) d = (f, d')" "\<not> undefined_fault f" for i off f d'
    using downloader_step.block [of "drop 8 payload" i off d] that assms(1) by (auto intro: r_into_rtranclp)
  show ?thesis
    using assms(2,3) by (auto simp: handle_message_def Pair split: if_splits sum.splits prod.splits option.splits
        dest: b intro: r)
qed

interpretation steps_session: session_invariant k "\<lambda>s. downloader_step\<^sup>*\<^sup>* d0 (snd s)" for k d0
proof
  fix s :: session and b
  assume "downloader_step\<^sup>*\<^sup>* d0 (snd s)"
  then show "downloader_step\<^sup>*\<^sup>* d0 (snd (set_buf b s))" by (simp add: set_buf_def)
next
  fix c :: connection and d :: downloader and e t
  assume "downloader_step\<^sup>*\<^sup>* d0 (snd (c, d))"
    "conn_send k BuildInterested (c\<lparr>handshake_done := True, c_state := DOWNLOADING\<rparr>, d) = (e, t)"
  then show "downloader_step\<^sup>*\<^sup>* d0 (snd t)"
    by (auto simp: conn_send_def split: option.splits sum.splits)
next
  fix s mid payload e t
  assume "downloader_step\<^sup>*\<^sup>* d0 (snd s)" "length payload < 2 ^ 32" "\<not> undefined_fault e"
    "handle_message k mid payload s = (e, t)"
  then show "downloader_step\<^sup>*\<^sup>* d0 (snd t)"
    using handle_message_steps by (meson rtranclp_trans)
qed

lemma close_on_throw_None:
  "close_on_throw (e, u) = (None, t) \<Longrightarrow>
   \<not> undefined_fault e \<and> t = (if e = None then u else ((fst u)\<lparr>socket := None\<rparr>, snd u))"
  by (auto simp: close_on_throw_def split: option.splits fault.splits)

text \<open>A read is the digestion of the longer buffer, or it closes the socket, or both.\<close>

lemma OnReadyRead_cases [consumes 1, case_names ignored closed digested]:
  assumes "OnReadyRead k a s = (None, t)"
  obtains "socket (fst s) = None" "t = s"
  | "t = ((fst s)\<lparr>socket := None\<rparr>, snd s)"
  | b e u where "a = Some b" "b \<noteq> []" "ProcessBuffer k (set_buf (buf s @ b) s) = (e, u)" "\<not> undefined_fault e"
      "t = (if e = None then u else ((fst u)\<lparr>socket := None\<rparr>, snd u))" "socket (fst s) \<noteq> None"
proof -
  consider "socket (fst s) = None" | "socket (fst s) \<noteq> None" "a = None \<or> a = Some []"
    | b where "socket (fst s) \<noteq> None" "a = Some b" "b \<noteq> []"
    by (cases a) auto
  then show thesis
  proof cases
    case 3
    obtain e u where p: "ProcessBuffer k (set_buf (buf s @ b) s) = (e, u)"
      by (cases "ProcessBuffer k (set_buf (buf s @ b) s)")
    have "close_on_throw (e, u) = (None, t)"
      using assms 3 OnReadyRead_Some [of s b k] p by simp
    then show thesis
      using that(3) [OF 3(2,3) p] 3(1) close_on_throw_None by blast
  qed (use assms that(1,2) in \<open>auto simp: OnReadyRead_def split: prod.splits\<close>)
qed

text \<open>A predicate that also survives the closing of the socket.\<close>

locale read_invariant = session_invariant +
  assumes holds_close: "holds (c, d) \<Longrightarrow> holds (c\<lparr>socket := None\<rparr>, d)"
begin

lemma OnReadyRead_holds:
  assumes "OnReadyRead k a s = (None, t)" and "holds s"
  shows "holds t"
  using assms(1)
proof (cases rule: OnReadyRead_cases)
  case (digested b e u)
  then show ?thesis
    using ProcessBuffer_holds [OF holds_buf [OF assms(2)] digested(3,4)] holds_close [of "fst u" "snd u"] by auto
qed (use assms(2) holds_close [of "fst s" "snd s"] in auto)

end

interpretation session_steps: read_invariant k "\<lambda>s. downloader_step\<^sup>*\<^sup>* d0 (snd s)" for k d0
  by unfold_locales simp

interpretation lifecycle: read_invariant k "lifecycle st" for k st
  by unfold_locales (simp add: lifecycle_def)

lemma OnReadyRead_faults: "fst (OnReadyRead k a s) = None \<or> (\<exists>u. fst (OnReadyRead k a s) = Some (Undefined u))"
  by (auto simp: OnReadyRead_def split: prod.split sum.split option.split fault.split)

section \<open>Frames\<close>

text \<open>The abstract view of a connection: message bodies, handled one after the other.\<close>

fun handle_all :: "kernel \<Rightarrow> buffer list \<Rightarrow> session \<Rightarrow> session act" where
  "handle_all k [] s = (None, s)"
| "handle_all k ([] # ms) s = handle_all k ms s"
| "handle_all k ((mid # payload) # ms) s = act_then (handle_message k mid payload s) (handle_all k ms)"

text \<open>A frame that has not arrived completely.\<close>

definition partial_frame :: "buffer \<Rightarrow> bool" where
  "partial_frame p \<longleftrightarrow> length p < 4 \<or>
     (0 < unat (ReadMessageLength p) \<and> unat (ReadMessageLength p) < 2 ^ 32 - 4
      \<and> length p < 4 + unat (ReadMessageLength p))"

lemma unat_four_plus: "unat (v :: u32) < 2 ^ 32 - 4 \<Longrightarrow> unat (4 + v) = 4 + unat v"
  by (simp add: unat_word_ariths)

lemma partial_frame_waiting: "c_state (fst s) \<noteq> HANDSHAKING \<Longrightarrow> partial_frame (buf s) \<Longrightarrow> waiting s"
  by (auto simp: waiting_def partial_frame_def unat_four_plus)

lemma message_of_frame: "message_of (frame m @ r) (length m) = m"
  by (simp add: message_of_def frame_def)

lemma ProcessBuffer_frame:
  assumes "c_state (fst s) \<noteq> HANDSHAKING" and "length m < 2 ^ 32 - 4"
  shows "ProcessBuffer k (set_buf (frame m @ r) s) =
    (case m of [] \<Rightarrow> ProcessBuffer k (set_buf r s)
     | mid # payload \<Rightarrow> act_then (handle_message k mid payload (set_buf r s)) (ProcessBuffer k))"
proof -
  let ?s = "set_buf (frame m @ r) s"
  have l: "unat (ReadMessageLength (frame m @ r)) = length m"
    using assms(2) by (intro ReadMessageLength_frame) simp
  have st: "c_state (fst ?s) \<noteq> HANDSHAKING"
    using assms(1) by (simp add: set_buf_def)
  show ?thesis
  proof (cases m)
    case Nil
    then have "ReadMessageLength (frame m @ r) = 0"
      using l by (simp add: unat_eq_zero)
    then show ?thesis
      using ProcessBuffer_keep_alive [OF st] Nil drop_frame [of m r] by simp
  next
    case (Cons mid payload)
    then show ?thesis
      using ProcessBuffer_message [OF st, of "length m" k] l assms(2) message_of_frame [of m r] drop_frame [of m r]
        unat_four_plus [of "ReadMessageLength (frame m @ r)"]
      by simp
  qed
qed

lemma handle_message_state:
  "handle_message k mid payload s = (e, t) \<Longrightarrow> c_state (fst t) = c_state (fst s)"
  using handle_message_keeps [of s k mid payload] by (simp add: keeps_def)

lemma ProcessBuffer_frames:
  assumes "c_state (fst s) \<noteq> HANDSHAKING" and "\<forall>m\<in>set ms. length m < 2 ^ 32 - 4" and "partial_frame p"
    and "handle_all k ms s = (e, t)"
  shows "\<exists>u. ProcessBuffer k (set_buf (concat (map frame ms) @ p) s) = (e, u) \<and> same_but_buf u t
    \<and> (e = None \<longrightarrow> buf u = p)"
  using assms
proof (induction k ms s rule: handle_all.induct)
  case (1 k s)
  then have "waiting (set_buf p s)"
    by (intro partial_frame_waiting) (simp_all add: set_buf_def)
  then show ?case
    using 1 by (simp add: ProcessBuffer_waiting)
next
  case (2 k ms s)
  then show ?case
    using ProcessBuffer_frame [of s "[]" k "concat (map frame ms) @ p"] by simp
next
  case (3 k mid payload ms s)
  let ?r = "concat (map frame ms) @ p"
  obtain f u where u: "handle_message k mid payload s = (f, u)" by (cases "handle_message k mid payload s")
  have m: "handle_message k mid payload (set_buf ?r s) = (f, set_buf ?r u)"
    using ignores_bufD [OF handle_message_ignores, of k mid payload ?r s] u by simp
  have p: "ProcessBuffer k (set_buf (concat (map frame ((mid # payload) # ms)) @ p) s)
      = act_then (f, set_buf ?r u) (ProcessBuffer k)"
    using ProcessBuffer_frame [of s "mid # payload" k ?r] 3(2,3) m by simp
  show ?case
  proof (cases f)
    case None
    then show ?thesis
      using 3(1) [of u] 3(2-5) handle_message_state [OF u] u p by simp
  next
    case (Some x)
    then show ?thesis
      using 3(5) u p by (cases t) (auto simp: same_but_buf_def)
  qed
qed


section \<open>Bitfields\<close>

lemma set_piece_length [simp]: "length (set_piece byte i pp b) = length pp"
  by (simp add: set_piece_def Let_def)

lemma foldl_set_piece_length [simp]: "length (foldl (set_piece byte i) pp bs) = length pp"
  by (induction bs arbitrary: pp) simp_all

lemma bit_test: "drop_bit n (byte :: u8) AND 1 \<noteq> 0 \<longleftrightarrow> bit byte n"
  by (simp add: bit_iff_odd_drop_bit and_one_eq odd_iff_mod_2_eq_one)

lemma set_piece_nth:
  "x < length pp \<Longrightarrow> set_piece byte i pp b ! x \<longleftrightarrow> pp ! x \<or> (x = i * 8 + b \<and> bit byte (7 - b))"
  by (auto simp: set_piece_def bit_test Let_def nth_list_update)

lemma foldl_set_piece_nth:
  "x < length pp \<Longrightarrow>
   foldl (set_piece byte i) pp bs ! x \<longleftrightarrow> pp ! x \<or> (\<exists>b\<in>set bs. x = i * 8 + b \<and> bit byte (7 - b))"
  by (induction bs arbitrary: pp) (auto simp: set_piece_nth)

lemma foldl_set_bytes:
  "x < length pp \<Longrightarrow> length (foldl (\<lambda>pp i. foldl (set_piece (f i) i) pp bs) pp is) = length pp \<and>
   (foldl (\<lambda>pp i. foldl (set_piece (f i) i) pp bs) pp is ! x \<longleftrightarrow>
     pp ! x \<or> (\<exists>i\<in>set is. \<exists>b\<in>set bs. x = i * 8 + b \<and> bit (f i) (7 - b)))"
  by (induction "is" arbitrary: pp) (auto simp: foldl_set_piece_nth)

lemma apply_bitfield_nth:
  assumes "x < n"
  shows "length (apply_bitfield n payload pp) = n \<and> (apply_bitfield n payload pp ! x \<longleftrightarrow>
    (x < length pp \<and> pp ! x) \<or> (x div 8 < length payload \<and> bit (payload ! (x div 8)) (7 - x mod 8)))"
proof -
  let ?v = "vec_resize n False pp"
  have l: "length ?v = n"
    by (simp add: vec_resize_def)
  have v: "?v ! x \<longleftrightarrow> x < length pp \<and> pp ! x"
    using assms by (auto simp: vec_resize_def nth_append)
  have e: "(\<exists>i\<in>set [0..<length payload]. \<exists>b\<in>set [0..<8]. x = i * 8 + b \<and> bit (payload ! i) (7 - b))
      \<longleftrightarrow> x div 8 < length payload \<and> bit (payload ! (x div 8)) (7 - x mod 8)"
    (is "?l \<longleftrightarrow> ?r")
  proof
    assume ?r
    then have b: "\<exists>b\<in>set [0..<8]. x = (x div 8) * 8 + b \<and> bit (payload ! (x div 8)) (7 - b)"
      by (intro bexI [of _ "x mod 8"]) (auto simp del: upt_rec_numeral)
    show ?l
      by (rule bexI [where x = "x div 8"], rule b) (use \<open>?r\<close> in simp)
  qed auto
  have "x < length ?v"
    using assms l by simp
  from foldl_set_bytes [OF this, of "\<lambda>i. payload ! i" "[0..<8]" "[0..<length payload]"] show ?thesis
    unfolding apply_bitfield_def e v l by blast
qed

lemma HasPiece_nth:
  assumes "0 \<le> sint i" and "length (peer_pieces c) < 2 ^ 64"
  shows "HasPiece c i \<longleftrightarrow> nat (sint i) < length (peer_pieces c) \<and> peer_pieces c ! nat (sint i)"
  using assms by (auto simp: HasPiece_def word_le_nat_alt unat_int_to_size_nonneg unat_size_of)

section \<open>Requests\<close>

text \<open>The blocks of a piece of \<open>n\<close> bytes from the offset \<open>p\<close>.\<close>

function blocks :: "nat \<Rightarrow> nat \<Rightarrow> (nat \<times> nat) list" where
  "blocks p n = (if n \<le> p then [] else (p, min 16384 (n - p)) # blocks (p + 16384) n)"
  by pat_completeness auto
termination by (relation "measure (\<lambda>(p, n). n - p)") auto

declare blocks.simps [simp del]

lemma blocks_tile: "p \<le> n \<Longrightarrow> concat (map (\<lambda>(p, l). [p..<p + l]) (blocks p n)) = [p..<n]"
proof (induction p n rule: blocks.induct)
  case (1 p n)
  show ?case
  proof (cases "p + 16384 \<le> n")
    case True
    then have "[p..<n] = [p..<p + 16384] @ [p + 16384..<n]"
      using upt_add_eq_append [of p "p + 16384" "n - (p + 16384)"] by simp
    then show ?thesis
      using 1 True by (simp add: blocks.simps [of p n] del: upt_rec_numeral)
  next
    case False
    then have "blocks (p + 16384) n = []"
      by (simp add: blocks.simps [of "p + 16384"])
    then show ?thesis
      using 1(2) False by (simp add: blocks.simps [of p n])
  qed
qed

lemma blocks_size: "(p', l) \<in> set (blocks p n) \<Longrightarrow> 0 < l \<and> l \<le> 16384 \<and> p \<le> p' \<and> p' + l \<le> n"
proof (induction p n rule: blocks.induct)
  case (1 p n)
  then show ?case
    by (fastforce simp: blocks.simps [of p n] split: if_splits)
qed

definition request_of :: "i32 \<Rightarrow> nat \<times> nat \<Rightarrow> buffer" where
  "request_of i b = BuildRequest i (word_of_nat (fst b)) (word_of_nat (snd b))"

lemma sint_word_of_nat: "n < 2 ^ 31 \<Longrightarrow> sint (word_of_nat n :: i32) = int n"
  by (simp add: signed_of_nat signed_take_bit_int_eq_self)

lemma request_len_min:
  assumes "p < n" and "n < 2 ^ 31"
  shows "request_len (word_of_nat p) (int n) = word_of_nat (min 16384 (n - p))"
proof -
  have "unat (word_of_nat p + 16384 :: u32) = p + 16384"
    using assms by (simp add: unat_word_ariths unat_of_nat)
  moreover have "word_of_int (int n - int p) = (word_of_nat (n - p) :: u32)"
    using assms(1) by (simp add: of_nat_diff)
  ultimately show ?thesis
    using assms sint_word_of_nat [of p] by (auto simp: request_len_def min_def)
qed

lemma request_block_sends:
  assumes "socket c = Some t" and "block_offset c = word_of_nat p"
    and "piece_len (torrent d) (current_piece c) = Inr (int n)" and "p < n" and "n < 2 ^ 31"
  shows "request_block k (c, d) =
    (case TcpSend k t (request_of (current_piece c) (p, min 16384 (n - p))) of
       Inl f \<Rightarrow> (Some f, (c, d))
     | Inr t' \<Rightarrow> (None, (c\<lparr>socket := Some t', block_offset := word_of_nat (p + min 16384 (n - p)),
              current_piece := (if n \<le> p + 16384 then - 1 else current_piece c)\<rparr>, d)))"
proof -
  have "sint (word_of_nat (p + min 16384 (n - p)) :: i32) = int (p + min 16384 (n - p))"
    using assms(4,5) by (intro sint_word_of_nat) simp
  then have s: "sint (word_of_nat p + word_of_nat (min 16384 (n - p)) :: i32) = int (p + min 16384 (n - p))"
    by (simp only: of_nat_add)
  have "sint (word_of_nat p :: i32) = int p"
    using assms(4,5) by (intro sint_word_of_nat) simp
  then show ?thesis
    using assms s by (cases "TcpSend k t (request_of (current_piece c) (p, min 16384 (n - p)))")
      (auto simp: request_block_def request_len_min conn_send_def finish_piece_def request_of_def Let_def)
qed

lemma request_block_next:
  assumes "accepts_all k" and "socket c = Some t" and "block_offset c = word_of_nat p"
    and "piece_len (torrent d) (current_piece c) = Inr (int n)" and "p < n" and "n < 2 ^ 31"
  shows "request_block k (c, d) =
    (None, (c\<lparr>socket := Some (t\<lparr>wire := wire t @ request_of (current_piece c) (p, min 16384 (n - p))\<rparr>),
              block_offset := word_of_nat (p + min 16384 (n - p)),
              current_piece := (if n \<le> p + 16384 then - 1 else current_piece c)\<rparr>, d))"
  using request_block_sends [OF assms(2-6)] by (simp add: TcpSend_accepts_all [OF assms(1)])

text \<open>\<open>RequestNextBlock\<close> called once per block.\<close>

fun request_times :: "kernel \<Rightarrow> nat \<Rightarrow> session \<Rightarrow> session act" where
  "request_times k 0 s = (None, s)"
| "request_times k (Suc n) s = act_then (RequestNextBlock k s) (request_times k n)"


lemma request_times_blocks:
  "p < n \<Longrightarrow> accepts_all k \<Longrightarrow> \<not> choked c \<Longrightarrow> current_piece c = i \<Longrightarrow> i \<noteq> - 1 \<Longrightarrow>
   socket c = Some t \<Longrightarrow> block_offset c = word_of_nat p \<Longrightarrow>
   piece_len (torrent d) i = Inr (int n) \<Longrightarrow> n < 2 ^ 31 \<Longrightarrow>
   \<exists>c'. request_times k (length (blocks p n)) (c, d) = (None, (c', d)) \<and> current_piece c' = - 1
     \<and> socket c' = Some (t\<lparr>wire := wire t @ concat (map (request_of i) (blocks p n))\<rparr>)"
proof (induction p n arbitrary: c t rule: blocks.induct)
  case (1 p n)
  let ?t = "t\<lparr>wire := wire t @ request_of i (p, min 16384 (n - p))\<rparr>"
  let ?c = "c\<lparr>socket := Some ?t, block_offset := word_of_nat (p + min 16384 (n - p)),
              current_piece := (if n \<le> p + 16384 then - 1 else i)\<rparr>"
  have r: "RequestNextBlock k (c, d) = (None, (?c, d))"
    using 1 request_block_next [of k c t p d n] by (simp add: RequestNextBlock_def)
  have b: "blocks p n = (p, min 16384 (n - p)) # blocks (p + 16384) n"
    using 1(2) by (simp add: blocks.simps [of p n])
  show ?case
  proof (cases "n \<le> p + 16384")
    case True
    then have "blocks (p + 16384) n = []"
      by (simp add: blocks.simps [of "p + 16384"])
    then show ?thesis
      using r True b by simp
  next
    case False
    then have m: "min 16384 (n - p) = 16384"
      by simp
    have "\<exists>c'. request_times k (length (blocks (p + 16384) n)) (?c, d) = (None, (c', d)) \<and> current_piece c' = - 1
        \<and> socket c' = Some (?t\<lparr>wire := wire ?t @ concat (map (request_of i) (blocks (p + 16384) n))\<rparr>)"
      using False 1(2-) by (intro 1(1)) (simp_all add: m)
    then show ?thesis
      using r b by simp
  qed
qed

section \<open>Finding a piece\<close>

lemma GetNextPieceToRequest_index:
  assumes "next_req_index d = word_of_nat j" and "j < 2 ^ 31" and "length (piece_hashes (torrent d)) < 2 ^ 31"
  shows "GetNextPieceToRequest d =
    (if j < length (piece_hashes (torrent d)) then word_of_nat j else - 1, d\<lparr>next_req_index := word_of_nat (j + 1)\<rparr>)"
proof -
  have "unat (int_to_size (word_of_nat j)) = j"
    using assms(2) by (simp add: unat_int_to_size_nonneg sint_word_of_nat)
  then show ?thesis
    using assms by (auto simp: GetNextPieceToRequest_def Let_def word_le_nat_alt unat_size_of add.commute)
qed

definition has_piece :: "connection \<Rightarrow> nat \<Rightarrow> bool" where
  "has_piece c x \<longleftrightarrow> x < length (peer_pieces c) \<and> peer_pieces c ! x"

text \<open>The first index from \<open>j\<close> that the peer has, if there is one below \<open>n\<close>.\<close>

definition first_piece :: "connection \<Rightarrow> nat \<Rightarrow> nat \<Rightarrow> nat option" where
  "first_piece c j n = find (has_piece c) [j..<n]"

lemma find_piece_first:
  "next_req_index d = word_of_nat j \<Longrightarrow> j \<le> n \<Longrightarrow> a \<le> j \<Longrightarrow> n = length (piece_hashes (torrent d)) \<Longrightarrow>
   n < 2 ^ 31 - 1 \<Longrightarrow> length (peer_pieces c) < 2 ^ 64 \<Longrightarrow>
   find_piece a c d =
     (case first_piece c j n of
        Some i \<Rightarrow> (True, (c\<lparr>current_piece := word_of_nat i, block_offset := 0\<rparr>, d\<lparr>next_req_index := word_of_nat (i + 1)\<rparr>))
      | None \<Rightarrow> (False, (c, d\<lparr>next_req_index := word_of_nat (n + 1)\<rparr>)))"
proof (induction "n - j" arbitrary: a j d)
  case 0
  then show ?case
    using GetNextPieceToRequest_index [of d j] by (simp add: find_piece.simps [of a c d] first_piece_def)
next
  case (Suc m)
  then have j: "j < n" by simp
  let ?d = "d\<lparr>next_req_index := word_of_nat (j + 1)\<rparr>"
  have g: "GetNextPieceToRequest d = (word_of_nat j, ?d)"
    using GetNextPieceToRequest_index [of d j] Suc.prems j by simp
  have s: "sint (word_of_nat j :: i32) = int j"
    using Suc.prems(5) j by (simp add: sint_word_of_nat)
  then have ne: "word_of_nat j \<noteq> (- 1 :: i32)"
    by auto
  have h: "HasPiece c (word_of_nat j) \<longleftrightarrow> has_piece c j"
    using HasPiece_nth [of "word_of_nat j" c] s Suc.prems(6) by (simp add: has_piece_def)
  have f: "first_piece c j n = (if has_piece c j then Some j else first_piece c (j + 1) n)"
    using j by (simp add: first_piece_def upt_conv_Cons)
  show ?case
  proof (cases "has_piece c j")
    case True
    then show ?thesis
      using find_piece.simps [of a c d] g ne h f by simp
  next
    case False
    have "find_piece a c d = find_piece (a + 1) c ?d"
      using find_piece.simps [of a c d] g ne h False Suc.prems(3,4) j by simp
    moreover have "m = n - (j + 1)"
      using Suc.hyps(2) by simp
    note Suc.hyps(1) [OF this, of ?d "a + 1"]
    ultimately show ?thesis
      using Suc.prems j f False by (simp split: option.split)
  qed
qed


section \<open>An honest peer\<close>

text \<open>
  A message that is within the torrent: a piece message names a piece of it and an offset below
  \<open>2 ^ 31\<close>, or is too short to name anything.
\<close>

definition safe_message :: "torrent_file \<Rightarrow> buffer \<Rightarrow> bool" where
  "safe_message tf m =
     (case m of
        [] \<Rightarrow> True
      | mid # payload \<Rightarrow>
          mid \<noteq> PIECE \<or>
          (case (ReadBE32 payload 0, ReadBE32 payload 4) of
             (Inr i, Inr off) \<Rightarrow> valid_piece tf i \<and> 0 \<le> sint off
           | _ \<Rightarrow> True))"

lemma conn_send_no_ub: "socket (fst s) \<noteq> None \<Longrightarrow> \<not> undefined_fault (fst (conn_send k data s))"
  by (auto simp: conn_send_def TcpSend_def send_bytes_def Let_def split: prod.split option.split sum.split if_splits)

lemma request_block_no_ub:
  assumes "socket (fst s) \<noteq> None" and "0 < piece_length (torrent (snd s))"
  shows "\<not> undefined_fault (fst (request_block k s))"
proof (cases s)
  case (Pair c d)
  obtain n where n: "piece_len (torrent d) (current_piece c) = Inr n"
    using piece_len_valid assms(2) Pair by fastforce
  have f: "fst (finish_piece m t) = None" for m t
    by (simp add: finish_piece_def split: prod.split)
  have "\<not> undefined_fault (fst (conn_send k b (c, d)))" for b
    using conn_send_no_ub assms(1) Pair by simp
  then show ?thesis
    using f by (auto simp: request_block_def Pair n Let_def act_then_def split: prod.split option.split)
      (metis fst_conv)
qed

lemma RequestNextBlock_no_ub:
  assumes "socket (fst s) \<noteq> None" and "0 < piece_length (torrent (snd s))"
  shows "\<not> undefined_fault (fst (RequestNextBlock k s))"
proof (cases s)
  case (Pair c d)
  obtain ok u where u: "find_piece 0 c d = (ok, u)" by (cases "find_piece 0 c d")
  then have "keeps s u"
    using find_piece_keeps [of c d 0] Pair by simp
  then have "socket (fst u) \<noteq> None" "0 < piece_length (torrent (snd u))"
    using assms by (simp_all add: keeps_def)
  then show ?thesis
    using request_block_no_ub assms u by (auto simp: RequestNextBlock_def Pair split: bool.split)
qed

lemma handle_message_no_ub:
  assumes "socket (fst s) \<noteq> None" and "0 < piece_length (torrent (snd s))"
    and "safe_message (torrent (snd s)) (mid # payload)"
  shows "\<not> undefined_fault (fst (handle_message k mid payload s))"
proof (cases s)
  case (Pair c d)
  have r: "\<not> undefined_fault (fst (RequestNextBlock k (c', d')))"
    if "socket c' = socket c" "torrent d' = torrent d" for c' d'
    using RequestNextBlock_no_ub [of "(c', d')" k] assms(1,2) that Pair by simp
  have b: "\<not> undefined_fault f \<and> torrent d' = torrent d"
    if "ReadBE32 payload 0 = Inr i" "ReadBE32 payload 4 = Inr off" "mid = PIECE"
      "OnBlockReceived i off data d = (f, d')" for i off data f d'
    using assms(3) OnBlockReceived_no_ub [of d i off data] OnBlockReceived_frame(1) [of i off data d] that Pair
    by (simp add: safe_message_def)
  have e: "\<not> undefined_fault (Some f)" if "ReadBE32 payload n = Inl f" for n f
    using that by (auto simp: ReadBE32_def split: if_splits)
  show ?thesis
    using b r e by (auto simp: handle_message_def Pair split: sum.split prod.split option.split)
qed

lemma handle_all_no_ub:
  "socket (fst s) \<noteq> None \<Longrightarrow> 0 < piece_length (torrent (snd s)) \<Longrightarrow>
   \<forall>m\<in>set ms. safe_message (torrent (snd s)) m \<Longrightarrow> \<not> undefined_fault (fst (handle_all k ms s))"
proof (induction k ms s rule: handle_all.induct)
  case (3 k mid payload ms s)
  obtain f u where u: "handle_message k mid payload s = (f, u)" by (cases "handle_message k mid payload s")
  have "keeps s u" "\<not> undefined_fault f"
    using handle_message_keeps [of s k mid payload] handle_message_no_ub [of s mid payload k] 3(2-4) u by simp_all
  then show ?case
    using 3(1) [of u] 3(2-4) u by (cases f) (simp_all add: keeps_def)
qed simp_all

section \<open>The first messages of a peer\<close>

text \<open>The connection after it has dropped the handshake of the peer, if it was waiting for one.\<close>

definition greeted :: "connection \<Rightarrow> connection" where
  "greeted c = (if c_state c = HANDSHAKING then c\<lparr>handshake_done := True, c_state := DOWNLOADING,
     socket := map_option (\<lambda>t. t\<lparr>wire := wire t @ BuildInterested\<rparr>) (socket c)\<rparr> else c)"

lemma greeted_simps [simp]:
  "c_state (greeted c) \<noteq> HANDSHAKING" "current_piece (greeted c) = current_piece c"
  "peer_pieces (greeted c) = peer_pieces c"
  by (simp_all add: greeted_def)

lemma read_greeted:
  assumes "socket c \<noteq> None" and "recv_buffer c = []" and "accepts_all k"
    and "length h = (if c_state c = HANDSHAKING then 68 else 0)" and "b \<noteq> []"
  shows "OnReadyRead k (Some (h @ b)) (c, d) = close_on_throw (ProcessBuffer k (set_buf b (greeted c, d)))"
proof -
  obtain t where t: "socket c = Some t"
    using assms(1) by auto
  have "ProcessBuffer k (set_buf (h @ b) (c, d)) = ProcessBuffer k (set_buf b (greeted c, d))"
  proof (cases "c_state c = HANDSHAKING")
    case True
    have "conn_send k BuildInterested (set_buf b (c\<lparr>handshake_done := True, c_state := DOWNLOADING\<rparr>, d))
        = (None, set_buf b (greeted c, d))"
      using True t assms(3) by (simp add: conn_send_def TcpSend_accepts_all greeted_def)
    then show ?thesis
      using ProcessBuffer_handshake [of "set_buf (h @ b) (c, d)" k] True assms(4) by simp
  qed (use assms(4) in \<open>simp add: greeted_def\<close>)
  then show ?thesis
    using OnReadyRead_Some [of "(c, d)" "h @ b" k] assms(1,2,5) by simp
qed

text \<open>A length prefix whose sum with four wraps.\<close>

lemma ProcessBuffer_overflow:
  assumes "c_state (fst s) \<noteq> HANDSHAKING" and "2 ^ 32 - 4 \<le> unat v" and "length rest < 2 ^ 32 - 4"
  shows "\<exists>t. ProcessBuffer k (set_buf (PushInt32 [] v @ rest) s) = (Some (Undefined Out_Of_Bounds), t)"
proof -
  have v: "ReadMessageLength (PushInt32 [] v @ rest) = v" "v \<noteq> 0"
    using ReadMessageLength_Push assms(2) by auto
  have "unat (4 + v) = (4 + unat v) mod 2 ^ 32"
    by (simp add: unat_word_ariths)
  also have "\<dots> = 4 + unat v - 2 ^ 32"
    using assms(2) unsigned_less [of v, where ?'a = nat] by (subst mod_if, subst mod_less) auto
  finally have "unat (4 + v) < 4"
    using unsigned_less [of v, where ?'a = nat] by simp
  then show ?thesis
    using v assms by (cases s) (simp add: ProcessBuffer.simps [of k "(_, _)"] Let_def not_less)
qed

section \<open>Properties\<close>

text \<open>
  C8: TCP may cut the stream anywhere. If the reads of a connection return for a sequence of
  chunks, one read of all the bytes together returns too and leaves the same state, the
  downloader included; when an error closed the connection on the way, the states may differ in
  the bytes left in the dead receive buffer.
\<close>

theorem stream_may_be_cut:
  assumes "read_chunks k bs s = (None, t)" and "[] \<notin> set bs" and "bs \<noteq> []"
  shows "\<exists>u. OnReadyRead k (Some (concat bs)) s = (None, u) \<and> same_but_buf u t
    \<and> (socket (fst t) \<noteq> None \<longrightarrow> u = t)"
  by (rule read_chunks_concat [OF assms])

definition accept_kernel :: kernel where
  "accept_kernel w d = int (length d)"

lemma accepts_all_accept_kernel [simp]: "accepts_all accept_kernel"
  by (simp add: accepts_all_def accept_kernel_def)

definition sample_transport :: transport where
  "sample_transport = \<lparr>sock = 4, t_host = ''10.0.0.1'', t_port = 6881, rcv_timeout = Some 2, wire = []\<rparr>"

definition sample_session :: "conn_state \<Rightarrow> session" where
  "sample_session st = (Connection (Peer ''10.0.0.1'' 6881 [])\<lparr>socket := Some sample_transport, c_state := st,
     choked := False\<rparr>, Downloader two_piece_torrent ''me'' [] True)"

lemma sample_session_simps [simp]:
  "socket (fst (sample_session st)) = Some sample_transport" "c_state (fst (sample_session st)) = st"
  "buf (sample_session st) = []" "torrent (snd (sample_session st)) = two_piece_torrent"
  "choked (fst (sample_session st)) = False"
  by (simp_all add: sample_session_def Connection_def Downloader_def)

lemma handle_choke: "handle_message k CHOKE [] s = (None, (fst s)\<lparr>choked := True\<rparr>, snd s)"
  by (simp add: handle_message_def CHOKE_def UNCHOKE_def BITFIELD_def split: prod.split)

lemma sample_choke:
  "ProcessBuffer k (set_buf (frame [CHOKE]) (sample_session DOWNLOADING))
   = (None, (fst (sample_session DOWNLOADING))\<lparr>choked := True\<rparr>, snd (sample_session DOWNLOADING))"
  using ProcessBuffer_frame [of "sample_session DOWNLOADING" "[CHOKE]" k "[]"]
  by (simp add: handle_choke ProcessBuffer_waiting waiting_def) (simp add: sample_session_def Connection_def set_buf_def)

theorem stream_may_be_cut_witness:
  "\<exists>u. OnReadyRead accept_kernel (Some (frame [CHOKE])) (sample_session DOWNLOADING) = (None, u) \<and> choked (fst u)"
proof -
  let ?s = "sample_session DOWNLOADING" and ?f = "frame [CHOKE]"
  let ?t = "((fst ?s)\<lparr>choked := True\<rparr>, snd ?s)"
  have ne: "take 2 ?f \<noteq> []" "drop 2 ?f \<noteq> []"
    by (simp_all flip: length_0_conv)
  have 1: "OnReadyRead accept_kernel (Some (take 2 ?f)) ?s = (None, set_buf (take 2 ?f) ?s)"
    using ne by (simp add: OnReadyRead_Some ProcessBuffer_waiting waiting_def close_on_throw_def set_buf_def)
  have "OnReadyRead accept_kernel (Some (drop 2 ?f)) (set_buf (take 2 ?f) ?s) = close_on_throw (ProcessBuffer accept_kernel (set_buf ?f ?s))"
    using OnReadyRead_Some [of "set_buf (take 2 ?f) ?s" "drop 2 ?f" accept_kernel] ne by (simp add: set_buf_def)
  then have "read_chunks accept_kernel [take 2 ?f, drop 2 ?f] ?s = (None, ?t)"
    using 1 by (simp add: sample_choke close_on_throw_def)
  from stream_may_be_cut [OF this] ne show ?thesis
    by auto
qed


text \<open>
  C9: \<open>ProcessBuffer\<close> implements the message view. When the buffer holds the frames of
  some bodies followed by an incomplete frame, it handles the bodies one by one, empty ones (keep
  alive) ignored, and keeps the incomplete frame. A fault in between is the fault of the first
  message that fails, in the state that message left.
\<close>

theorem messages_are_the_frames:
  assumes "c_state (fst s) \<noteq> HANDSHAKING" and "\<forall>m\<in>set ms. length m < 2 ^ 32 - 4" and "partial_frame p"
    and "handle_all k ms s = (e, t)"
  shows "\<exists>u. ProcessBuffer k (set_buf (concat (map frame ms) @ p) s) = (e, u) \<and> same_but_buf u t
    \<and> (e = None \<longrightarrow> buf u = p)"
  by (rule ProcessBuffer_frames [OF assms])

theorem messages_are_the_frames_witness:
  "\<exists>u. ProcessBuffer accept_kernel (set_buf (concat (map frame [[CHOKE], []]) @ [0, 0]) (sample_session DOWNLOADING)) = (None, u)
     \<and> buf u = [0, 0]"
proof -
  have "handle_all accept_kernel [[CHOKE], []] (sample_session DOWNLOADING)
      = (None, (fst (sample_session DOWNLOADING))\<lparr>choked := True\<rparr>, snd (sample_session DOWNLOADING))"
    by (simp add: handle_choke)
  from messages_are_the_frames [OF _ _ _ this, of "[0, 0]"] show ?thesis
    by (auto simp: partial_frame_def)
qed

text \<open>
  A peer can make the client read outside its buffer with 72 bytes. Any 68 bytes pass for
  the handshake, whose protocol name and info hash are not looked at; and a length prefix from
  \<open>2 ^ 32 - 4\<close> on makes the 32-bit sum \<open>4 + len\<close> wrap, so the message counts as
  complete.
\<close>

theorem crafted_stream_overflows:
  assumes "accepts_all k" and "socket c = Some t" and "c_state c = HANDSHAKING" and "recv_buffer c = []"
    and "length hs = 68" and "2 ^ 32 - 4 \<le> unat v" and "length rest < 2 ^ 32 - 4"
  shows "fst (OnReadyRead k (Some (hs @ PushInt32 [] v @ rest)) (c, d)) = Some (Undefined Out_Of_Bounds)"
proof -
  let ?b = "PushInt32 [] v @ rest"
  obtain u where "ProcessBuffer k (set_buf ?b (greeted c, d)) = (Some (Undefined Out_Of_Bounds), u)"
    using ProcessBuffer_overflow [of "(greeted c, d)"] assms(6,7) greeted_simps by fastforce
  moreover have "?b \<noteq> []"
    by (simp add: PushInt32_def)
  ultimately show ?thesis
    using read_greeted [of c k hs ?b d] assms(1-5) by (simp add: close_on_throw_def)
qed

theorem crafted_stream_overflows_witness:
  "fst (OnReadyRead accept_kernel (Some (replicate 68 7 @ PushInt32 [] 4294967295 @ [])) (sample_session HANDSHAKING))
   = Some (Undefined Out_Of_Bounds)"
  using crafted_stream_overflows [of accept_kernel "fst (sample_session HANDSHAKING)" sample_transport
      "replicate 68 7" 4294967295 "[]" "snd (sample_session HANDSHAKING)"]
  by simp




text \<open>
  C19: the requests of a piece tile it. Calling \<open>RequestNextBlock\<close> once per block of an
  assigned piece of \<open>n\<close> bytes sends one request per block, of 16 KB or the rest, and
  releases the piece with the last one; together the blocks are every byte of the piece, once
  and in order.
\<close>

theorem requests_tile_piece:
  assumes "accepts_all k" and "socket c = Some t" and "\<not> choked c" and "current_piece c = i" and "i \<noteq> - 1"
    and "block_offset c = 0" and "piece_len (torrent d) i = Inr (int n)" and "0 < n" and "n < 2 ^ 31"
  shows "\<exists>c'. request_times k (length (blocks 0 n)) (c, d) = (None, (c', d)) \<and> current_piece c' = - 1
      \<and> socket c' = Some (t\<lparr>wire := wire t @ concat (map (request_of i) (blocks 0 n))\<rparr>)
    \<and> concat (map (\<lambda>(p, l). [p..<p + l]) (blocks 0 n)) = [0..<n]
    \<and> (\<forall>(p, l)\<in>set (blocks 0 n). 0 < l \<and> l \<le> 16384)"
  using request_times_blocks [of 0 n k c i t d] assms blocks_tile [of 0 n] blocks_size by fastforce

theorem requests_tile_piece_witness:
  "\<exists>c'. request_times accept_kernel 3 ((fst (sample_session DOWNLOADING))\<lparr>current_piece := 0\<rparr>,
        Downloader (two_piece_torrent\<lparr>piece_length := 40000\<rparr>) ''me'' [] True)
      = (None, (c', Downloader (two_piece_torrent\<lparr>piece_length := 40000\<rparr>) ''me'' [] True))
    \<and> current_piece c' = - 1
    \<and> socket c' = Some (sample_transport\<lparr>wire := BuildRequest 0 0 16384 @ BuildRequest 0 16384 16384
        @ BuildRequest 0 32768 7232\<rparr>)"
proof -
  let ?c = "(fst (sample_session DOWNLOADING))\<lparr>current_piece := 0\<rparr>"
  let ?d = "Downloader (two_piece_torrent\<lparr>piece_length := 40000\<rparr>) ''me'' [] True"
  have b: "blocks 0 40000 = [(0, 16384), (16384, 16384), (32768, 7232)]"
    by (simp add: blocks.simps)
  have c: "socket ?c = Some sample_transport" "\<not> choked ?c" "current_piece ?c = 0" "(0 :: i32) \<noteq> - 1"
      "block_offset ?c = 0"
    by (simp_all add: sample_session_def Connection_def)
  have "piece_len (torrent ?d) 0 = Inr (int 40000)"
    by (simp add: piece_len_def is_last_piece_def Downloader_def two_piece_torrent_def int_to_size_def size_of_def)
  then obtain c' where "request_times accept_kernel (length (blocks 0 40000)) (?c, ?d) = (None, (c', ?d))"
    "current_piece c' = - 1"
    "socket c' = Some (sample_transport\<lparr>wire := wire sample_transport @ concat (map (request_of 0) (blocks 0 40000))\<rparr>)"
    using requests_tile_piece [OF accepts_all_accept_kernel c, of ?d 40000] by auto
  then show ?thesis
    unfolding b by (intro exI [of _ c']) (simp add: request_of_def sample_transport_def numeral_3_eq_3)
qed

lemma RequestNextBlock_first:
  assumes "\<not> choked c" and "current_piece c = - 1" and "next_req_index d = word_of_nat j" and "j \<le> n"
    and "n = length (piece_hashes (torrent d))" and "n < 2 ^ 31 - 1" and "length (peer_pieces c) < 2 ^ 64"
  shows "RequestNextBlock k (c, d) =
    (case first_piece c j n of
       Some i \<Rightarrow> request_block k
         (c\<lparr>current_piece := word_of_nat i, block_offset := 0\<rparr>, d\<lparr>next_req_index := word_of_nat (i + 1)\<rparr>)
     | None \<Rightarrow> (None, (c, d\<lparr>next_req_index := word_of_nat (n + 1)\<rparr>)))"
  using find_piece_first [of d j n 0 c] assms by (simp add: RequestNextBlock_def split: option.split)

text \<open>
  C23: the piece assigned to a peer is the first one it has. From the shared counter at
  \<open>j\<close>, an unchoked connection without a piece takes the first index from \<open>j\<close> on that
  the peer announced, and moves the counter behind it; the indices skipped on the way are never
  handed out again. If the peer has none of them nothing is sent and the counter passes the end.
  The break after too many attempts is never taken.
\<close>

theorem first_available_piece_requested:
  assumes "\<not> choked c" and "current_piece c = - 1" and "next_req_index d = word_of_nat j" and "j \<le> n"
    and "n = length (piece_hashes (torrent d))" and "n < 2 ^ 31 - 1" and "length (peer_pieces c) < 2 ^ 64"
  shows "RequestNextBlock k (c, d) =
    (case first_piece c j n of
       Some i \<Rightarrow> request_block k
         (c\<lparr>current_piece := word_of_nat i, block_offset := 0\<rparr>, d\<lparr>next_req_index := word_of_nat (i + 1)\<rparr>)
     | None \<Rightarrow> (None, (c, d\<lparr>next_req_index := word_of_nat (n + 1)\<rparr>)))"
  by (rule RequestNextBlock_first [OF assms])

theorem first_available_piece_requested_witness:
  "RequestNextBlock accept_kernel ((fst (sample_session DOWNLOADING))\<lparr>peer_pieces := [False, True]\<rparr>, snd (sample_session DOWNLOADING))
   = request_block accept_kernel ((fst (sample_session DOWNLOADING))\<lparr>peer_pieces := [False, True], current_piece := 1\<rparr>,
       (snd (sample_session DOWNLOADING))\<lparr>next_req_index := 2\<rparr>)"
proof -
  let ?c = "(fst (sample_session DOWNLOADING))\<lparr>peer_pieces := [False, True]\<rparr>"
  let ?d = "snd (sample_session DOWNLOADING)"
  have f: "first_piece ?c 0 2 = Some 1"
    by (simp add: first_piece_def has_piece_def upt_rec)
  have h: "\<not> choked ?c" "current_piece ?c = - 1" "next_req_index ?d = word_of_nat 0" "(0 :: nat) \<le> 2"
      "2 = length (piece_hashes (torrent ?d))" "(2 :: nat) < 2 ^ 31 - 1" "length (peer_pieces ?c) < 2 ^ 64"
    by (simp_all add: sample_session_def Connection_def Downloader_def two_piece_torrent_def)
  have "?c\<lparr>current_piece := word_of_nat 1, block_offset := 0\<rparr> = ?c\<lparr>current_piece := 1\<rparr>"
    by (simp add: sample_session_def Connection_def)
  then show ?thesis
    using first_available_piece_requested [OF h, of accept_kernel] unfolding f by (simp only: option.case) simp
qed

text \<open>
  C25: one peer without pieces uses up the pieces of all. When a connection without a piece in work
  that is not choked asks for a piece before any bitfield arrived, it sends nothing, but the
  counter has then passed every index that was left; and from the end of the pieces on, until the
  counter reaches \<open>2 ^ 31\<close>, no connection without a piece in work is given one: it sends nothing,
  whatever its peer has. A connection in the middle of a piece still goes on with that piece.
\<close>

theorem useless_peer_starves_others:
  assumes "\<not> choked c" and "current_piece c = - 1" and "peer_pieces c = []"
    and "next_req_index d = word_of_nat j" and "j \<le> length (piece_hashes (torrent d))"
    and "length (piece_hashes (torrent d)) < 2 ^ 31 - 2"
    and "n = length (piece_hashes (torrent d))"
    and "torrent d2 = torrent d" and "next_req_index d2 = word_of_nat m" and "n \<le> m" and "m < 2 ^ 31 - 1"
    and "current_piece c2 = - 1"
  shows "RequestNextBlock k (c, d) = (None, (c, d\<lparr>next_req_index := word_of_nat (n + 1)\<rparr>))
    \<and> RequestNextBlock k (c2, d2)
      = (None, (c2, if choked c2 then d2 else d2\<lparr>next_req_index := word_of_nat (m + 1)\<rparr>))"
proof
  have "first_piece c j n = None"
    using assms(3) by (simp add: first_piece_def has_piece_def find_None_iff)
  then show "RequestNextBlock k (c, d) = (None, (c, d\<lparr>next_req_index := word_of_nat (n + 1)\<rparr>))"
    using RequestNextBlock_first [OF assms(1,2,4,5) refl, of k] assms(3,6,7) by simp
next
  have "GetNextPieceToRequest d2 = (- 1, d2\<lparr>next_req_index := word_of_nat (m + 1)\<rparr>)"
    using GetNextPieceToRequest_index [of d2 m] assms(7-11) by simp
  then show "RequestNextBlock k (c2, d2)
      = (None, (c2, if choked c2 then d2 else d2\<lparr>next_req_index := word_of_nat (m + 1)\<rparr>))"
    using assms(12) by (simp add: RequestNextBlock_def find_piece.simps [of 0])
qed

theorem useless_peer_starves_others_witness:
  "\<exists>d'. RequestNextBlock accept_kernel (sample_session DOWNLOADING) = (None, (fst (sample_session DOWNLOADING), d'))
    \<and> RequestNextBlock accept_kernel ((fst (sample_session DOWNLOADING))\<lparr>peer_pieces := [True, True]\<rparr>, d')
      = (None, ((fst (sample_session DOWNLOADING))\<lparr>peer_pieces := [True, True]\<rparr>, d'\<lparr>next_req_index := 4\<rparr>))"
proof -
  let ?c = "fst (sample_session DOWNLOADING)" and ?d = "snd (sample_session DOWNLOADING)"
  have c: "\<not> choked ?c" "current_piece ?c = - 1" "peer_pieces ?c = []" "next_req_index ?d = word_of_nat 0"
      "(0 :: nat) \<le> length (piece_hashes (torrent ?d))" "length (piece_hashes (torrent ?d)) < 2 ^ 31 - 2"
      "2 = length (piece_hashes (torrent ?d))"
    by (simp_all add: sample_session_def Connection_def Downloader_def two_piece_torrent_def)
  from useless_peer_starves_others [OF c, of "?d\<lparr>next_req_index := 3\<rparr>" 3 "?c\<lparr>peer_pieces := [True, True]\<rparr>" accept_kernel]
  show ?thesis
    using c(1,2) by simp
qed

text \<open>
  C24: a bitfield is read as the protocol defines it. After the message, the peer has piece
  \<open>x\<close> if it had it before or bit \<open>7 - x mod 8\<close> of byte \<open>x div 8\<close> is set;
  spare bits and missing bytes are harmless.
\<close>

theorem bitfield_read:
  assumes "x < length (piece_hashes (torrent d))" and "length (piece_hashes (torrent d)) < 2 ^ 31"
    and "length (peer_pieces c) < 2 ^ 64"
  shows "\<exists>c'. handle_message k BITFIELD payload (c, d) = (None, (c', d))
    \<and> (HasPiece c' (word_of_nat x) \<longleftrightarrow> HasPiece c (word_of_nat x)
        \<or> (x div 8 < length payload \<and> bit (payload ! (x div 8)) (7 - x mod 8)))"
proof -
  let ?n = "length (piece_hashes (torrent d))"
  let ?c = "c\<lparr>peer_pieces := apply_bitfield ?n payload (peer_pieces c)\<rparr>"
  have s: "sint (word_of_nat x :: i32) = int x"
    using assms(1,2) by (intro sint_word_of_nat) simp
  have "HasPiece ?c (word_of_nat x) \<longleftrightarrow> HasPiece c (word_of_nat x)
        \<or> (x div 8 < length payload \<and> bit (payload ! (x div 8)) (7 - x mod 8))"
    using HasPiece_nth [of "word_of_nat x" c] HasPiece_nth [of "word_of_nat x" ?c]
      apply_bitfield_nth [OF assms(1), of payload "peer_pieces c"] s assms
    by simp
  moreover have "handle_message k BITFIELD payload (c, d) = (None, (?c, d))"
    by (simp add: handle_message_def BITFIELD_def UNCHOKE_def)
  ultimately show ?thesis by blast
qed

theorem bitfield_read_witness:
  "\<exists>c'. handle_message accept_kernel BITFIELD [64] (sample_session DOWNLOADING) = (None, (c', snd (sample_session DOWNLOADING)))
    \<and> HasPiece c' 1"
proof -
  have "bit (64 :: u8) 6"
    by (simp add: bit_iff_odd_drop_bit)
  then show ?thesis
    using bitfield_read [of 1 "snd (sample_session DOWNLOADING)" "fst (sample_session DOWNLOADING)" accept_kernel "[64]"]
    by (simp add: two_piece_torrent_def) (auto simp: sample_session_def Connection_def)
qed

text \<open>
  C26: a choke loses a block for good. An unchoked connection that has requested the block at
  \<open>p\<close> of its piece, is choked before the answer and unchoked again, goes on with the block
  behind it: what it has sent is one request for each of the two. A choking peer discards what was
  asked of it, so the block at \<open>p\<close> does not come and the piece is never completed.
\<close>

theorem choke_loses_the_request:
  assumes "accepts_all k" and "socket c = Some t" and "\<not> choked c" and "current_piece c = i" and "i \<noteq> - 1"
    and "block_offset c = word_of_nat p" and "piece_len (torrent d) i = Inr (int n)" and "p + 16384 < n"
    and "n < 2 ^ 31"
  shows "\<exists>c'. act_then (RequestNextBlock k (c, d)) (handle_all k [[CHOKE], [UNCHOKE]]) = (None, (c', d))
    \<and> socket c' = Some (t\<lparr>wire := wire t @ request_of i (p, 16384) @ request_of i (p + 16384, min 16384 (n - (p + 16384)))\<rparr>)"
proof -
  let ?t = "t\<lparr>wire := wire t @ request_of i (p, 16384)\<rparr>"
  let ?c = "c\<lparr>socket := Some ?t, block_offset := word_of_nat (p + 16384), current_piece := i\<rparr>"
  have "min 16384 (n - p) = 16384"
    using assms(8) by simp
  then have "request_block k (c, d) = (None, (?c, d))"
    using request_block_next [OF assms(1,2,6), of d n] assms(4,7-9) by simp
  then have "RequestNextBlock k (c, d) = (None, (?c, d))"
    using assms(3-5) by (simp add: RequestNextBlock_def)
  moreover have "RequestNextBlock k (?c\<lparr>choked := False\<rparr>, d) = request_block k (?c\<lparr>choked := False\<rparr>, d)"
    using assms(5) by (simp add: RequestNextBlock_def)
  ultimately show ?thesis
    using request_block_next [of k "?c\<lparr>choked := False\<rparr>" ?t "p + 16384" d n] assms(1,7-9)
    by (simp add: handle_message_def message_ids)
qed

theorem choke_loses_the_request_witness:
  "\<exists>c'. act_then (RequestNextBlock accept_kernel ((fst (sample_session DOWNLOADING))\<lparr>current_piece := 0\<rparr>,
          Downloader (two_piece_torrent\<lparr>piece_length := 40000\<rparr>) ''me'' [] True)) (handle_all accept_kernel [[CHOKE], [UNCHOKE]])
      = (None, (c', Downloader (two_piece_torrent\<lparr>piece_length := 40000\<rparr>) ''me'' [] True))
    \<and> socket c' = Some (sample_transport\<lparr>wire := BuildRequest 0 0 16384 @ BuildRequest 0 16384 16384\<rparr>)"
proof -
  let ?c = "(fst (sample_session DOWNLOADING))\<lparr>current_piece := 0\<rparr>"
  let ?d = "Downloader (two_piece_torrent\<lparr>piece_length := 40000\<rparr>) ''me'' [] True"
  have c: "socket ?c = Some sample_transport" "\<not> choked ?c" "current_piece ?c = 0" "(0 :: i32) \<noteq> - 1"
      "block_offset ?c = word_of_nat 0"
    by (simp_all add: sample_session_def Connection_def)
  have "piece_len (torrent ?d) 0 = Inr (int 40000)"
    by (simp add: piece_len_def is_last_piece_def Downloader_def two_piece_torrent_def int_to_size_def size_of_def)
  from choke_loses_the_request [OF accepts_all_accept_kernel c this] show ?thesis
    by (simp add: request_of_def sample_transport_def)
qed

end
