(* ===== verification/Farm.thy ===== *)
theory Farm
  imports Connection_Props
begin

text \<open>
  The event loop: \<open>Farm\<close> of source/download/Farm.cpp and \<open>Downloader::Start\<close> of
  source/download/downloader.cpp. The loop runs over a script of what happens to it: the answers
  of \<open>epoll_wait\<close>, each event with the answers the kernel gives to the calls made while
  it is handled, and the steps of the writer thread in between. The connections share one
  \<open>Downloader\<close>.
\<close>

section \<open>State and script\<close>

record farm =
  epfd :: int
  connections :: "connection list"
  f_downloader :: downloader

text \<open>
  An event names a registered connection. \<open>ev_out\<close>: EPOLLOUT is set. \<open>ev_in\<close>:
  EPOLLIN is set, with what \<open>recv\<close> answers.
\<close>

record event =
  ev_conn :: nat
  ev_kernel :: kernel
  ev_out :: bool
  ev_in :: "recv_answer option"

datatype loop_step =
    Interrupted
  | Failed
  | Ready "event list"
  | Writer_Thread

text \<open>How a run over a script ends: the loop returned, a fault left it, or it is still waiting.\<close>

datatype run_end = Returned | Faulted fault | Waiting

section \<open>Operations\<close>

text \<open>\<open>Farm::Farm\<close>; \<open>ep\<close> is what \<open>epoll_create1\<close> returns.\<close>

definition new_farm :: "int \<Rightarrow> downloader \<Rightarrow> farm res" where
  "new_farm ep d =
     (if ep < 0 then Inl (Throw (Runtime_Error ''Failed to create epoll''))
      else Inr \<lparr>epfd = ep, connections = [], f_downloader = d\<rparr>)"

text \<open>\<open>~Farm\<close>.\<close>

definition farm_destroy :: "farm \<Rightarrow> os_event list" where
  "farm_destroy f = (if epfd f \<ge> 0 then [Closed (epfd f)] else [])"

text \<open>\<open>Farm::AddConnection\<close>; \<open>ctl\<close> is what \<open>epoll_ctl\<close> returns.\<close>

definition AddConnection :: "os_answers \<Rightarrow> int \<Rightarrow> connection \<Rightarrow> farm \<Rightarrow> farm" where
  "AddConnection os ctl conn f =
     (let conn = Connect os conn
      in if GetSocketFd conn \<ge> 0 then
           if ctl < 0 then f else f\<lparr>connections := connections f @ [conn]\<rparr>
         else f)"

text \<open>The body of the loop over the events.\<close>

definition conn_event :: "event \<Rightarrow> session \<Rightarrow> session act" where
  "conn_event e s =
     (let s = (if ev_out e then OnReadyWrite (ev_kernel e) s else s)
      in case ev_in e of None \<Rightarrow> (None, s) | Some a \<Rightarrow> OnReadyRead (ev_kernel e) a s)"

definition handle_event :: "event \<Rightarrow> farm \<Rightarrow> farm act" where
  "handle_event e f =
     (if ev_conn e \<ge> length (connections f) then (Some (Undefined Out_Of_Bounds), f)
      else
        (case conn_event e (connections f ! ev_conn e, f_downloader f) of
           (r, (c, d)) \<Rightarrow> (r, f\<lparr>connections := (connections f)[ev_conn e := c], f_downloader := d\<rparr>)))"

fun handle_events :: "event list \<Rightarrow> farm \<Rightarrow> farm act" where
  "handle_events [] f = (None, f)"
| "handle_events (e # es) f = act_then (handle_event e f) (handle_events es)"

definition writer_turn :: "farm \<Rightarrow> farm" where
  "writer_turn f = f\<lparr>f_downloader := (f_downloader f)
     \<lparr>file_writer := thread_run 1 (file_writer (f_downloader f))\<rparr>\<rparr>"

text \<open>\<open>Farm::Run\<close> with the completion test as argument.\<close>

fun Run :: "(farm \<Rightarrow> bool) \<Rightarrow> loop_step list \<Rightarrow> farm \<Rightarrow> run_end \<times> farm" where
  "Run checkComplete (Writer_Thread # script) f = Run checkComplete script (writer_turn f)"
| "Run checkComplete script f =
     (if connections f = [] then (Returned, f)
      else if checkComplete f then (Returned, f)
      else (case script of
              [] \<Rightarrow> (Waiting, f)
            | Interrupted # rest \<Rightarrow> Run checkComplete rest f
            | Ready es # rest \<Rightarrow>
                (case handle_events es f of
                   (Some flt, f') \<Rightarrow> (Faulted flt, f')
                 | (None, f') \<Rightarrow> Run checkComplete rest f')
            | _ # rest \<Rightarrow> (Returned, f)))"

text \<open>\<open>Farm::Run()\<close>, which never stops on its own.\<close>

definition Run_forever :: "loop_step list \<Rightarrow> farm \<Rightarrow> run_end \<times> farm" where
  "Run_forever = Run (\<lambda>_. False)"

text \<open>
  \<open>Downloader::Start\<close>: the writer thread is started, at most five connections are made and
  added to a new farm, and the loop runs until \<open>IsComplete\<close>. \<open>ans i\<close> what the system answers for the connection
  \<open>i\<close>.
\<close>

definition make_connections :: "peer list \<Rightarrow> connection list" where
  "make_connections ps = map Connection (take 5 ps)"

definition Start :: "int \<Rightarrow> (nat \<Rightarrow> os_answers \<times> int) \<Rightarrow> loop_step list \<Rightarrow> downloader \<Rightarrow> run_end \<times> farm" where
  "Start ep ans script d =
     (let d = d\<lparr>file_writer := writer_start (file_writer d)\<rparr>;
          conns = make_connections (peers d)
      in case new_farm ep d of
           Inl flt \<Rightarrow> (Faulted flt, \<lparr>epfd = ep, connections = [], f_downloader = d\<rparr>)
         | Inr f \<Rightarrow>
             let f = foldl (\<lambda>f i. AddConnection (fst (ans i)) (snd (ans i)) (conns ! i) f) f [0..<length conns]
             in Run (\<lambda>f. IsComplete (f_downloader f)) script f)"

section \<open>What a run keeps\<close>

fun step_events :: "loop_step \<Rightarrow> event list" where
  "step_events (Ready es) = es"
| "step_events _ = []"

definition script_events :: "loop_step list \<Rightarrow> event list" where
  "script_events script = concat (map step_events script)"

lemma script_events_simps [simp]:
  "script_events [] = []"
  "script_events (x # script) = step_events x @ script_events script"
  "script_events (script @ later) = script_events script @ script_events later"
  by (simp_all add: script_events_def)

text \<open>What the events of a run cost, when an event costs \<open>cost f e\<close> in the farm \<open>f\<close>.\<close>

fun events_cost :: "(farm \<Rightarrow> event \<Rightarrow> nat) \<Rightarrow> event list \<Rightarrow> farm \<Rightarrow> nat" where
  "events_cost cost [] f = 0"
| "events_cost cost (e # es) f = cost f e
     + (case handle_event e f of (None, f') \<Rightarrow> events_cost cost es f' | (Some _, _) \<Rightarrow> 0)"

fun run_cost :: "(farm \<Rightarrow> event \<Rightarrow> nat) \<Rightarrow> (farm \<Rightarrow> bool) \<Rightarrow> loop_step list \<Rightarrow> farm \<Rightarrow> nat" where
  "run_cost cost checkComplete [] f = 0"
| "run_cost cost checkComplete (x # script) f =
     (case x of
        Writer_Thread \<Rightarrow> run_cost cost checkComplete script (writer_turn f)
      | Interrupted \<Rightarrow> if connections f = [] \<or> checkComplete f then 0 else run_cost cost checkComplete script f
      | Failed \<Rightarrow> 0
      | Ready es \<Rightarrow>
          if connections f = [] \<or> checkComplete f then 0
          else events_cost cost es f
            + (case handle_events es f of (None, f') \<Rightarrow> run_cost cost checkComplete script f' | (Some _, _) \<Rightarrow> 0))"

text \<open>
  What a predicate on the farm must satisfy to hold at the end of a run: handling an event of the
  kind considered and a turn of the writer thread keep it. It may depend on what the events have
  cost so far.
\<close>

locale run_invariant =
  fixes holds :: "nat \<Rightarrow> farm \<Rightarrow> bool"
    and kind :: "event \<Rightarrow> bool"
    and cost :: "farm \<Rightarrow> event \<Rightarrow> nat"
  assumes holds_event: "holds n f \<Longrightarrow> kind e \<Longrightarrow> handle_event e f = (None, f') \<Longrightarrow> holds (n + cost f e) f'"
    and holds_thread: "holds n f \<Longrightarrow> holds n (writer_turn f)"
    and holds_more: "holds n f \<Longrightarrow> n \<le> m \<Longrightarrow> holds m f"
begin

lemma handle_events_holds:
  "handle_events es f = (None, f') \<Longrightarrow> list_all kind es \<Longrightarrow> holds n f \<Longrightarrow> holds (n + events_cost cost es f) f'"
proof (induction es f arbitrary: n rule: handle_events.induct)
  case (2 e es f)
  obtain r f1 where h: "handle_event e f = (r, f1)" by (cases "handle_event e f")
  with 2(2) have "r = None" by (cases r) simp_all
  then show ?case
    using 2(1) [of f1 "n + cost f e"] 2(2,3) h holds_event [OF 2(4)] by (simp add: add.assoc)
qed simp

lemma Run_holds:
  "Run chk script f = (r, f') \<Longrightarrow> (\<forall>flt. r \<noteq> Faulted flt) \<Longrightarrow> list_all kind (script_events script) \<Longrightarrow> holds n f \<Longrightarrow>
   holds (n + run_cost cost chk script f) f'"
proof (induction script arbitrary: n f)
  case Nil
  then show ?case
    by (auto split: if_splits)
next
  case (Cons x script)
  have stop: ?case if "f' = f"
    using holds_more [OF Cons.prems(4)] that by simp
  show ?case
  proof (cases x)
    case (Ready es)
    obtain e f1 where h: "handle_events es f = (e, f1)" by (cases "handle_events es f")
    show ?thesis
      using Cons.IH [of f1 "n + events_cost cost es f"] Cons.prems Ready h stop handle_events_holds [of es f f1 n]
      by (cases e) (auto simp: add.assoc split: if_splits)
  next
    case Writer_Thread
    then show ?thesis
      using Cons.IH [of "writer_turn f" n] Cons.prems holds_thread by simp
  qed (use Cons stop in \<open>auto split: if_splits\<close>)
qed

end

text \<open>Every event is of this kind.\<close>

abbreviation any_event :: "event \<Rightarrow> bool" where
  "any_event \<equiv> \<lambda>_. True"

lemma list_all_any [simp]: "list_all any_event es"
  by (simp add: list_all_iff)

section \<open>The loop moves the downloader by its own steps\<close>

lemma OnReadyWrite_downloader: "snd (OnReadyWrite k s) = snd s"
  by (auto simp: OnReadyWrite_def split: prod.split option.split sum.split)

lemma OnReadyRead_session_steps: "OnReadyRead k a s = (None, t) \<Longrightarrow> downloader_step\<^sup>*\<^sup>* (snd s) (snd t)"
  using session_steps.OnReadyRead_holds [of k a s t "snd s"] by simp

lemma conn_event_steps: "conn_event e s = (None, t) \<Longrightarrow> downloader_step\<^sup>*\<^sup>* (snd s) (snd t)"
  by (auto simp: conn_event_def OnReadyWrite_downloader Let_def split: if_splits option.splits
      dest!: OnReadyRead_session_steps)

lemma handle_event_steps:
  assumes "handle_event e f = (None, f')"
  shows "downloader_step\<^sup>*\<^sup>* (f_downloader f) (f_downloader f') \<and> length (connections f') = length (connections f)"
proof -
  obtain r t where c: "conn_event e (connections f ! ev_conn e, f_downloader f) = (r, t)"
    by (cases "conn_event e (connections f ! ev_conn e, f_downloader f)")
  then have "r = None" "f' = f\<lparr>connections := (connections f)[ev_conn e := fst t], f_downloader := snd t\<rparr>"
    using assms by (auto simp: handle_event_def split: if_splits prod.splits)
  then show ?thesis
    using conn_event_steps c by fastforce
qed

lemma writer_turn_step: "downloader_step\<^sup>*\<^sup>* (f_downloader f) (f_downloader (writer_turn f))"
proof (cases "thread_step (file_writer (f_downloader f))")
  case None
  then show ?thesis
    by (simp add: writer_turn_def)
next
  case (Some w)
  then have "downloader_step (f_downloader f) (f_downloader (writer_turn f))"
    using downloader_step.thread [OF Some] by (simp add: writer_turn_def)
  then show ?thesis ..
qed

lemma writer_turn_connections [simp]: "connections (writer_turn f) = connections f"
  by (simp add: writer_turn_def)

interpretation run_steps: run_invariant
  "\<lambda>_ f. downloader_step\<^sup>*\<^sup>* d0 (f_downloader f) \<and> length (connections f) = n0" any_event "\<lambda>_ _. 0" for d0 n0
proof
  fix f e and f' :: farm
  assume f: "downloader_step\<^sup>*\<^sup>* d0 (f_downloader f) \<and> length (connections f) = n0" "handle_event e f = (None, f')"
  then show "downloader_step\<^sup>*\<^sup>* d0 (f_downloader f') \<and> length (connections f') = n0"
    using handle_event_steps [OF f(2)] by auto
next
  fix f :: farm
  assume "downloader_step\<^sup>*\<^sup>* d0 (f_downloader f) \<and> length (connections f) = n0"
  then show "downloader_step\<^sup>*\<^sup>* d0 (f_downloader (writer_turn f)) \<and> length (connections (writer_turn f)) = n0"
    using writer_turn_step [of f] by auto
qed

lemma Run_steps:
  assumes "Run chk script f = (r, f')" and "\<forall>flt. r \<noteq> Faulted flt"
  shows "downloader_step\<^sup>*\<^sup>* (f_downloader f) (f_downloader f') \<and> length (connections f') = length (connections f)"
  using run_steps.Run_holds [OF assms, of "f_downloader f"] by simp

lemma AddConnection_length: "length (connections (AddConnection os ctl c f)) \<le> Suc (length (connections f))"
  by (simp add: AddConnection_def Let_def)

lemma AddConnection_downloader [simp]: "f_downloader (AddConnection os ctl c f) = f_downloader f"
  by (simp add: AddConnection_def Let_def)

text \<open>The farm that \<open>Start\<close> hands to \<open>Run\<close>.\<close>

definition started :: "int \<Rightarrow> (nat \<Rightarrow> os_answers \<times> int) \<Rightarrow> downloader \<Rightarrow> farm" where
  "started ep ans d = foldl (\<lambda>f i. AddConnection (fst (ans i)) (snd (ans i)) (make_connections (peers d) ! i) f)
     \<lparr>epfd = ep, connections = [], f_downloader = d\<lparr>file_writer := writer_start (file_writer d)\<rparr>\<rparr>
     [0..<length (make_connections (peers d))]"

lemma Start_Run:
  "0 \<le> ep \<Longrightarrow> Start ep ans script d = Run (\<lambda>f. IsComplete (f_downloader f)) script (started ep ans d)"
  by (simp add: Start_def started_def new_farm_def Let_def)

lemma foldl_AddConnection:
  "f_downloader (foldl (\<lambda>f i. AddConnection (os i) (ctl i) (cs i) f) f is) = f_downloader f
   \<and> length (connections (foldl (\<lambda>f i. AddConnection (os i) (ctl i) (cs i) f) f is)) \<le> length (connections f) + length is"
proof (induction "is" arbitrary: f)
  case (Cons i "is")
  show ?case
    using Cons.IH [of "AddConnection (os i) (ctl i) (cs i) f"] AddConnection_length [of "os i" "ctl i" "cs i" f]
    by (simp add: le_trans)
qed simp

lemma started_simps:
  "f_downloader (started ep ans d) = d\<lparr>file_writer := writer_start (file_writer d)\<rparr>"
  "length (connections (started ep ans d)) \<le> 5"
  using foldl_AddConnection [of "\<lambda>i. fst (ans i)" "\<lambda>i. snd (ans i)" "\<lambda>i. make_connections (peers d) ! i"
      "\<lparr>epfd = ep, connections = [], f_downloader = d\<lparr>file_writer := writer_start (file_writer d)\<rparr>\<rparr>"
      "[0..<length (make_connections (peers d))]"]
  by (simp_all add: started_def make_connections_def)

text \<open>Its connections are the ones made, with an open socket on which nothing was sent.\<close>

lemma AddConnection_open:
  "c \<in> set (connections (AddConnection os ctl (Connection p) f)) \<Longrightarrow>
   c \<in> set (connections f) \<or> (\<exists>t. c = Connection p\<lparr>socket := Some t\<rparr> \<and> wire t = [])"
  by (auto simp: AddConnection_def Connect_def Connection_def TcpClient_def SetTimeout_def GetSocketFd_def Let_def
      split: sum.splits if_splits)

lemma foldl_AddConnection_open:
  "c \<in> set (connections (foldl (\<lambda>f i. AddConnection (os i) (ctl i) (map Connection ps ! i) f) f is)) \<Longrightarrow>
   set is \<subseteq> {..<length ps} \<Longrightarrow> \<forall>c\<in>set (connections f). \<exists>p t. c = Connection p\<lparr>socket := Some t\<rparr> \<and> wire t = [] \<Longrightarrow>
   \<exists>p t. c = Connection p\<lparr>socket := Some t\<rparr> \<and> wire t = []"
proof (induction "is" arbitrary: f)
  case (Cons i "is")
  have "\<forall>c\<in>set (connections (AddConnection (os i) (ctl i) (Connection (ps ! i)) f)).
      \<exists>p t. c = Connection p\<lparr>socket := Some t\<rparr> \<and> wire t = []"
    using Cons.prems(3) AddConnection_open by blast
  then show ?case
    using Cons by simp
qed simp

lemma started_open:
  assumes "c \<in> set (connections (started ep ans d))"
  shows "\<exists>p t. c = Connection p\<lparr>socket := Some t\<rparr> \<and> wire t = []"
  using foldl_AddConnection_open [of c "\<lambda>i. fst (ans i)" "\<lambda>i. snd (ans i)" "take 5 (peers d)"] assms
  unfolding started_def make_connections_def by fastforce

text \<open>Every downloader the loop can see is reachable.\<close>

lemma reachable_rtranclp: "step\<^sup>*\<^sup>* s t \<Longrightarrow> reachable init step s \<Longrightarrow> reachable init step t"
  by (induction rule: rtranclp_induct) (auto intro: reachable_step)

lemma started_reachable:
  assumes "length (piece_hashes tf) < 2 ^ 63"
  shows "reachable (downloader_init tf) downloader_step (f_downloader (started ep ans (Downloader tf pid ps opened)))"
proof -
  let ?d = "Downloader tf pid ps opened"
  have s: "downloader_step ?d (?d\<lparr>file_writer := writer_start (file_writer ?d)\<rparr>)"
    by (rule downloader_step.start) (simp add: Downloader_def Writer_def)
  show ?thesis
    unfolding started_simps by (rule reachable_step [OF reachable_fresh [OF assms] s])
qed

lemma Run_reachable:
  assumes "length (piece_hashes tf) < 2 ^ 63" and "Run chk script (started ep ans (Downloader tf pid ps opened)) = (r, f)"
    and "\<forall>flt. r \<noteq> Faulted flt"
  shows "reachable (downloader_init tf) downloader_step (f_downloader f)"
  using reachable_rtranclp [OF conjunct1 [OF Run_steps [OF assms(2,3)]] started_reachable [OF assms(1)]] .


section \<open>The life of a connection\<close>

definition flag_agrees :: "connection \<Rightarrow> bool" where
  "flag_agrees c \<longleftrightarrow> (handshake_done c \<longleftrightarrow> c_state c = DOWNLOADING)"

text \<open>What any number of events may do to a connection.\<close>

definition ages :: "connection \<Rightarrow> connection \<Rightarrow> bool" where
  "ages c c' \<longleftrightarrow> (flag_agrees c \<longrightarrow> flag_agrees c' \<and> c_state c \<le> c_state c') \<and> (socket c = None \<longrightarrow> c' = c)"

lemma ages_refl [simp]: "ages c c"
  by (simp add: ages_def)

lemma ages_trans: "ages a b \<Longrightarrow> ages b c \<Longrightarrow> ages a c"
  by (auto simp: ages_def)

lemma ages_all_refl [simp]: "list_all2 ages cs cs"
  by (simp add: list_all2_refl)

lemma ages_all_trans: "list_all2 ages as bs \<Longrightarrow> list_all2 ages bs cs \<Longrightarrow> list_all2 ages as cs"
  using list_all2_trans [of ages ages ages] ages_trans by blast

lemma OnReadyWrite_ages: "ages (fst s) (fst (OnReadyWrite k s))"
  by (auto simp: OnReadyWrite_def ages_def flag_agrees_def split: prod.split option.split sum.split)

lemma OnReadyRead_ages:
  assumes "OnReadyRead k a s = (None, t)"
  shows "ages (fst s) (fst t)"
proof (cases "socket (fst s) = None")
  case True
  then show ?thesis
    using assms by (auto simp: OnReadyRead_def split: prod.splits)
next
  case False
  then show ?thesis
    using lifecycle.OnReadyRead_holds [OF assms, of "c_state (fst s)"] by (auto simp: ages_def flag_agrees_def lifecycle_def)
qed

lemma conn_event_ages: "conn_event e s = (None, t) \<Longrightarrow> ages (fst s) (fst t)"
  using OnReadyWrite_ages [of s "ev_kernel e"]
  by (auto simp: conn_event_def Let_def split: if_splits option.splits
      dest!: OnReadyRead_ages intro: ages_trans)

lemma handle_event_ages:
  assumes "handle_event e f = (None, f')"
  shows "list_all2 ages (connections f) (connections f')"
proof -
  obtain r t where c: "conn_event e (connections f ! ev_conn e, f_downloader f) = (r, t)"
    by (cases "conn_event e (connections f ! ev_conn e, f_downloader f)")
  then have "r = None" "f' = f\<lparr>connections := (connections f)[ev_conn e := fst t], f_downloader := snd t\<rparr>"
    using assms by (auto simp: handle_event_def split: if_splits prod.splits)
  moreover from this have "ages (connections f ! ev_conn e) (fst t)"
    using conn_event_ages [of e "(connections f ! ev_conn e, f_downloader f)" t] c by simp
  ultimately show ?thesis
    by (auto simp: list_all2_conv_all_nth) (metis ages_refl nth_list_update_eq nth_list_update_neq)
qed

interpretation run_ages: run_invariant "\<lambda>_ f. list_all2 ages cs (connections f)" any_event "\<lambda>_ _. 0" for cs
  by unfold_locales (auto dest!: handle_event_ages intro: ages_all_trans)

lemma Run_ages:
  assumes "Run chk script f = (r, f')" and "\<forall>flt. r \<noteq> Faulted flt"
  shows "list_all2 ages (connections f) (connections f')"
  using run_ages.Run_holds [OF assms, of "connections f"] by simp

text \<open>
  The steps in which a connection goes through its states: most leave the state alone, among them
  the closing of the socket; from CONNECTING it goes on when the kernel has taken the handshake
  of this torrent and this client, and from HANDSHAKING when that of the peer is taken off the
  buffer. A closed connection takes no step.
\<close>

inductive life_step :: "torrent_file \<Rightarrow> string \<Rightarrow> connection \<Rightarrow> connection \<Rightarrow> bool" for tf pid where
  same_state: "socket c \<noteq> None \<Longrightarrow> c_state c' = c_state c \<Longrightarrow> handshake_done c' = handshake_done c \<Longrightarrow> life_step tf pid c c'"
| handshake_sent: "socket c = Some t \<Longrightarrow> c_state c = CONNECTING \<Longrightarrow> TcpSend k t (BuildHandshake tf pid) = Inr t' \<Longrightarrow>
    life_step tf pid c (c\<lparr>socket := Some t', c_state := HANDSHAKING\<rparr>)"
| handshake_received: "socket c \<noteq> None \<Longrightarrow> c_state c = HANDSHAKING \<Longrightarrow> c_state c' = DOWNLOADING \<Longrightarrow> handshake_done c' \<Longrightarrow>
    life_step tf pid c c'"

abbreviation lives :: "torrent_file \<Rightarrow> string \<Rightarrow> connection \<Rightarrow> connection \<Rightarrow> bool" where
  "lives tf pid \<equiv> (life_step tf pid)\<^sup>*\<^sup>*"

lemma lives_same: "lives tf pid a c \<Longrightarrow> socket c \<noteq> None \<Longrightarrow> c_state c' = c_state c \<Longrightarrow> handshake_done c' = handshake_done c \<Longrightarrow>
    lives tf pid a c'"
  by (erule rtranclp.rtrancl_into_rtrancl) (rule same_state)

text \<open>There is no way from CONNECTING to DOWNLOADING but over the sending of the handshake.\<close>

lemma lives_over_handshaking:
  "lives tf pid a c \<Longrightarrow> c_state a = CONNECTING \<Longrightarrow> c_state c \<noteq> CONNECTING \<Longrightarrow>
   \<exists>b t t' k. lives tf pid a b \<and> c_state b = CONNECTING \<and> socket b = Some t \<and> TcpSend k t (BuildHandshake tf pid) = Inr t'
     \<and> lives tf pid (b\<lparr>socket := Some t', c_state := HANDSHAKING\<rparr>) c"
proof (induction rule: rtranclp_induct)
  case (step y z)
  show ?case
  proof (cases "c_state y = CONNECTING")
    case True
    with step.hyps(2) step.prems obtain t t' k where
        "socket y = Some t" "TcpSend k t (BuildHandshake tf pid) = Inr t'" "z = y\<lparr>socket := Some t', c_state := HANDSHAKING\<rparr>"
      by (cases rule: life_step.cases) auto
    then show ?thesis
      using step.hyps(1) True by blast
  next
    case False
    then show ?thesis
      using step.IH [OF step.prems(1)] step.hyps(2) by (meson rtranclp.rtrancl_into_rtrancl)
  qed
qed simp

interpretation living: counted_invariant k
  "\<lambda>_ s. socket (fst s) \<noteq> None \<and> lives tf pid a (fst s)" "\<lambda>_ s. socket (fst s) \<noteq> None \<and> lives tf pid a (fst s)" for k tf pid a
proof
  fix s :: session and b
  assume "socket (fst s) \<noteq> None \<and> lives tf pid a (fst s)"
  then show "socket (fst (set_buf b s)) \<noteq> None \<and> lives tf pid a (fst (set_buf b s))"
    using lives_same [of tf pid a "fst s" "fst (set_buf b s)"] by (simp add: set_buf_def)
next
  fix c :: connection and d :: downloader and e t
  let ?s = "(c\<lparr>handshake_done := True, c_state := DOWNLOADING\<rparr>, d)"
  assume c: "socket (fst (c, d)) \<noteq> None \<and> lives tf pid a (fst (c, d))" "c_state c = HANDSHAKING"
    and "conn_send k BuildInterested ?s = (e, t)"
  then have t: "c_state (fst t) = DOWNLOADING" "handshake_done (fst t)" "socket (fst t) \<noteq> None"
    using conn_send_keeps [of ?s k BuildInterested] by (simp_all add: keeps_def)
  then have "life_step tf pid c (fst t)"
    using c by (intro handshake_received) simp_all
  then show "if e = None then socket (fst t) \<noteq> None \<and> lives tf pid a (fst t) else socket (fst t) \<noteq> None \<and> lives tf pid a (fst t)"
    using c(1) t(3) rtranclp.rtrancl_into_rtrancl [of "life_step tf pid" a c "fst t"] by simp
next
  fix s mid payload e t
  assume s: "socket (fst s) \<noteq> None \<and> lives tf pid a (fst s)" and "handle_message k mid payload s = (e, t)"
  then have "keeps s t"
    using handle_message_keeps [of s k mid payload] by simp
  then show "if e = None then socket (fst t) \<noteq> None \<and> lives tf pid a (fst t) else socket (fst t) \<noteq> None \<and> lives tf pid a (fst t)"
    using s lives_same [of tf pid a "fst s" "fst t"] by (simp add: keeps_def)
qed

lemma lives_close: "lives tf pid a c \<Longrightarrow> lives tf pid a (c\<lparr>socket := None\<rparr>)"
proof (cases "socket c = None")
  case True
  then have "c\<lparr>socket := None\<rparr> = c" by simp
  then show "lives tf pid a c \<Longrightarrow> ?thesis" by simp
qed (auto intro: lives_same)

lemma OnReadyRead_lives:
  assumes "OnReadyRead k x s = (None, t)" and "lives tf pid a (fst s)"
  shows "lives tf pid a (fst t)"
  using assms(1)
proof (cases rule: OnReadyRead_cases)
  case (digested b e u)
  have "socket (fst u) \<noteq> None \<and> lives tf pid a (fst u)"
    using living.ProcessBuffer_counts [OF living.counted_buf digested(3,4), of tf pid a] assms(2) digested(6)
    by (auto split: if_splits)
  then show ?thesis
    using digested(5) lives_close by auto
qed (use assms(2) lives_close in auto)

lemma OnReadyWrite_lives:
  assumes "lives (torrent (snd s)) (my_id (snd s)) a (fst s)"
  shows "lives (torrent (snd s)) (my_id (snd s)) a (fst (OnReadyWrite k s))"
proof -
  obtain c d where s: "s = (c, d)" by (cases s)
  have "lives (torrent d) (my_id d) a (c\<lparr>socket := Some t', c_state := HANDSHAKING\<rparr>)"
    if "socket c = Some t" "c_state c = CONNECTING" "TcpSend k t (BuildHandshake (torrent d) (my_id d)) = Inr t'" for t t'
    using assms handshake_sent [OF that] by (simp add: s)
  then show ?thesis
    using assms lives_close [of _ _ a c] by (auto simp: s OnReadyWrite_def split: option.split sum.split)
qed

lemma conn_event_lives:
  assumes "conn_event e s = (None, t)" and "lives (torrent (snd s)) (my_id (snd s)) a (fst s)"
  shows "lives (torrent (snd s)) (my_id (snd s)) a (fst t)"
  using assms OnReadyWrite_lives [OF assms(2), of "ev_kernel e"] OnReadyRead_lives [of "ev_kernel e"]
  by (auto simp: conn_event_def Let_def split: if_splits option.splits)

text \<open>The torrent and the name of the client never change.\<close>

lemma downloader_step_names: "downloader_step d d' \<Longrightarrow> torrent d' = torrent d \<and> my_id d' = my_id d"
  by (auto elim!: downloader_stepE simp: OnBlockReceived_frame GetNextPieceToRequest_frame)

lemma downloader_steps_names: "downloader_step\<^sup>*\<^sup>* d d' \<Longrightarrow> torrent d' = torrent d \<and> my_id d' = my_id d"
  by (induction rule: rtranclp_induct) (auto dest: downloader_step_names)

interpretation run_lives: run_invariant
  "\<lambda>_ f. list_all2 (lives tf pid) cs (connections f) \<and> torrent (f_downloader f) = tf \<and> my_id (f_downloader f) = pid"
  any_event "\<lambda>_ _. 0" for tf pid cs
proof
  fix f e and f' :: farm
  assume f: "list_all2 (lives tf pid) cs (connections f) \<and> torrent (f_downloader f) = tf \<and> my_id (f_downloader f) = pid"
    and h: "handle_event e f = (None, f')"
  obtain r t where c: "conn_event e (connections f ! ev_conn e, f_downloader f) = (r, t)"
    by (cases "conn_event e (connections f ! ev_conn e, f_downloader f)")
  then have r: "r = None" "ev_conn e < length (connections f)"
      "f' = f\<lparr>connections := (connections f)[ev_conn e := fst t], f_downloader := snd t\<rparr>"
    using h by (auto simp: handle_event_def split: if_splits prod.splits)
  have "lives tf pid (cs ! ev_conn e) (fst t)"
    using conn_event_lives [of e "(connections f ! ev_conn e, f_downloader f)" t "cs ! ev_conn e"] c f r(1,2)
    by (simp add: list_all2_conv_all_nth)
  then have "list_all2 (lives tf pid) cs (connections f')"
    using f r(2,3) by (auto simp: list_all2_conv_all_nth) (metis nth_list_update_eq nth_list_update_neq)
  moreover have "torrent (f_downloader f') = tf" "my_id (f_downloader f') = pid"
    using downloader_steps_names handle_event_steps [OF h] f by metis+
  ultimately show "list_all2 (lives tf pid) cs (connections f') \<and> torrent (f_downloader f') = tf \<and> my_id (f_downloader f') = pid"
    by simp
qed (simp_all add: writer_turn_def)

lemma Run_lives:
  assumes "Run chk script f = (r, f')" and "\<forall>flt. r \<noteq> Faulted flt"
  shows "list_all2 (lives (torrent (f_downloader f)) (my_id (f_downloader f))) (connections f) (connections f')"
  using run_lives.Run_holds [OF assms, of "torrent (f_downloader f)" "my_id (f_downloader f)" "connections f"]
  by (simp add: list_all2_refl)

section \<open>Faults of the loop\<close>

lemma conn_event_faults: "fst (conn_event e s) = Some flt \<Longrightarrow> \<exists>u. flt = Undefined u"
proof (cases "ev_in e")
  case (Some a)
  then show "fst (conn_event e s) = Some flt \<Longrightarrow> \<exists>u. flt = Undefined u"
    using OnReadyRead_faults [of "ev_kernel e" a "if ev_out e then OnReadyWrite (ev_kernel e) s else s"]
    by (auto simp: conn_event_def)
qed (simp add: conn_event_def)

lemma handle_event_faults: "fst (handle_event e f) = Some flt \<Longrightarrow> \<exists>u. flt = Undefined u"
  using conn_event_faults [of e "(connections f ! ev_conn e, f_downloader f)" flt]
  by (auto simp: handle_event_def split: if_splits prod.splits)

lemma handle_events_faults: "fst (handle_events es f) = Some flt \<Longrightarrow> \<exists>u. flt = Undefined u"
proof (induction es f rule: handle_events.induct)
  case (2 e es f)
  obtain r f1 where "handle_event e f = (r, f1)" by (cases "handle_event e f")
  then show ?case
    using 2 handle_event_faults [of e f flt] by (cases r) simp_all
qed simp

lemma reachable_incomplete:
  "reachable (downloader_init tf) downloader_step d \<Longrightarrow> 0 < tf_length tf \<Longrightarrow> \<not> IsComplete d"
  using downloader.inv_reachable [of tf d] by (simp add: downloader_inv_def IsComplete_def)

lemma Run_waits:
  assumes "0 < tf_length tf"
  shows "Run (\<lambda>f. IsComplete (f_downloader f)) script f = (r, f') \<Longrightarrow>
    reachable (downloader_init tf) downloader_step (f_downloader f) \<Longrightarrow> connections f \<noteq> [] \<Longrightarrow>
    Failed \<notin> set script \<Longrightarrow> r = Waiting \<or> (\<exists>u. r = Faulted (Undefined u))"
proof (induction script arbitrary: f)
  case Nil
  then show ?case
    using reachable_incomplete assms by auto
next
  case (Cons x script)
  show ?case
  proof (cases x)
    case (Ready es)
    obtain e f1 where h: "handle_events es f = (e, f1)" by (cases "handle_events es f")
    show ?thesis
    proof (cases e)
      case None
      then have "reachable (downloader_init tf) downloader_step (f_downloader f1)" "connections f1 \<noteq> []"
        using run_steps.handle_events_holds [of es f f1] h reachable_rtranclp Cons.prems(2,3) by fastforce+
      then show ?thesis
        using Cons Ready h None reachable_incomplete [OF Cons.prems(2) assms] by simp
    next
      case (Some flt)
      then show ?thesis
        using Cons Ready h handle_events_faults [of es f flt] reachable_incomplete [OF Cons.prems(2) assms] by auto
    qed
  next
    case Writer_Thread
    then show ?thesis
      using Cons reachable_rtranclp [OF writer_turn_step] by auto
  qed (use Cons reachable_incomplete [OF Cons.prems(2) assms] in auto)
qed

section \<open>Properties\<close>

text \<open>
  C29: a download never ends by itself. Whatever the peers send and in whatever order events and
  writer steps come, \<open>Start\<close> on a torrent of positive length with at least one connection
  is still waiting at the end of the script, unless \<open>epoll_wait\<close> failed; the only other
  way out is undefined behaviour, because no exception leaves the loop.
\<close>

theorem download_never_ends:
  assumes "length (piece_hashes tf) < 2 ^ 63" and "0 < tf_length tf" and "0 \<le> ep"
    and "Start ep ans script (Downloader tf pid ps opened) = (r, f)" and "Failed \<notin> set script"
    and "connections (started ep ans (Downloader tf pid ps opened)) \<noteq> []"
  shows "r = Waiting \<or> (\<exists>u. r = Faulted (Undefined u))"
  using Run_waits [OF assms(2) _ started_reachable [OF assms(1)] assms(6,5)] assms(3,4) by (simp add: Start_Run)

definition all_connect :: "nat \<Rightarrow> os_answers \<times> int" where
  "all_connect i = (\<lparr>getaddrinfo_ret = 0, socket_ret = 10 + int i, connect_ret = 0\<rparr>, 0)"

lemma started_one:
  "connections (started ep all_connect (Downloader tf pid [p] opened))
   = [Connection p\<lparr>socket := Some \<lparr>sock = 10, t_host = ip p, t_port = uint (peer_port p), rcv_timeout = Some 2, wire = []\<rparr>\<rparr>]"
  by (simp add: started_def make_connections_def Downloader_def AddConnection_def Connect_def TcpClient_def
      all_connect_def GetSocketFd_def GetSocket_def SetTimeout_def Connection_def)

theorem download_never_ends_witness:
  "fst (Start 3 all_connect [Interrupted, Writer_Thread, Ready []] (Downloader two_piece_torrent ''me'' [Peer ''h'' 1 []] True))
   = Waiting"
proof -
  let ?d = "Downloader two_piece_torrent ''me'' [Peer ''h'' 1 []] True"
  obtain r f where s: "Start 3 all_connect [Interrupted, Writer_Thread, Ready []] ?d = (r, f)"
    by (cases "Start 3 all_connect [Interrupted, Writer_Thread, Ready []] ?d")
  moreover have "r \<noteq> Faulted flt" for flt
    using s by (auto simp: Start_Run split: if_splits)
  ultimately show ?thesis
    using download_never_ends [OF _ _ _ s] by (simp add: started_one two_piece_torrent_def)
qed

text \<open>
  A whole run keeps the writer clean. After any run of \<open>Start\<close> that no undefined
  behaviour ended, with any number of peers sending anything, every block of data given to the
  writer is at the position of a piece and has the SHA-1 text the torrent lists for it.
\<close>

theorem run_writes_only_verified:
  assumes "length (piece_hashes tf) < 2 ^ 63" and "0 \<le> ep"
    and "Start ep ans script (Downloader tf pid ps opened) = (r, f)" and "\<forall>flt. r \<noteq> Faulted flt"
  shows "\<forall>j\<in>set (w_added (file_writer (f_downloader f))). \<exists>i<length (piece_hashes tf).
    job_offset j = int i * piece_length tf \<and> Calculate (job_b j) = piece_hashes tf ! i"
  using downloader.inv_reachable [OF Run_reachable [OF assms(1) _ assms(4)]] assms(2,3)
  by (simp add: Start_Run downloader_inv_def verified_job_def)


text \<open>A run in which one peer sends the second piece.\<close>

definition hello :: event where
  "hello = \<lparr>ev_conn = 0, ev_kernel = accept_kernel, ev_out = True, ev_in = None\<rparr>"

definition second_piece :: event where
  "second_piece = \<lparr>ev_conn = 0, ev_kernel = accept_kernel, ev_out = False,
     ev_in = Some (Some (replicate 68 0 @ frame (PIECE # piece_payload 1 0 [4, 5])))\<rparr>"

lemma one_block_received:
  assumes "current_piece_index d = - 1" and "torrent d = two_piece_torrent"
  shows "\<exists>d'. OnBlockReceived 1 0 [4, 5] d = (None, d')
     \<and> w_added (file_writer d') = w_added (file_writer d) @ [\<lparr>job_b = [4, 5], job_offset = 3\<rparr>]"
proof -
  let ?bs = "[(0, [4, 5])] :: (i32 \<times> buffer) list"
  have l: "is_last_piece two_piece_torrent 1"
    by (simp add: is_last_piece_def two_piece_torrent_def int_to_size_def size_of_def)
  have "piece_len two_piece_torrent 1 = Inr 2"
    using l by (simp add: piece_len_def c_rem_def) (simp add: two_piece_torrent_def)
  then have "piece_len (torrent d) 1 = Inr (int (length [4, 5 :: u8]))"
    by (simp add: assms)
  moreover have "valid_piece (torrent d) 1"
    unfolding assms by (simp add: valid_piece_def two_piece_torrent_def in_int_range_def)
  moreover have "Calculate [4, 5] = piece_hashes (torrent d) ! nat (sint (1 :: i32))"
    unfolding assms by (simp add: two_piece_torrent_def)
  moreover have "\<forall>b\<in>set ?bs. block_of [4, 5] b"
    by (simp add: block_of_def file_range_def)
  ultimately have "\<exists>d'. receive_all 1 ?bs d = (None, d') \<and> w_added (file_writer d') = w_added (file_writer d)
      @ [\<lparr>job_b = [4, 5], job_offset = sint (1 :: i32) * piece_length (torrent d)\<rparr>]"
    using assms(1) by (intro receive_all_piece) simp_all
  then obtain d' where r: "receive_all 1 ?bs d = (None, d')"
    and w: "w_added (file_writer d') = w_added (file_writer d) @ [\<lparr>job_b = [4, 5], job_offset = 3\<rparr>]"
    unfolding assms by (auto simp: two_piece_torrent_def)
  obtain e u where o: "OnBlockReceived 1 0 [4, 5] d = (e, u)"
    by (cases "OnBlockReceived 1 0 [4, 5] d")
  with r have "(e, u) = (None, d')"
    by (cases e) simp_all
  with o w show ?thesis
    by simp
qed

lemma second_piece_read:
  assumes "socket c = Some t" and "c_state c = HANDSHAKING" and "recv_buffer c = []" and "choked c"
    and "OnBlockReceived 1 0 [4, 5] d = (None, d')"
  shows "\<exists>c'. OnReadyRead accept_kernel (Some (replicate 68 0 @ frame (PIECE # piece_payload 1 0 [4, 5]))) (c, d)
    = (None, (c', d'))"
proof -
  let ?f = "frame (PIECE # piece_payload 1 0 [4, 5])" and ?h = "replicate 68 0 :: buffer"
  let ?s = "(c\<lparr>handshake_done := True, c_state := DOWNLOADING\<rparr>, d)"
  let ?u = "(c\<lparr>handshake_done := True, c_state := DOWNLOADING,
    socket := Some (t\<lparr>wire := wire t @ BuildInterested\<rparr>), recv_buffer := ?f\<rparr>, d)"
  let ?v = "(c\<lparr>handshake_done := True, c_state := DOWNLOADING,
    socket := Some (t\<lparr>wire := wire t @ BuildInterested\<rparr>), recv_buffer := []\<rparr>, d)"
  have "conn_send accept_kernel BuildInterested (set_buf ?f ?s) = (None, ?u)"
    using assms(1) by (simp add: conn_send_def TcpSend_accepts_all)
  then have h: "ProcessBuffer accept_kernel (c\<lparr>recv_buffer := ?h @ ?f\<rparr>, d) = ProcessBuffer accept_kernel ?u"
    using ProcessBuffer_handshake [of "(c\<lparr>recv_buffer := ?h @ ?f\<rparr>, d)" accept_kernel] assms(2) by simp
  have m: "handle_message accept_kernel PIECE (piece_payload 1 0 [4, 5]) ?v = (None, (fst ?v, d'))"
    using assms(4,5) piece_payload_fields [of 1 0 "[4, 5]"]
    by (simp add: handle_message_def message_ids RequestNextBlock_def)
  have "ProcessBuffer accept_kernel ?u = (None, (fst ?v, d'))"
    using ProcessBuffer_frame [of ?v "PIECE # piece_payload 1 0 [4, 5]" accept_kernel "[]"] m
      ProcessBuffer_waiting [of "(fst ?v, d')" accept_kernel]
    by (simp add: waiting_def piece_payload_fields)
  then show ?thesis
    using h OnReadyRead_Some [of "(c, d)" "?h @ ?f" accept_kernel] assms(1,3) by (simp add: close_on_throw_def)
qed

text \<open>The run itself.\<close>

abbreviation one_peer :: downloader where
  "one_peer \<equiv> Downloader two_piece_torrent ''me'' [Peer ''h'' 1 []] True"

lemma second_piece_run:
  "\<exists>r f. Start 3 all_connect [Ready [hello, second_piece]] one_peer = (r, f) \<and> (\<forall>flt. r \<noteq> Faulted flt)
    \<and> w_added (file_writer (f_downloader f)) = [\<lparr>job_b = [4, 5], job_offset = 3\<rparr>]"
proof -
  let ?f = "started 3 all_connect one_peer" and ?c = "Connection (Peer ''h'' 1 [])"
  let ?t = "\<lparr>sock = 10, t_host = ''h'', t_port = 1, rcv_timeout = Some 2, wire = []\<rparr>"
  let ?t' = "?t\<lparr>wire := BuildHandshake two_piece_torrent ''me''\<rparr>"
  let ?c1 = "?c\<lparr>socket := Some ?t', c_state := HANDSHAKING\<rparr>"
  have t: "torrent (f_downloader ?f) = two_piece_torrent" "my_id (f_downloader ?f) = ''me''"
      "current_piece_index (f_downloader ?f) = - 1" "w_added (file_writer (f_downloader ?f)) = []"
    by (simp_all add: started_simps Downloader_def Writer_def writer_start_def)
  have c: "connections ?f = [?c\<lparr>socket := Some ?t\<rparr>]"
    by (simp add: started_one Peer_def)
  have 1: "handle_event hello ?f = (None, ?f\<lparr>connections := [?c1]\<rparr>)"
    by (simp add: handle_event_def hello_def c conn_event_def OnReadyWrite_def TcpSend_accepts_all t)
      (simp add: Connection_def)
  obtain d' where d': "OnBlockReceived 1 0 [4, 5] (f_downloader ?f) = (None, d')"
      "w_added (file_writer d') = [\<lparr>job_b = [4, 5], job_offset = 3\<rparr>]"
    using one_block_received [OF t(3,1)] t(4) by auto
  obtain c' where "OnReadyRead accept_kernel (Some (replicate 68 0 @ frame (PIECE # piece_payload 1 0 [4, 5])))
      (?c1, f_downloader ?f) = (None, (c', d'))"
    using second_piece_read [OF _ _ _ _ d'(1), of ?c1 ?t'] by (auto simp: Connection_def)
  then have 2: "handle_event second_piece (?f\<lparr>connections := [?c1]\<rparr>)
      = (None, ?f\<lparr>connections := [c'], f_downloader := d'\<rparr>)"
    by (simp add: handle_event_def second_piece_def conn_event_def)
  have "\<not> IsComplete (f_downloader ?f)"
    by (rule reachable_incomplete [OF started_reachable]) (simp_all add: two_piece_torrent_def)
  moreover have "connections ?f \<noteq> []"
    by (simp add: c)
  ultimately obtain r f where s: "Start 3 all_connect [Ready [hello, second_piece]] one_peer = (r, f)"
      "f_downloader f = d'" "\<forall>flt. r \<noteq> Faulted flt"
    using 1 2 by (cases "IsComplete d'") (auto simp: Start_Run split: if_splits)
  then show ?thesis
    using d'(2) by blast
qed

theorem run_writes_only_verified_witness:
  "\<exists>i<length (piece_hashes two_piece_torrent). 3 = int i * piece_length two_piece_torrent
    \<and> Calculate [4, 5] = piece_hashes two_piece_torrent ! i"
proof -
  obtain r f where s: "Start 3 all_connect [Ready [hello, second_piece]] one_peer = (r, f)" "\<forall>flt. r \<noteq> Faulted flt"
      "w_added (file_writer (f_downloader f)) = [\<lparr>job_b = [4, 5], job_offset = 3\<rparr>]"
    using second_piece_run by blast
  have "length (piece_hashes two_piece_torrent) < 2 ^ 63"
    by (simp add: two_piece_torrent_def)
  from run_writes_only_verified [OF this _ s(1,2)] s(3) show ?thesis
    by simp
qed



end
