(* ===== verification/Client.thy ===== *)
theory Client
  imports Farm Tracker_Props
begin

text \<open>
  The program itself: \<open>main\<close> of test/main.cpp, which loads the torrent, asks the tracker
  for peers and runs the download. Everything the outside world answers is one record.
\<close>

record world =
  wd_file :: "buffer option" \<comment> \<open>the bytes of the torrent file\<close>
  wd_tcp :: os_answers
  wd_kernel :: kernel
  wd_recv :: recv_answer
  wd_udp :: udp_answers
  wd_opened :: bool \<comment> \<open>whether the output file could be opened\<close>
  wd_epfd :: int
  wd_conns :: "nat \<Rightarrow> os_answers \<times> int"
  wd_script :: "loop_step list"

text \<open>How the process ends, with the farm it leaves behind once the loop was entered.\<close>

datatype outcome =
    Exit int "farm option"
  | Running farm
  | Crashed ub

definition my_peer_id :: string where
  "my_peer_id = ''-CPP-CLIENT-0001-XYZ''"

text \<open>The body of the \<open>try\<close> block up to the check of the peer list, with the peer id \<open>pid\<close>.\<close>

definition find_peers :: "(buffer \<Rightarrow> buffer) \<Rightarrow> string \<Rightarrow> string \<Rightarrow> world \<Rightarrow> (torrent_file \<times> peer list) res" where
  "find_peers sha1 pid filepath os =
     res_bind (Load sha1 filepath (wd_file os)) (\<lambda>tf.
     res_bind (GetPeers (wd_tcp os) (wd_kernel os) (wd_recv os) (wd_udp os) tf pid 6881) (\<lambda>ps.
     Inr (tf, ps)))"

definition main :: "(buffer \<Rightarrow> buffer) \<Rightarrow> string list \<Rightarrow> world \<Rightarrow> outcome" where
  "main sha1 argv os =
     (if length argv < 2 then Exit 1 None
      else
        (case find_peers sha1 my_peer_id (argv ! 1) os of
           Inl (Throw e) \<Rightarrow> Exit 1 None
         | Inl (Undefined u) \<Rightarrow> Crashed u
         | Inr (tf, ps) \<Rightarrow>
             if ps = [] then Exit 1 None
             else
               (case Start (wd_epfd os) (wd_conns os) (wd_script os)
                       (Downloader tf my_peer_id ps (wd_opened os)) of
                  (Returned, f) \<Rightarrow> Exit 0 (Some f)
                | (Waiting, f) \<Rightarrow> Running f
                | (Faulted (Throw e), f) \<Rightarrow> Exit 1 (Some f)
                | (Faulted (Undefined u), f) \<Rightarrow> Crashed u)))"

section \<open>What reaching the loop says\<close>

lemma Load_piece_hashes:
  assumes "Load sha1 fp (Some data) = Inr t" and "length data < 2 ^ 63"
  shows "(\<forall>h\<in>set (piece_hashes t). length h = 20) \<and> length (piece_hashes t) < 2 ^ 63"
proof -
  obtain d i blob where dec: "Decode data = Inr (BDict d)" and i: "map_of d ''info'' = Some (BDict i)"
    and b: "map_of i ''pieces'' = Some (BString blob)" "length blob mod 20 = 0" "piece_hashes t = split_pieces blob 0"
    using Load_InrD [OF assms(1)] by (elim exE conjE) (rule that)
  have "wf_bnode (BDict i)"
    using wf_lookup [OF Decode_wf_result [OF dec assms(2)] i] .
  then have "wf_bnode (BString blob)"
    by (rule wf_lookup [OF _ b(1)])
  then show ?thesis
    using b(2,3) split_pieces_blocks [OF b(2)] by simp
qed

lemma main_reaches_loop:
  assumes "main sha1 argv os = Exit 0 (Some f) \<or> main sha1 argv os = Running f"
  shows "\<exists>tf ps r. Load sha1 (argv ! 1) (wd_file os) = Inr tf
    \<and> Start (wd_epfd os) (wd_conns os) (wd_script os) (Downloader tf my_peer_id ps (wd_opened os)) = (r, f)
    \<and> (r = Returned \<and> main sha1 argv os = Exit 0 (Some f) \<or> r = Waiting \<and> main sha1 argv os = Running f)"
  using assms
  by (auto simp: main_def find_peers_def split: if_splits sum.splits fault.splits prod.splits run_end.splits)

lemma Start_epfd: "Start ep ans script d = (r, f) \<Longrightarrow> \<forall>flt. r \<noteq> Faulted flt \<Longrightarrow> 0 \<le> ep"
  by (auto simp: Start_def new_farm_def Let_def split: if_splits)


lemma reachable_in_loop:
  assumes "Start ep ans script (Downloader tf pid ps opened) = (r, f)" and "\<forall>flt. r \<noteq> Faulted flt"
    and "length (piece_hashes tf) < 2 ^ 63"
  shows "reachable (downloader_init tf) downloader_step (f_downloader f)"
  using Run_reachable [OF assms(3) _ assms(2)] Start_epfd [OF assms(1,2)] assms(1) by (simp add: Start_Run)

lemma reachable_torrent: "reachable (downloader_init tf) downloader_step d \<Longrightarrow> torrent d = tf"
  using downloader.inv_reachable by (simp add: downloader_inv_def)

lemma Returned_early:
  assumes "Start ep ans script (Downloader tf pid ps opened) = (Returned, f)" and "Failed \<notin> set script"
    and "length (piece_hashes tf) < 2 ^ 63" and "0 < tf_length tf"
  shows "connections f = []"
proof (rule ccontr)
  assume n: "connections f \<noteq> []"
  have r: "Run (\<lambda>f. IsComplete (f_downloader f)) script (started ep ans (Downloader tf pid ps opened)) = (Returned, f)"
    using assms(1) Start_epfd [OF assms(1)] by (simp add: Start_Run)
  then have "connections (started ep ans (Downloader tf pid ps opened)) \<noteq> []"
    using Run_steps [OF r] n by auto
  then show False
    using Run_waits [OF assms(4) r started_reachable [OF assms(3)] _ assms(2)] by simp
qed

lemma no_hash_matches:
  assumes "reachable (downloader_init tf) downloader_step d" and "\<forall>h\<in>set (piece_hashes tf). length h = 20"
  shows "w_added (file_writer d) = []"
proof (rule ccontr)
  assume "w_added (file_writer d) \<noteq> []"
  then obtain j where "j \<in> set (w_added (file_writer d))"
    by (meson last_in_set)
  then obtain i where "i < length (piece_hashes tf)" and "Calculate (job_b j) = piece_hashes tf ! i"
    using downloader.inv_reachable [OF assms(1)] by (auto simp: downloader_inv_def verified_job_def)
  then have "length (Calculate (job_b j)) = 20"
    using assms(2) nth_mem by metis
  then show False
    by (simp add: length_Calculate)
qed

section \<open>Properties\<close>

text \<open>
  C15: the program as a whole. Whatever the torrent file, the tracker, the peers and the
  scheduling are, a run of \<open>main\<close> that reached the loop has not given a single byte to the
  writer; and exit code 0 only means that no connection was left to serve, that the torrent
  announced no data, or that \<open>epoll_wait\<close> failed.
\<close>

theorem main_downloads_nothing:
  assumes "wd_file os = Some data" and "length data < 2 ^ 63"
    and "main sha1 argv os = Exit 0 (Some f) \<or> main sha1 argv os = Running f"
  shows "w_added (file_writer (f_downloader f)) = []
    \<and> (main sha1 argv os = Exit 0 (Some f) \<longrightarrow>
        tf_length (torrent (f_downloader f)) \<le> 0 \<or> connections f = [] \<or> Failed \<in> set (wd_script os))"
proof -
  obtain tf ps r where l: "Load sha1 (argv ! 1) (wd_file os) = Inr tf"
    and s: "Start (wd_epfd os) (wd_conns os) (wd_script os) (Downloader tf my_peer_id ps (wd_opened os)) = (r, f)"
    and r: "r = Returned \<and> main sha1 argv os = Exit 0 (Some f) \<or> r = Waiting \<and> main sha1 argv os = Running f"
    using main_reaches_loop [OF assms(3)] by blast
  have h: "\<forall>h\<in>set (piece_hashes tf). length h = 20" "length (piece_hashes tf) < 2 ^ 63"
    using Load_piece_hashes [OF _ assms(2), of sha1 "argv ! 1" tf] l assms(1) by auto
  have "\<forall>flt. r \<noteq> Faulted flt"
    using r by auto
  from reachable_in_loop [OF s this h(2)]
  have d: "reachable (downloader_init tf) downloader_step (f_downloader f)" .
  have "connections f = []"
    if "main sha1 argv os = Exit 0 (Some f)" "Failed \<notin> set (wd_script os)" "0 < tf_length tf"
    using Returned_early [OF _ that(2) h(2) that(3)] s r that(1) by auto
  then show ?thesis
    using no_hash_matches [OF d h(1)] reachable_torrent [OF d] by (cases "0 < tf_length tf") auto
qed

definition sample_world :: world where
  "sample_world = \<lparr>wd_file = Some (Encode sample_root), wd_tcp = fst (all_connect 0), wd_kernel = accept_kernel,
     wd_recv = None, wd_udp = sample_udp, wd_opened = True, wd_epfd = 3, wd_conns = all_connect, wd_script = []\<rparr>"

abbreviation zero_sha1 :: "buffer \<Rightarrow> buffer" where
  "zero_sha1 \<equiv> \<lambda>d. replicate 20 0"

lemma sample_url:
  "Url.Parse (announce (sample_torrent zero_sha1)) = Inr \<lparr>protocol = ''udp'', host = ''t'', port = 80, path = ''/''\<rparr>"
  unfolding sample_torrent_def torrent_file.simps by code_simp

lemma sample_find_peers:
  "find_peers zero_sha1 pid fp sample_world = Inr (sample_torrent zero_sha1, [Peer ''10.0.0.1'' 6881 []])"
proof -
  have "Load zero_sha1 fp (wd_file sample_world) = Inr (sample_torrent zero_sha1)"
    using Decode_sample sample_describes by (auto simp: Load_describes sample_world_def)
  then show ?thesis
    using sample_url by (simp add: find_peers_def GetPeers_def sample_udp_peers sample_world_def)
qed

lemma sample_runs:
  "main zero_sha1 [''client'', ''x.torrent''] sample_world
   = Running (started 3 all_connect (Downloader (sample_torrent zero_sha1) my_peer_id [Peer ''10.0.0.1'' 6881 []] True))"
proof -
  let ?d = "Downloader (sample_torrent zero_sha1) my_peer_id [Peer ''10.0.0.1'' 6881 []] True"
  have "\<not> IsComplete (f_downloader (started 3 all_connect ?d))"
    by (rule reachable_incomplete [OF started_reachable]) (simp_all add: sample_torrent_def)
  then have "Start 3 all_connect [] ?d = (Waiting, started 3 all_connect ?d)"
    by (simp add: Start_Run started_one)
  then show ?thesis
    by (simp add: main_def sample_find_peers) (simp add: sample_world_def)
qed

theorem main_downloads_nothing_witness:
  "\<exists>f. main zero_sha1 [''client'', ''x.torrent''] sample_world = Running f \<and> w_added (file_writer (f_downloader f)) = []"
  using main_downloads_nothing [of sample_world, OF _ length_sample disjI2 [OF sample_runs]] sample_runs
  by (simp add: sample_world_def)

end
