(* ===== verification/Honest_Stream.thy ===== *)
theory Honest_Stream
  imports Connection_Props
begin

text \<open>
  A peer that speaks the protocol, over a transport that cuts its stream anywhere. The interface
  \<open>message_protocol\<close> says what a conversation must satisfy: a predicate on the messages still
  to come and the session, which every message in turn keeps. From it follows that any sequence of
  reads that delivers the handshake and the frames ends with all messages handled and nothing left
  over.
\<close>

section \<open>Cutting a sequence of frames\<close>

lemma frames_cut:
  "q @ r = concat (map frame ms) \<Longrightarrow> \<forall>m\<in>set ms. length m < 2 ^ 32 - 4 \<Longrightarrow>
   \<exists>ms1 p ms2. ms = ms1 @ ms2 \<and> q = concat (map frame ms1) @ p \<and> partial_frame p
     \<and> p @ r = concat (map frame ms2)"
proof (induction ms arbitrary: q)
  case Nil
  then show ?case
    by (simp add: partial_frame_def)
next
  case (Cons m ms)
  let ?fs = "concat (map frame ms)"
  show ?case
  proof (cases "length (frame m) \<le> length q")
    case True
    have "take (length (frame m)) (q @ r) = take (length (frame m)) (frame m @ ?fs)"
      using Cons.prems(1) by (simp only: list.map concat.simps)
    then have "take (length (frame m)) q = frame m"
      using True by simp
    then obtain q' where q: "q = frame m @ q'"
      by (metis append_take_drop_id)
    then have q': "q' @ r = ?fs"
      using Cons.prems(1) by simp
    obtain ms1 p ms2 where "ms = ms1 @ ms2" "q' = concat (map frame ms1) @ p"
        "partial_frame p" "p @ r = concat (map frame ms2)"
      using Cons.IH [OF q'] Cons.prems(2) by auto
    then show ?thesis
      using q by (intro exI [of _ "m # ms1"] exI [of _ p] exI [of _ ms2]) simp
  next
    case False
    have l: "length (frame m) = 4 + length m"
      by (simp add: frame_def)
    have "unat (ReadMessageLength (q @ r)) = length m"
      using Cons.prems ReadMessageLength_frame [of m ?fs] by simp
    then have "4 \<le> length q \<Longrightarrow> unat (ReadMessageLength q) = length m"
      by (simp add: ReadMessageLength_append)
    then have "partial_frame q"
      using False l Cons.prems(2) by (auto simp: partial_frame_def)
    then show ?thesis
      using Cons.prems(1) by (intro exI [of _ "[]"] exI [of _ q] exI [of _ "m # ms"]) simp
  qed
qed

lemma partial_frame_not_frames:
  assumes "partial_frame (concat (map frame ms))" and "\<forall>m\<in>set ms. length m < 2 ^ 32 - 4"
  shows "ms = []"
proof (cases ms)
  case (Cons m r)
  then have "unat (ReadMessageLength (concat (map frame ms))) = length m"
    using assms(2) ReadMessageLength_frame [of m "concat (map frame r)"] by simp
  moreover have "4 + length m \<le> length (concat (map frame ms))"
    using Cons by (simp add: frame_def)
  ultimately show ?thesis
    using assms(1) by (simp add: partial_frame_def)
qed


section \<open>The interface\<close>

text \<open>Digesting messages, with the bytes \<open>rest\<close> still to come.\<close>

definition digesting :: "(buffer list \<Rightarrow> session \<Rightarrow> bool) \<Rightarrow> buffer \<Rightarrow> session \<Rightarrow> bool" where
  "digesting ready rest s \<longleftrightarrow> c_state (fst s) = DOWNLOADING \<and> partial_frame (buf s)
     \<and> (\<exists>ms. ready ms s \<and> buf s @ rest = concat (map frame ms))"

text \<open>Waiting for the end of the handshake.\<close>

definition greeting :: "(buffer list \<Rightarrow> session \<Rightarrow> bool) \<Rightarrow> buffer \<Rightarrow> session \<Rightarrow> bool" where
  "greeting ready rest s \<longleftrightarrow> c_state (fst s) = HANDSHAKING \<and> length (buf s) < 68
     \<and> (\<exists>h ms. ready ms s \<and> length h = 68 \<and> buf s @ rest = h @ concat (map frame ms))"

definition streaming :: "(buffer list \<Rightarrow> session \<Rightarrow> bool) \<Rightarrow> buffer \<Rightarrow> session \<Rightarrow> bool" where
  "streaming ready rest s \<longleftrightarrow> greeting ready rest s \<or> digesting ready rest s"

locale message_protocol =
  fixes good :: "kernel \<Rightarrow> bool"
    and ready :: "buffer list \<Rightarrow> session \<Rightarrow> bool"
  assumes ready_buf: "ready ms s \<Longrightarrow> ready ms (set_buf b s)"
    and ready_open: "ready ms s \<Longrightarrow> socket (fst s) \<noteq> None"
    and ready_small: "ready ms s \<Longrightarrow> \<forall>m\<in>set ms. length m < 2 ^ 32 - 4"
    and ready_keep_alive: "ready ([] # ms) s \<Longrightarrow> ready ms s"
    and ready_handshake: "ready ms (c, d) \<Longrightarrow> c_state c = HANDSHAKING \<Longrightarrow> good k \<Longrightarrow>
      \<exists>t. conn_send k BuildInterested (c\<lparr>handshake_done := True, c_state := DOWNLOADING\<rparr>, d) = (None, t) \<and> ready ms t"
    and ready_message: "ready ((mid # payload) # ms) s \<Longrightarrow> c_state (fst s) = DOWNLOADING \<Longrightarrow> good k \<Longrightarrow>
      \<exists>t. handle_message k mid payload s = (None, t) \<and> ready ms t"
begin

lemma handle_all_ready:
  "ready (ms @ ms') s \<Longrightarrow> c_state (fst s) = DOWNLOADING \<Longrightarrow> good k \<Longrightarrow>
   \<exists>t. handle_all k ms s = (None, t) \<and> ready ms' t \<and> c_state (fst t) = DOWNLOADING"
proof (induction k ms s rule: handle_all.induct)
  case (2 k ms s)
  then show ?case
    using ready_keep_alive by simp
next
  case (3 k mid payload ms s)
  have "ready ((mid # payload) # (ms @ ms')) s"
    using 3(2) by simp
  from ready_message [OF this 3(3,4)] obtain u where
    u: "handle_message k mid payload s = (None, u)" "ready (ms @ ms') u"
    by blast
  then show ?case
    using 3(1) [OF u _ 3(4)] handle_message_state [OF u(1)] 3(3) by simp
qed simp

lemma digest:
  assumes "ready ms s" and "c_state (fst s) = DOWNLOADING" and "b @ rest = concat (map frame ms)" and "good k"
  shows "\<exists>t. ProcessBuffer k (set_buf b s) = (None, t) \<and> digesting ready rest t"
proof -
  have small: "\<forall>m\<in>set ms. length m < 2 ^ 32 - 4"
    by (rule ready_small [OF assms(1)])
  obtain ms1 p ms2 where ms: "ms = ms1 @ ms2" "b = concat (map frame ms1) @ p" "partial_frame p"
      "p @ rest = concat (map frame ms2)"
    using frames_cut [OF assms(3) small] by blast
  obtain t where t: "handle_all k ms1 s = (None, t)" "ready ms2 t" "c_state (fst t) = DOWNLOADING"
    using handle_all_ready assms(1,2,4) ms(1) by metis
  obtain u where u: "ProcessBuffer k (set_buf b s) = (None, u)" "same_but_buf u t" "buf u = p"
    using ProcessBuffer_frames [OF _ _ ms(3) t(1)] assms(2) small ms(1,2) by auto
  have "set_buf p u = set_buf p t"
    using u(2) unfolding same_but_buf_def by (metis set_buf_simps(3))
  then have e: "u = set_buf p t"
    using u(3) set_buf_simps(4) [of u] by simp
  then have "digesting ready rest u"
    using t(3) ready_buf [OF t(2)] ms(3,4) by (auto simp: digesting_def) (simp add: set_buf_def)
  then show ?thesis
    using u(1) by blast
qed

lemma streaming_open: "streaming ready rest s \<Longrightarrow> socket (fst s) \<noteq> None"
  unfolding streaming_def greeting_def digesting_def by (meson ready_open)

lemma greet:
  assumes "ready ms s" and "c_state (fst s) = HANDSHAKING" and "length h = 68" and "good k"
    and "b @ rest = h @ concat (map frame ms)"
  shows "\<exists>t. ProcessBuffer k (set_buf b s) = (None, t) \<and> streaming ready rest t"
proof (cases "length b < 68")
  case True
  then have "ProcessBuffer k (set_buf b s) = (None, set_buf b s)"
    using assms(2) by (intro ProcessBuffer_waiting) (simp add: waiting_def set_buf_def)
  moreover have "greeting ready rest (set_buf b s)"
    using True assms(2,3,5) ready_buf [OF assms(1), of b] by (auto simp: greeting_def) (simp add: set_buf_def)
  ultimately show ?thesis
    by (auto simp: streaming_def)
next
  case False
  have "take 68 (b @ rest) = h"
    unfolding assms(5) using assms(3) by simp
  then have "take 68 b = h"
    using False by simp
  then obtain b' where b: "b = h @ b'"
    by (metis append_take_drop_id)
  then have b': "b' @ rest = concat (map frame ms)"
    using assms(5) by simp
  obtain c d where s: "s = (c, d)" by (cases s)
  let ?v = "(c\<lparr>handshake_done := True, c_state := DOWNLOADING\<rparr>, d)"
  obtain t where t: "conn_send k BuildInterested ?v = (None, t)" "ready ms t"
    using ready_handshake [of ms c d k] assms(1,2,4) s by auto
  have st: "c_state (fst t) = DOWNLOADING"
    using conn_send_keeps [of ?v k BuildInterested] t(1) by (simp add: keeps_def)
  have "conn_send k BuildInterested (set_buf b' ?v) = (None, set_buf b' t)"
    using ignores_bufD [OF conn_send_ignores, of k BuildInterested b' ?v] t(1) by simp
  then have "ProcessBuffer k (set_buf b s) = ProcessBuffer k (set_buf b' t)"
    using ProcessBuffer_handshake [of "set_buf b s" k] assms(2,3) b s by simp
  then show ?thesis
    using digest [OF t(2) st b' assms(4)] by (auto simp: streaming_def)
qed

lemma read_step:
  assumes "streaming ready (b @ rest) s" and "b \<noteq> []" and "good k"
  shows "\<exists>t. OnReadyRead k (Some b) s = (None, t) \<and> streaming ready rest t"
proof -
  have "\<exists>t. ProcessBuffer k (set_buf (buf s @ b) s) = (None, t) \<and> streaming ready rest t"
  proof (cases "c_state (fst s) = HANDSHAKING")
    case True
    then obtain h ms where "ready ms s" "length h = 68" "(buf s @ b) @ rest = h @ concat (map frame ms)"
      using assms(1) by (auto simp: streaming_def greeting_def digesting_def)
    with True show ?thesis
      using greet assms(3) by blast
  next
    case False
    then obtain ms where "ready ms s" "c_state (fst s) = DOWNLOADING" "(buf s @ b) @ rest = concat (map frame ms)"
      using assms(1) by (auto simp: streaming_def greeting_def digesting_def)
    then show ?thesis
      using digest assms(3) by (meson streaming_def)
  qed
  then show ?thesis
    using OnReadyRead_Some [OF streaming_open [OF assms(1)] assms(2), of k] by (auto simp: close_on_throw_def)
qed

lemma read_all:
  "streaming ready (concat bs @ rest) s \<Longrightarrow> [] \<notin> set bs \<Longrightarrow> good k \<Longrightarrow>
   \<exists>t. read_chunks k bs s = (None, t) \<and> streaming ready rest t"
proof (induction bs arbitrary: s)
  case (Cons b bs)
  then show ?case
    using read_step [of b "concat bs @ rest" s k] by fastforce
qed simp

lemma streaming_end:
  assumes "streaming ready [] s"
  shows "ready [] s \<and> c_state (fst s) = DOWNLOADING \<and> buf s = []"
proof -
  have "\<not> greeting ready [] s"
    by (auto simp: greeting_def)
  then obtain ms where ms: "c_state (fst s) = DOWNLOADING" "partial_frame (buf s)" "ready ms s"
      "buf s = concat (map frame ms)"
    using assms by (auto simp: streaming_def digesting_def)
  then have "ms = []"
    using partial_frame_not_frames [of ms] ready_small [OF ms(3)] by simp
  then show ?thesis
    using ms by simp
qed

end

end
