(* ===== verification/Whole_Download.thy ===== *)
theory Whole_Download
  imports Honest_Stream
begin

text \<open>
  The composition of the components against an honest seeder: torrent, piece assignment, request
  and block handling, hash check and writer together turn the seeder's answers into the shared
  file. The torrents of this theory list their hashes as the text that \<open>Sha1::Calculate\<close>
  returns, which is the form the comparison in \<open>OnBlockReceived\<close> needs.
\<close>

section \<open>A torrent of a given content\<close>

definition psize :: "torrent_file \<Rightarrow> nat" where
  "psize tf = nat (piece_length tf)"

definition piece_at :: "torrent_file \<Rightarrow> buffer \<Rightarrow> nat \<Rightarrow> buffer" where
  "piece_at tf F i = take (psize tf) (drop (i * psize tf) F)"

definition piece_count :: "torrent_file \<Rightarrow> buffer \<Rightarrow> nat" where
  "piece_count tf F = (length F + psize tf - 1) div psize tf"

definition shares :: "torrent_file \<Rightarrow> buffer \<Rightarrow> bool" where
  "shares tf F \<longleftrightarrow> F \<noteq> [] \<and> length F < 2 ^ 62 \<and> 0 < piece_length tf \<and> piece_length tf < 2 ^ 31
     \<and> tf_length tf = int (length F) \<and> piece_count tf F < 2 ^ 31 - 1
     \<and> piece_hashes tf = map (\<lambda>i. Calculate (piece_at tf F i)) [0..<piece_count tf F]"

lemma sharesD:
  assumes "shares tf F"
  shows "0 < psize tf" "int (psize tf) = piece_length tf" "psize tf < 2 ^ 31"
    "length (piece_hashes tf) = piece_count tf F" "piece_count tf F < 2 ^ 31 - 1" "0 < piece_count tf F"
proof -
  show p: "0 < psize tf" "int (psize tf) = piece_length tf"
    using assms by (simp_all add: shares_def psize_def)
  then show "psize tf < 2 ^ 31"
    using assms by (simp add: shares_def flip: p(2))
  show "length (piece_hashes tf) = piece_count tf F" "piece_count tf F < 2 ^ 31 - 1"
    using assms by (simp_all add: shares_def)
  have "psize tf \<le> length F + psize tf - 1"
    using assms by (cases F) (simp_all add: shares_def)
  then show "0 < piece_count tf F"
    using p(1) by (simp add: piece_count_def div_greater_zero_iff)
qed

lemma piece_count_bounds:
  assumes "shares tf F"
  shows "(piece_count tf F - 1) * psize tf < length F" "length F \<le> piece_count tf F * psize tf"
proof -
  let ?n = "piece_count tf F" and ?L = "psize tf"
  have L: "0 < ?L" and n: "0 < ?n"
    using sharesD [OF assms] by simp_all
  have "?n * ?L \<le> length F + ?L - 1"
    by (simp add: piece_count_def)
  moreover have "(?n - 1) * ?L + ?L = ?n * ?L"
    using n by (cases ?n) simp_all
  ultimately show "(?n - 1) * ?L < length F"
    using L assms by (cases F) (auto simp: shares_def)
  have "length F + ?L - 1 < ?L + ?n * ?L"
    using dividend_less_div_times [OF L, of "length F + ?L - 1"] by (simp add: piece_count_def)
  then show "length F \<le> ?n * ?L"
    using L by simp
qed

lemma piece_at_inside:
  assumes "shares tf F" and "i < piece_count tf F"
  shows "i * psize tf < length F" "piece_at tf F i \<noteq> []" "length (piece_at tf F i) \<le> psize tf"
    "i * psize tf + length (piece_at tf F i) \<le> length F" "length (piece_at tf F i) < 2 ^ 31"
proof -
  have "i * psize tf \<le> (piece_count tf F - 1) * psize tf"
    using assms(2) by (intro mult_right_mono) simp_all
  then show l: "i * psize tf < length F"
    by (rule le_less_trans) (rule piece_count_bounds(1) [OF assms(1)])
  then show "piece_at tf F i \<noteq> []" "length (piece_at tf F i) \<le> psize tf"
    "i * psize tf + length (piece_at tf F i) \<le> length F"
    using sharesD(1) [OF assms(1)] by (auto simp: piece_at_def)
  then show "length (piece_at tf F i) < 2 ^ 31"
    using sharesD(3) [OF assms(1)] by simp
qed

lemma length_piece_at:
  assumes "shares tf F" and "i < piece_count tf F"
  shows "length (piece_at tf F i)
    = (if i = piece_count tf F - 1 \<and> length F mod psize tf \<noteq> 0 then length F mod psize tf else psize tf)"
proof -
  let ?n = "piece_count tf F" and ?L = "psize tf"
  have L: "0 < ?L" using sharesD(1) [OF assms(1)] .
  have len: "length (piece_at tf F i) = min ?L (length F - i * ?L)"
    by (simp add: piece_at_def)
  show ?thesis
  proof (cases "i = ?n - 1")
    case True
    then have r: "length F = i * ?L + (length F - i * ?L)" "0 < length F - i * ?L"
      using piece_at_inside(1) [OF assms] by simp_all
    have "length F \<le> i * ?L + ?L"
      using piece_count_bounds(2) [OF assms(1)] True assms(2) by (cases ?n) (simp_all add: add.commute)
    then consider "length F = i * ?L + ?L" | "length F - i * ?L < ?L"
      using r by linarith
    then show ?thesis
    proof cases
      case 1
      then have "length F mod ?L = 0"
        by simp
      then show ?thesis
        using 1 len by simp
    next
      case 2
      have "length F mod ?L = (length F - i * ?L) mod ?L"
        by (subst r(1)) simp
      then show ?thesis
        using True len r(2) 2 by simp
    qed
  next
    case False
    then have "(i + 1) * ?L \<le> (?n - 1) * ?L"
      using assms(2) by (intro mult_right_mono) simp_all
    then have "i * ?L + ?L < length F"
      using piece_count_bounds(1) [OF assms(1)] by simp
    then show ?thesis
      using False len by simp
  qed
qed

lemma sint_index: "shares tf F \<Longrightarrow> i < piece_count tf F \<Longrightarrow> sint (word_of_nat i :: i32) = int i"
  using sharesD(5) by (intro sint_word_of_nat) fastforce

lemma is_last_piece_index:
  assumes "shares tf F" and "i < piece_count tf F"
  shows "is_last_piece tf (word_of_nat i) \<longleftrightarrow> i = piece_count tf F - 1"
proof -
  have n: "length (piece_hashes tf) = Suc (piece_count tf F - 1)" "piece_count tf F < 2 ^ 31 - 1"
    using sharesD [OF assms(1)] by simp_all
  then have "size_of (piece_hashes tf) - 1 = word_of_nat (piece_count tf F - 1)"
    by (simp add: size_of_def)
  moreover have "unat (word_of_nat (piece_count tf F - 1) :: u64) = piece_count tf F - 1"
    using n(2) by (simp add: unat_of_nat)
  moreover have "unat (int_to_size (word_of_nat i)) = i"
    using n(2) assms(2) by (intro int_to_size_of_nat) simp
  ultimately show ?thesis
    unfolding is_last_piece_def word_unat_eq_iff by simp
qed

lemma piece_len_index:
  assumes "shares tf F" and "i < piece_count tf F"
  shows "piece_len tf (word_of_nat i) = Inr (int (length (piece_at tf F i)))"
proof -
  have p: "piece_length tf = int (psize tf)" "tf_length tf = int (length F)" "0 < psize tf"
    using sharesD [OF assms(1)] assms(1) by (simp_all add: shares_def)
  have "int (length F) smod int (psize tf) = int (length F mod psize tf)"
    by (simp add: signed_modulo_int_def zmod_int sgn_if)
  then show ?thesis
    using p length_piece_at [OF assms] is_last_piece_index [OF assms]
    by (auto simp: piece_len_def c_rem_def)
qed

lemma valid_piece_index:
  assumes "shares tf F" and "i < piece_count tf F"
  shows "valid_piece tf (word_of_nat i)"
proof -
  have l: "int (i * psize tf) < int (length F)"
    using piece_at_inside(1) [OF assms] by (simp only: of_nat_less_iff)
  have F: "int (length F) < 2 ^ 62"
    using assms(1) by (simp add: shares_def)
  have e: "int i * piece_length tf = int (i * psize tf)"
    unfolding sharesD(2) [OF assms(1), symmetric] by (rule of_nat_mult [symmetric])
  have "in_int_range 64 (int i * piece_length tf)"
    unfolding e in_int_range_def using l F by (simp del: of_nat_mult)
  then show ?thesis
    using sharesD [OF assms(1)] sint_index [OF assms] assms(2) by (simp add: valid_piece_def)
qed

lemma hash_index:
  assumes "shares tf F" and "i < piece_count tf F"
  shows "Calculate (piece_at tf F i) = piece_hashes tf ! nat (sint (word_of_nat i :: i32))"
  using assms sint_index [OF assms] by (simp add: shares_def)


section \<open>One block of a piece\<close>

definition block_data :: "torrent_file \<Rightarrow> buffer \<Rightarrow> nat \<Rightarrow> nat \<times> nat \<Rightarrow> buffer" where
  "block_data tf F i b = take (snd b) (drop (fst b) (piece_at tf F i))"

definition job_of :: "torrent_file \<Rightarrow> buffer \<Rightarrow> nat \<Rightarrow> job" where
  "job_of tf F i = \<lparr>job_b = piece_at tf F i, job_offset = int i * piece_length tf\<rparr>"

text \<open>The downloader has the first \<open>p\<close> bytes of piece \<open>i\<close>, which is not complete.\<close>

definition has_prefix :: "torrent_file \<Rightarrow> buffer \<Rightarrow> nat \<Rightarrow> nat \<Rightarrow> downloader \<Rightarrow> bool" where
  "has_prefix tf F i p d \<longleftrightarrow> torrent d = tf
     \<and> (if p = 0 then current_piece_index d \<noteq> word_of_nat i
        else assembling (word_of_nat i) (piece_at tf F i) {0..<p} d)"

lemma current_piece_index_frame [frame_simps]:
  "current_piece_index (snd (copy_block off data d)) = current_piece_index d"
  "current_piece_index (snd (verify_piece i d)) = current_piece_index d"
  by (simp_all add: copy_block_def verify_piece_def Let_def writer_add_def)

lemma block_in_assembling:
  assumes "shares tf F" and "i < piece_count tf F" and "torrent d = tf"
    and "assembling (word_of_nat i) (piece_at tf F i) {0..<p} d"
    and "p < length (piece_at tf F i)" and "l = min 16384 (length (piece_at tf F i) - p)"
  shows "\<exists>d'. OnBlockReceived (word_of_nat i) (word_of_nat p) (block_data tf F i (p, l)) d = (None, d')
    \<and> current_piece_index d' = word_of_nat i
    \<and> (if p + l < length (piece_at tf F i)
       then assembling (word_of_nat i) (piece_at tf F i) {0..<p + l} d' \<and> w_added (file_writer d') = w_added (file_writer d)
       else w_added (file_writer d') = w_added (file_writer d) @ [job_of tf F i])"
proof -
  let ?i = "word_of_nat i :: i32" and ?P = "piece_at tf F i" and ?D = "block_data tf F i (p, l)"
  have P: "length ?P < 2 ^ 31" using piece_at_inside(5) [OF assms(1,2)] .
  then have sp: "sint (word_of_nat p :: i32) = int p"
    using assms(5) by (intro sint_word_of_nat) simp
  have D: "length ?D = l" "?D = file_range ?P p l" "0 < l" "p + l \<le> length ?P"
    using assms(5,6) by (auto simp: block_data_def file_range_def)
  have c: "covered (word_of_nat p, ?D) = {p..<p + l}"
    using sp D(1) by (simp add: covered_def)
  have bo: "block_of ?P (word_of_nat p, ?D)"
    using sp D by (auto simp: block_of_def)
  obtain d2 where d2: "copy_block (word_of_nat p) ?D d = (None, d2)" "assembling ?i ?P {0..<p + l} d2"
      "file_writer d2 = file_writer d" "torrent d2 = tf"
    using copy_block_assembling [OF assms(4) bo _ P] assms(3) unfolding c by (auto simp: ivl_disj_un)
  have "init_piece ?i d = (None, d)"
    using assms(4) by (simp add: assembling_def init_piece_def)
  then have u: "OnBlockReceived ?i (word_of_nat p) ?D d = verify_piece ?i (count_block ?D d2)"
    using d2(1) by (rule OnBlockReceived_unfold)
  have a: "assembling ?i ?P {0..<p + l} (count_block ?D d2)"
    using d2(2) by simp
  then have ci: "current_piece_index (count_block ?D d2) = ?i"
    by (simp add: assembling_def)
  show ?thesis
  proof (cases "p + l < length ?P")
    case True
    then show ?thesis
      using verify_piece_incomplete [OF a _ P] u a d2(3) ci by simp
  next
    case False
    then have "card {0..<p + l} = length ?P"
      using D(4) by simp
    from verify_piece_complete [OF a this P] obtain d' where
      v: "verify_piece ?i (count_block ?D d2) = (None, d')"
        "w_added (file_writer d') = w_added (file_writer d) @ [job_of tf F i]"
      using valid_piece_index [OF assms(1,2)] hash_index [OF assms(1,2)] d2(3,4) sint_index [OF assms(1,2)]
      by (auto simp: job_of_def)
    have "current_piece_index d' = ?i"
      using current_piece_index_frame(2) [of ?i "count_block ?D d2"] v(1) ci by simp
    then show ?thesis
      using False u v by simp
  qed
qed

lemma block_received:
  assumes "shares tf F" and "i < piece_count tf F" and "has_prefix tf F i p d"
    and "p < length (piece_at tf F i)" and "l = min 16384 (length (piece_at tf F i) - p)"
  shows "\<exists>d'. OnBlockReceived (word_of_nat i) (word_of_nat p) (block_data tf F i (p, l)) d = (None, d')
    \<and> torrent d' = tf \<and> next_req_index d' = next_req_index d \<and> current_piece_index d' = word_of_nat i
    \<and> (if p + l < length (piece_at tf F i)
       then has_prefix tf F i (p + l) d' \<and> w_added (file_writer d') = w_added (file_writer d)
       else w_added (file_writer d') = w_added (file_writer d) @ [job_of tf F i])"
proof -
  let ?o = "OnBlockReceived (word_of_nat i) (word_of_nat p) (block_data tf F i (p, l))"
  have t: "torrent d = tf"
    using assms(3) by (simp add: has_prefix_def)
  obtain d1 where d1: "?o d = ?o d1" "assembling (word_of_nat i) (piece_at tf F i) {0..<p} d1"
      "torrent d1 = tf" "file_writer d1 = file_writer d"
  proof (cases "p = 0")
    case True
    then have "current_piece_index d \<noteq> word_of_nat i"
      using assms(3) by (simp add: has_prefix_def)
    then obtain d1 where i: "init_piece (word_of_nat i) d = (None, d1)"
        "assembling (word_of_nat i) (piece_at tf F i) {} d1" "torrent d1 = torrent d" "file_writer d1 = file_writer d"
      using init_piece_assembling piece_len_index [OF assms(1,2)] t by blast
    moreover have "current_piece_index d1 = word_of_nat i"
      using i(2) by (simp add: assembling_def)
    ultimately show ?thesis
      using OnBlockReceived_after_init [OF i(1)] True t by (intro that [of d1]) simp_all
  next
    case False
    then show ?thesis
      using assms(3) by (intro that [of d]) (simp_all add: has_prefix_def)
  qed
  have "0 < p + l"
    using assms(4,5) by simp
  obtain d' where "?o d1 = (None, d')" "current_piece_index d' = word_of_nat i"
    and r: "if p + l < length (piece_at tf F i)
       then assembling (word_of_nat i) (piece_at tf F i) {0..<p + l} d' \<and> w_added (file_writer d') = w_added (file_writer d1)
       else w_added (file_writer d') = w_added (file_writer d1) @ [job_of tf F i]"
    using block_in_assembling [OF assms(1,2) d1(3,2) assms(4,5)] by blast
  moreover from this have "torrent d' = tf" "next_req_index d' = next_req_index d"
    using OnBlockReceived_frame [of "word_of_nat i" "word_of_nat p" "block_data tf F i (p, l)" d] d1(1) t by simp_all
  ultimately show ?thesis
    using d1 \<open>0 < p + l\<close> by (auto simp: has_prefix_def)
qed


section \<open>The connection between two blocks\<close>

definition has_all :: "connection \<Rightarrow> nat \<Rightarrow> bool" where
  "has_all c n \<longleftrightarrow> n \<le> length (peer_pieces c) \<and> length (peer_pieces c) < 2 ^ 64 \<and> (\<forall>x<n. peer_pieces c ! x)"

text \<open>An open, unchoked connection to a peer with all pieces.\<close>

definition seeding :: "torrent_file \<Rightarrow> buffer \<Rightarrow> connection \<Rightarrow> bool" where
  "seeding tf F c \<longleftrightarrow> socket c \<noteq> None \<and> \<not> choked c \<and> has_all c (piece_count tf F)"

text \<open>The block at \<open>p\<close> of piece \<open>i\<close> has been requested and is the next to arrive.\<close>

definition awaiting :: "torrent_file \<Rightarrow> buffer \<Rightarrow> nat \<Rightarrow> nat \<Rightarrow> session \<Rightarrow> bool" where
  "awaiting tf F i p s \<longleftrightarrow> seeding tf F (fst s) \<and> has_prefix tf F i p (snd s)
     \<and> next_req_index (snd s) = word_of_nat (i + 1) \<and> p < length (piece_at tf F i)
     \<and> (if p + 16384 < length (piece_at tf F i)
        then current_piece (fst s) = word_of_nat i \<and> block_offset (fst s) = word_of_nat (p + 16384)
        else current_piece (fst s) = - 1)"

lemma index_not_minus_one: "shares tf F \<Longrightarrow> i < piece_count tf F \<Longrightarrow> word_of_nat i \<noteq> (- 1 :: i32)"
  using sint_index [of tf F i] by auto

text \<open>The bytes sent on the connection.\<close>

definition wire_of :: "session \<Rightarrow> buffer" where
  "wire_of s = (case socket (fst s) of None \<Rightarrow> [] | Some t \<Rightarrow> wire t)"

text \<open>The block of a piece at \<open>p\<close>, and the request for it.\<close>

definition block_at :: "torrent_file \<Rightarrow> buffer \<Rightarrow> nat \<Rightarrow> nat \<Rightarrow> nat \<times> nat" where
  "block_at tf F i p = (p, min 16384 (length (piece_at tf F i) - p))"

definition block_request :: "torrent_file \<Rightarrow> buffer \<Rightarrow> nat \<Rightarrow> nat \<Rightarrow> buffer" where
  "block_request tf F i p = request_of (word_of_nat i) (block_at tf F i p)"

lemma request_then_await:
  assumes "shares tf F" and "i < piece_count tf F" and "accepts_all k" and "seeding tf F c"
    and "current_piece c = word_of_nat i" and "block_offset c = word_of_nat p" and "p < length (piece_at tf F i)"
    and "has_prefix tf F i p d" and "next_req_index d = word_of_nat (i + 1)"
  shows "\<exists>c'. request_block k (c, d) = (None, (c', d)) \<and> awaiting tf F i p (c', d)
    \<and> wire_of (c', d) = wire_of (c, d) @ block_request tf F i p"
proof -
  obtain t where t: "socket c = Some t"
    using assms(4) by (auto simp: seeding_def)
  have "torrent d = tf"
    using assms(8) by (simp add: has_prefix_def)
  then have "piece_len (torrent d) (current_piece c) = Inr (int (length (piece_at tf F i)))"
    using piece_len_index [OF assms(1,2)] assms(5) by simp
  note r = request_block_next [OF assms(3) t assms(6) this assms(7) piece_at_inside(5) [OF assms(1,2)]]
  show ?thesis
    using assms(4,5,7-9) t unfolding r
    by (auto simp: awaiting_def seeding_def has_all_def wire_of_def block_request_def block_at_def min_def)
qed

lemma next_piece_await:
  assumes "shares tf F" and "accepts_all k" and "seeding tf F c" and "current_piece c = - 1"
    and "torrent d = tf" and "next_req_index d = word_of_nat j" and "j \<le> piece_count tf F"
    and "j < piece_count tf F \<Longrightarrow> current_piece_index d \<noteq> word_of_nat j"
  shows "\<exists>s. RequestNextBlock k (c, d) = (None, s) \<and> file_writer (snd s) = file_writer d
    \<and> (if j < piece_count tf F then awaiting tf F j 0 s \<and> wire_of s = wire_of (c, d) @ block_request tf F j 0
       else wire_of s = wire_of (c, d))"
proof -
  let ?n = "piece_count tf F"
  have n: "?n = length (piece_hashes (torrent d))" "?n < 2 ^ 31 - 1"
    using sharesD [OF assms(1)] assms(5) by simp_all
  have c: "\<not> choked c" "length (peer_pieces c) < 2 ^ 64" "\<forall>x<?n. has_piece c x"
    using assms(3) by (auto simp: seeding_def has_all_def has_piece_def)
  note first = RequestNextBlock_first [OF c(1) assms(4,6,7) n c(2), of k]
  show ?thesis
  proof (cases "j < ?n")
    case True
    let ?c = "c\<lparr>current_piece := word_of_nat j, block_offset := 0\<rparr>"
    let ?d = "d\<lparr>next_req_index := word_of_nat (j + 1)\<rparr>"
    have f: "first_piece c j ?n = Some j"
      using True c(3) by (simp add: first_piece_def upt_conv_Cons)
    have "has_prefix tf F j 0 ?d"
      using assms(5,8) True by (simp add: has_prefix_def)
    moreover have "seeding tf F ?c"
      using assms(3) by (simp add: seeding_def has_all_def)
    moreover have "0 < length (piece_at tf F j)"
      using piece_at_inside(2) [OF assms(1) True] by simp
    moreover have "wire_of (?c, ?d) = wire_of (c, d)"
      by (simp add: wire_of_def)
    ultimately obtain c' where "request_block k (?c, ?d) = (None, (c', ?d))" "awaiting tf F j 0 (c', ?d)"
        "wire_of (c', ?d) = wire_of (c, d) @ block_request tf F j 0"
      using request_then_await [OF assms(1) True assms(2), of ?c 0 ?d] by auto
    then show ?thesis
      using first f True by simp
  next
    case False
    then have "first_piece c j ?n = None"
      by (simp add: first_piece_def)
    then show ?thesis
      using first False by (simp add: wire_of_def)
  qed
qed

definition block_message :: "torrent_file \<Rightarrow> buffer \<Rightarrow> nat \<Rightarrow> nat \<times> nat \<Rightarrow> buffer" where
  "block_message tf F i b =
     PIECE # piece_payload (word_of_nat i) (word_of_nat (fst b)) (block_data tf F i b)"

lemma handle_block_message:
  "OnBlockReceived (word_of_nat i) (word_of_nat p) (block_data tf F i (p, l)) d = (None, d') \<Longrightarrow>
   handle_all k (block_message tf F i (p, l) # ms) (c, d) = act_then (RequestNextBlock k (c, d')) (handle_all k ms)"
  using piece_payload_fields [of "word_of_nat i" "word_of_nat p" "block_data tf F i (p, l)"]
  by (simp add: block_message_def handle_message_def message_ids)

lemma answer_block:
  assumes "shares tf F" and "i < piece_count tf F" and "accepts_all k" and "awaiting tf F i p (c, d)"
    and "l = min 16384 (length (piece_at tf F i) - p)"
  shows "\<exists>s. handle_all k (block_message tf F i (p, l) # ms) (c, d) = handle_all k ms s
    \<and> (if p + 16384 < length (piece_at tf F i)
       then awaiting tf F i (p + 16384) s \<and> w_added (file_writer (snd s)) = w_added (file_writer d)
         \<and> wire_of s = wire_of (c, d) @ block_request tf F i (p + 16384)
       else w_added (file_writer (snd s)) = w_added (file_writer d) @ [job_of tf F i]
         \<and> (if i + 1 < piece_count tf F
            then awaiting tf F (i + 1) 0 s \<and> wire_of s = wire_of (c, d) @ block_request tf F (i + 1) 0
            else wire_of s = wire_of (c, d)))"
proof -
  let ?m = "length (piece_at tf F i)"
  have a: "seeding tf F c" "has_prefix tf F i p d" "next_req_index d = word_of_nat (i + 1)" "p < ?m"
    using assms(4) by (simp_all add: awaiting_def)
  obtain d' where d': "OnBlockReceived (word_of_nat i) (word_of_nat p) (block_data tf F i (p, l)) d = (None, d')"
      "torrent d' = tf" "next_req_index d' = word_of_nat (i + 1)" "current_piece_index d' = word_of_nat i"
    and r: "if p + l < ?m then has_prefix tf F i (p + l) d' \<and> w_added (file_writer d') = w_added (file_writer d)
       else w_added (file_writer d') = w_added (file_writer d) @ [job_of tf F i]"
    using block_received [OF assms(1,2) a(2,4) assms(5)] a(3) by auto
  note h = handle_block_message [OF d'(1), of k ms c]
  show ?thesis
  proof (cases "p + 16384 < ?m")
    case True
    then have l: "l = 16384"
      using assms(5) by simp
    have cp: "current_piece c = word_of_nat i" "block_offset c = word_of_nat (p + 16384)"
      using assms(4) True by (simp_all add: awaiting_def)
    have "\<not> choked c" "current_piece c \<noteq> - 1"
      using a(1) cp(1) index_not_minus_one [OF assms(1,2)] by (simp_all add: seeding_def)
    then have "RequestNextBlock k (c, d') = request_block k (c, d')"
      by (simp add: RequestNextBlock_def)
    moreover obtain c' where "request_block k (c, d') = (None, (c', d'))" "awaiting tf F i (p + 16384) (c', d')"
        "wire_of (c', d') = wire_of (c, d') @ block_request tf F i (p + 16384)"
      using request_then_await [OF assms(1-3) a(1) cp True _ d'(3)] r True l by auto
    ultimately show ?thesis
      using h r True l by (auto simp: wire_of_def)
  next
    case False
    then have l: "\<not> p + l < ?m"
      using assms(5) by simp
    have "current_piece c = - 1"
      using assms(4) False by (simp add: awaiting_def)
    moreover have "current_piece_index d' \<noteq> word_of_nat (i + 1)" if "i + 1 < piece_count tf F"
    proof
      assume "current_piece_index d' = word_of_nat (i + 1)"
      then have "sint (word_of_nat i :: i32) = sint (word_of_nat (i + 1) :: i32)"
        using d'(4) by simp
      then show False
        unfolding sint_index [OF assms(1,2)] sint_index [OF assms(1) that] by simp
    qed
    ultimately obtain s where "RequestNextBlock k (c, d') = (None, s)" "file_writer (snd s) = file_writer d'"
        "if i + 1 < piece_count tf F
         then awaiting tf F (i + 1) 0 s \<and> wire_of s = wire_of (c, d') @ block_request tf F (i + 1) 0
         else wire_of s = wire_of (c, d')"
      using next_piece_await [OF assms(1,3) a(1) _ d'(2,3)] assms(2) by auto
    moreover have "wire_of (c, d') = wire_of (c, d)"
      by (simp add: wire_of_def)
    ultimately show ?thesis
      using h r False l by (intro exI [of _ s]) (simp split: if_splits)
  qed
qed


section \<open>The whole conversation\<close>

definition piece_messages :: "torrent_file \<Rightarrow> buffer \<Rightarrow> nat \<Rightarrow> buffer list" where
  "piece_messages tf F i = map (block_message tf F i) (blocks 0 (length (piece_at tf F i)))"

definition pieces_from :: "torrent_file \<Rightarrow> buffer \<Rightarrow> nat \<Rightarrow> buffer list" where
  "pieces_from tf F i = concat (map (piece_messages tf F) [i..<piece_count tf F])"

definition full_bitfield :: "nat \<Rightarrow> buffer \<Rightarrow> bool" where
  "full_bitfield n payload \<longleftrightarrow> (\<forall>x<n. x div 8 < length payload \<and> bit (payload ! (x div 8)) (7 - x mod 8))"

text \<open>What a seeder sends: a full bitfield, an unchoke, and the answers to the requests.\<close>

definition seeder_messages :: "torrent_file \<Rightarrow> buffer \<Rightarrow> buffer \<Rightarrow> buffer list" where
  "seeder_messages tf F payload = (BITFIELD # payload) # [UNCHOKE] # pieces_from tf F 0"

text \<open>What the client asks for: every block of every piece from \<open>i\<close> on.\<close>

definition piece_requests :: "torrent_file \<Rightarrow> buffer \<Rightarrow> nat \<Rightarrow> buffer" where
  "piece_requests tf F i = concat (map (request_of (word_of_nat i)) (blocks 0 (length (piece_at tf F i))))"

definition requests_from :: "torrent_file \<Rightarrow> buffer \<Rightarrow> nat \<Rightarrow> buffer" where
  "requests_from tf F i = concat (map (piece_requests tf F) [i..<piece_count tf F])"

text \<open>An open connection and a downloader at the start of the download.\<close>

definition fresh_session :: "torrent_file \<Rightarrow> session \<Rightarrow> bool" where
  "fresh_session tf s \<longleftrightarrow> socket (fst s) \<noteq> None \<and> current_piece (fst s) = - 1 \<and> torrent (snd s) = tf
     \<and> next_req_index (snd s) = 0 \<and> current_piece_index (snd s) = - 1 \<and> w_added (file_writer (snd s)) = []"

text \<open>
  \<open>serving tf F W ms s\<close>: the messages \<open>ms\<close> are what the seeder still sends, the session
  is where it should be before them, and the bytes sent when all is done will be \<open>W\<close>.
\<close>

inductive serving :: "torrent_file \<Rightarrow> buffer \<Rightarrow> buffer \<Rightarrow> buffer list \<Rightarrow> session \<Rightarrow> bool" for tf F W where
  greeted: "fresh_session tf s \<Longrightarrow> full_bitfield (piece_count tf F) payload \<Longrightarrow> length payload < 2 ^ 32 - 5 \<Longrightarrow>
    c_state (fst s) = HANDSHAKING \<Longrightarrow> wire_of s @ BuildInterested @ requests_from tf F 0 = W \<Longrightarrow>
    serving tf F W (seeder_messages tf F payload) s"
| introduced: "fresh_session tf s \<Longrightarrow> full_bitfield (piece_count tf F) payload \<Longrightarrow> length payload < 2 ^ 32 - 5 \<Longrightarrow>
    c_state (fst s) = DOWNLOADING \<Longrightarrow> wire_of s @ requests_from tf F 0 = W \<Longrightarrow>
    serving tf F W (seeder_messages tf F payload) s"
| announced: "fresh_session tf s \<Longrightarrow> has_all (fst s) (piece_count tf F) \<Longrightarrow>
    c_state (fst s) = DOWNLOADING \<Longrightarrow> wire_of s @ requests_from tf F 0 = W \<Longrightarrow>
    serving tf F W ([UNCHOKE] # pieces_from tf F 0) s"
| in_piece: "awaiting tf F i p s \<Longrightarrow> i < piece_count tf F \<Longrightarrow>
    w_added (file_writer (snd s)) = map (job_of tf F) [0..<i] \<Longrightarrow> c_state (fst s) = DOWNLOADING \<Longrightarrow>
    wire_of s @ concat (map (request_of (word_of_nat i)) (blocks (p + 16384) (length (piece_at tf F i))))
      @ requests_from tf F (i + 1) = W \<Longrightarrow>
    serving tf F W (map (block_message tf F i) (blocks p (length (piece_at tf F i))) @ pieces_from tf F (i + 1)) s"
| served: "socket (fst s) \<noteq> None \<Longrightarrow> w_added (file_writer (snd s)) = map (job_of tf F) [0..<piece_count tf F] \<Longrightarrow>
    c_state (fst s) = DOWNLOADING \<Longrightarrow> wire_of s = W \<Longrightarrow> serving tf F W [] s"

lemma handle_all_single: "handle_all k [mid # payload] s = (None, t) \<longleftrightarrow> handle_message k mid payload s = (None, t)"
  by (cases "handle_message k mid payload s" rule: prod.exhaust; cases "fst (handle_message k mid payload s)") auto

lemma pieces_from_step: "i < piece_count tf F \<Longrightarrow> pieces_from tf F i = piece_messages tf F i @ pieces_from tf F (i + 1)"
  by (simp add: pieces_from_def upt_conv_Cons)

lemma blocks_step: "p < n \<Longrightarrow> blocks p n = (p, min 16384 (n - p)) # blocks (p + 16384) n"
  by (simp add: blocks.simps [of p])

lemma requests_from_step:
  assumes "shares tf F" and "i < piece_count tf F"
  shows "requests_from tf F i = block_request tf F i 0
    @ concat (map (request_of (word_of_nat i)) (blocks 16384 (length (piece_at tf F i)))) @ requests_from tf F (i + 1)"
proof -
  have "0 < length (piece_at tf F i)"
    using piece_at_inside(2) [OF assms] by simp
  from blocks_step [OF this] show ?thesis
    using assms(2)
    by (simp add: requests_from_def upt_conv_Cons piece_requests_def block_request_def block_at_def)
qed

lemma serving_piece:
  assumes "shares tf F" and "awaiting tf F i 0 s" and "i < piece_count tf F"
    and "w_added (file_writer (snd s)) = map (job_of tf F) [0..<i]"
    and "c_state (fst s) = DOWNLOADING" and "wire_of s = w @ block_request tf F i 0"
    and "w @ requests_from tf F i = W"
  shows "serving tf F W (pieces_from tf F i) s"
  using in_piece [OF assms(2-5), of W] pieces_from_step [OF assms(3)] requests_from_step [OF assms(1,3)] assms(6,7)
  by (simp add: piece_messages_def)

lemma serve_bitfield:
  assumes "shares tf F" and "fresh_session tf s" and "full_bitfield (piece_count tf F) payload"
    and "c_state (fst s) = DOWNLOADING" and "wire_of s @ requests_from tf F 0 = W"
  shows "\<exists>t. handle_message k BITFIELD payload s = (None, t) \<and> serving tf F W ([UNCHOKE] # pieces_from tf F 0) t"
proof -
  obtain c d where s: "s = (c, d)" by (cases s)
  let ?n = "piece_count tf F"
  let ?c = "c\<lparr>peer_pieces := apply_bitfield ?n payload (peer_pieces c)\<rparr>"
  have n: "length (piece_hashes (torrent d)) = ?n" "?n < 2 ^ 31 - 1" "0 < ?n"
    using sharesD [OF assms(1)] assms(2) s by (simp_all add: fresh_session_def)
  have "length (apply_bitfield ?n payload (peer_pieces c)) = ?n"
    using apply_bitfield_nth [OF n(3)] by blast
  moreover have "apply_bitfield ?n payload (peer_pieces c) ! x" if "x < ?n" for x
    using apply_bitfield_nth [OF that, of payload "peer_pieces c"] assms(3) that by (simp add: full_bitfield_def)
  ultimately have "has_all ?c ?n"
    using n(2) by (simp add: has_all_def)
  moreover have "handle_message k BITFIELD payload s = (None, (?c, d))"
    using n(1) s by (simp add: handle_message_def message_ids)
  moreover have "fresh_session tf (?c, d)"
    using assms(2) s by (simp add: fresh_session_def)
  ultimately show ?thesis
    using announced [of tf "(?c, d)" F] assms(4,5) s by (simp add: wire_of_def)
qed

lemma serve_unchoke:
  assumes "shares tf F" and "accepts_all k" and "fresh_session tf s" and "has_all (fst s) (piece_count tf F)"
    and "c_state (fst s) = DOWNLOADING" and "wire_of s @ requests_from tf F 0 = W"
  shows "\<exists>t. handle_message k UNCHOKE [] s = (None, t) \<and> serving tf F W (pieces_from tf F 0) t"
proof -
  obtain c d where s: "s = (c, d)" by (cases s)
  have "seeding tf F (c\<lparr>choked := False\<rparr>)"
    using assms(3,4) s by (simp add: fresh_session_def seeding_def has_all_def)
  then obtain t where t: "RequestNextBlock k (c\<lparr>choked := False\<rparr>, d) = (None, t)"
      "file_writer (snd t) = file_writer d" "awaiting tf F 0 0 t"
      "wire_of t = wire_of (c\<lparr>choked := False\<rparr>, d) @ block_request tf F 0 0"
    using next_piece_await [OF assms(1,2), of "c\<lparr>choked := False\<rparr>" d 0] assms(3) s sharesD(6) [OF assms(1)]
    by (auto simp: fresh_session_def)
  moreover have "c_state (fst t) = DOWNLOADING"
    using RequestNextBlock_keeps [of "(c\<lparr>choked := False\<rparr>, d)" k] t(1) assms(5) s by (simp add: keeps_def)
  moreover have "wire_of (c\<lparr>choked := False\<rparr>, d) = wire_of s"
    using s by (simp add: wire_of_def)
  ultimately have "serving tf F W (pieces_from tf F 0) t"
    using assms(1,3,6) s sharesD(6) [OF assms(1)]
    by (intro serving_piece [where w = "wire_of s"]) (simp_all add: fresh_session_def)
  moreover have "handle_message k UNCHOKE [] s = RequestNextBlock k (c\<lparr>choked := False\<rparr>, d)"
    using s by (simp add: handle_message_def)
  ultimately show ?thesis
    using t(1) by simp
qed

lemma serve_block:
  assumes "shares tf F" and "accepts_all k" and "awaiting tf F i p s" and "i < piece_count tf F"
    and "w_added (file_writer (snd s)) = map (job_of tf F) [0..<i]"
    and "(mid # payload) # ms = map (block_message tf F i) (blocks p (length (piece_at tf F i))) @ pieces_from tf F (i + 1)"
    and "c_state (fst s) = DOWNLOADING"
    and "wire_of s @ concat (map (request_of (word_of_nat i)) (blocks (p + 16384) (length (piece_at tf F i))))
      @ requests_from tf F (i + 1) = W"
  shows "\<exists>t. handle_message k mid payload s = (None, t) \<and> serving tf F W ms t"
proof -
  let ?m = "length (piece_at tf F i)" and ?l = "min 16384 (length (piece_at tf F i) - p)"
  have "p < ?m"
    using assms(3) by (simp add: awaiting_def)
  then have b: "blocks p ?m = (p, ?l) # blocks (p + 16384) ?m"
    by (rule blocks_step)
  then have m: "mid # payload = block_message tf F i (p, ?l)"
    and ms: "ms = map (block_message tf F i) (blocks (p + 16384) ?m) @ pieces_from tf F (i + 1)"
    using assms(6) by simp_all
  obtain t where "handle_all k [block_message tf F i (p, ?l)] s = (None, t)"
    and r: "if p + 16384 < ?m
       then awaiting tf F i (p + 16384) t \<and> w_added (file_writer (snd t)) = w_added (file_writer (snd s))
         \<and> wire_of t = wire_of s @ block_request tf F i (p + 16384)
       else w_added (file_writer (snd t)) = w_added (file_writer (snd s)) @ [job_of tf F i]
         \<and> (if i + 1 < piece_count tf F
            then awaiting tf F (i + 1) 0 t \<and> wire_of t = wire_of s @ block_request tf F (i + 1) 0
            else wire_of t = wire_of s)"
    using answer_block [OF assms(1,4,2), of p "fst s" "snd s" ?l "[]", unfolded prod.collapse] assms(3) by auto
  then have h: "handle_message k mid payload s = (None, t)"
    unfolding m [symmetric] handle_all_single by simp
  have so: "socket (fst t) \<noteq> None" "c_state (fst t) = DOWNLOADING"
    using handle_message_keeps [of s k mid payload] h assms(3,7) by (simp_all add: keeps_def awaiting_def seeding_def)
  have "serving tf F W ms t"
  proof (cases "p + 16384 < ?m")
    case True
    have "blocks (p + 16384) ?m = block_at tf F i (p + 16384) # blocks (p + 16384 + 16384) ?m"
      using blocks_step [OF True] by (simp add: block_at_def)
    then show ?thesis
      using r assms(4,5,8) so(2) True unfolding ms by (intro in_piece) (simp_all add: block_request_def)
  next
    case False
    then have e: "blocks (p + 16384) ?m = []"
      by (simp add: blocks.simps [of "p + 16384"])
    have w: "w_added (file_writer (snd t)) = map (job_of tf F) [0..<i + 1]"
      using r False assms(5) by simp
    show ?thesis
    proof (cases "i + 1 < piece_count tf F")
      case True
      then have "awaiting tf F (i + 1) 0 t" "wire_of t = wire_of s @ block_request tf F (i + 1) 0"
        using r False by simp_all
      then show ?thesis
        using True w so(2) assms(1,8) unfolding ms e by (simp add: serving_piece)
    next
      case last: False
      then have "piece_count tf F = i + 1"
        using assms(4) by simp
      then show ?thesis
        using served [OF so(1) _ so(2), of tf F W] r False w assms(8) unfolding ms e
        by (simp add: pieces_from_def requests_from_def)
    qed
  qed
  with h show ?thesis by blast
qed

text \<open>
  The conversation does not depend on the receive buffer or on what the writer thread has done so
  far.
\<close>

definition same_view :: "session \<Rightarrow> session \<Rightarrow> bool" where
  "same_view s t \<longleftrightarrow>
     (socket (fst t) = None \<longleftrightarrow> socket (fst s) = None) \<and> wire_of t = wire_of s
     \<and> c_state (fst t) = c_state (fst s) \<and> choked (fst t) = choked (fst s)
     \<and> peer_pieces (fst t) = peer_pieces (fst s) \<and> current_piece (fst t) = current_piece (fst s)
     \<and> block_offset (fst t) = block_offset (fst s) \<and> torrent (snd t) = torrent (snd s)
     \<and> next_req_index (snd t) = next_req_index (snd s) \<and> current_piece_index (snd t) = current_piece_index (snd s)
     \<and> piece_buffer (snd t) = piece_buffer (snd s) \<and> piece_bytes_received (snd t) = piece_bytes_received (snd s)
     \<and> w_added (file_writer (snd t)) = w_added (file_writer (snd s))"

lemma awaiting_same_view: "awaiting tf F i p s \<Longrightarrow> same_view s t \<Longrightarrow> awaiting tf F i p t"
  by (cases "p = 0") (simp_all add: awaiting_def seeding_def has_all_def has_prefix_def assembling_def same_view_def)

lemma fresh_same_view: "fresh_session tf s \<Longrightarrow> same_view s t \<Longrightarrow> fresh_session tf t"
  by (simp add: fresh_session_def same_view_def)

lemma serving_same_view: "serving tf F W ms s \<Longrightarrow> same_view s t \<Longrightarrow> serving tf F W ms t"
proof (induction rule: serving.induct)
  case (greeted s payload)
  then show ?case
    using fresh_same_view by (intro serving.greeted) (simp_all add: same_view_def)
next
  case (introduced s payload)
  then show ?case
    using fresh_same_view by (intro serving.introduced) (simp_all add: same_view_def)
next
  case (announced s)
  then show ?case
    using fresh_same_view by (intro serving.announced) (simp_all add: has_all_def same_view_def)
next
  case (in_piece i p s)
  then show ?case
    using awaiting_same_view by (intro serving.in_piece) (simp_all add: same_view_def)
next
  case (served s)
  then show ?case
    by (intro serving.served) (simp_all add: same_view_def)
qed

lemma same_view_set_buf: "same_view s (set_buf b s)"
  by (simp add: same_view_def set_buf_def wire_of_def)

lemma serve_handshake:
  assumes "serving tf F W ms (c, d)" and "c_state c = HANDSHAKING" and "accepts_all k"
  shows "\<exists>t. conn_send k BuildInterested (c\<lparr>handshake_done := True, c_state := DOWNLOADING\<rparr>, d) = (None, t)
    \<and> serving tf F W ms t"
  using assms(1)
proof cases
  case (greeted payload)
  then obtain x where x: "socket c = Some x"
    by (auto simp: fresh_session_def)
  let ?t = "(c\<lparr>handshake_done := True, c_state := DOWNLOADING, socket := Some (x\<lparr>wire := wire x @ BuildInterested\<rparr>)\<rparr>, d)"
  have "fresh_session tf ?t" "wire_of ?t @ requests_from tf F 0 = W"
    using greeted x by (simp_all add: fresh_session_def wire_of_def)
  then have "serving tf F W ms ?t"
    using greeted introduced [of tf ?t F payload W] by simp
  moreover have "conn_send k BuildInterested (c\<lparr>handshake_done := True, c_state := DOWNLOADING\<rparr>, d) = (None, ?t)"
    using x assms(3) by (simp add: conn_send_def TcpSend_accepts_all)
  ultimately show ?thesis
    by blast
qed (use assms(2) in simp_all)

lemma block_message_small: "(q, l) \<in> set (blocks p n) \<Longrightarrow> length (block_message tf F i (q, l)) < 2 ^ 32 - 4"
proof -
  assume "(q, l) \<in> set (blocks p n)"
  then have "l \<le> 16384"
    using blocks_size by blast
  then have "length (block_data tf F i (q, l)) \<le> 16384"
    by (simp add: block_data_def)
  then show ?thesis
    by (simp add: block_message_def piece_payload_fields)
qed

lemma pieces_from_small: "m \<in> set (pieces_from tf F i) \<Longrightarrow> length m < 2 ^ 32 - 4"
  using block_message_small by (fastforce simp: pieces_from_def piece_messages_def)

lemma serving_open: "serving tf F W ms s \<Longrightarrow> socket (fst s) \<noteq> None"
  by (induction rule: serving.induct) (simp_all add: fresh_session_def awaiting_def seeding_def)

lemma serving_small: "serving tf F W ms s \<Longrightarrow> \<forall>m\<in>set ms. length m < 2 ^ 32 - 4"
proof (induction rule: serving.induct)
  case (in_piece i p s)
  then show ?case
    using block_message_small pieces_from_small by fastforce
qed (auto simp: seeder_messages_def dest: pieces_from_small)

lemma serving_no_keep_alive: "serving tf F W ms s \<Longrightarrow> [] \<notin> set ms"
  by (induction rule: serving.induct)
    (auto simp: seeder_messages_def pieces_from_def piece_messages_def block_message_def)

interpretation seeder: message_protocol accepts_all "\<lambda>ms s. shares tf F \<and> serving tf F W ms s" for tf F W
proof
  show "shares tf F \<and> serving tf F W ms (set_buf b s)" if "shares tf F \<and> serving tf F W ms s" for ms s b
    using that serving_same_view [OF _ same_view_set_buf] by blast
  show "socket (fst s) \<noteq> None" if "shares tf F \<and> serving tf F W ms s" for ms s
    using that serving_open by blast
  show "\<forall>m\<in>set ms. length m < 2 ^ 32 - 4" if "shares tf F \<and> serving tf F W ms s" for ms s
    using that serving_small by blast
  show "shares tf F \<and> serving tf F W ms s" if "shares tf F \<and> serving tf F W ([] # ms) s" for ms s
    using that serving_no_keep_alive by fastforce
  show "\<exists>t. conn_send k BuildInterested (c\<lparr>handshake_done := True, c_state := DOWNLOADING\<rparr>, d) = (None, t)
      \<and> shares tf F \<and> serving tf F W ms t"
    if "shares tf F \<and> serving tf F W ms (c, d)" and "c_state c = HANDSHAKING" and "accepts_all k" for ms c d k
    using serve_handshake [OF conjunct2 [OF that(1)] that(2,3)] that(1) by blast
  show "\<exists>t. handle_message k mid payload s = (None, t) \<and> shares tf F \<and> serving tf F W ms t"
    if r: "shares tf F \<and> serving tf F W ((mid # payload) # ms) s" and c: "c_state (fst s) = DOWNLOADING"
      and k: "accepts_all k" for mid payload ms s k
  proof -
    have sh: "shares tf F" and "serving tf F W ((mid # payload) # ms) s"
      using r by simp_all
    from this(2) show ?thesis
    proof cases
      case (greeted payload)
      then show ?thesis
        using c by simp
    next
      case (introduced payload)
      then show ?thesis
        using serve_bitfield [OF sh] sh by (simp add: seeder_messages_def)
    next
      case announced
      then show ?thesis
        using serve_unchoke [OF sh k] sh by simp
    next
      case (in_piece i p)
      then show ?thesis
        using serve_block [OF sh k in_piece(2-4) in_piece(1) in_piece(5,6)] sh by blast
    qed
  qed
qed

end
