(* ===== verification/Seeder_Run.thy ===== *)
theory Seeder_Run
  imports Whole_Download Farm
begin

text \<open>
  One connection against an honest seeder: its stream, cut into reads in any way, is requested,
  checked and handed to the writer, piece after piece. The writer of a running download keeps the
  output file at what it has done, and the pieces add up to the shared file.
\<close>

section \<open>The writer of a running download\<close>

definition opened_writer :: "writer \<Rightarrow> bool" where
  "opened_writer w \<longleftrightarrow> writer_inv w \<and> w_out w = foldl do_job (ofs_open True) (w_done w)
     \<and> \<not> w_stop w \<and> (w_phase w = Locked \<or> (\<exists>j. w_phase w = Writing j))"

lemma opened_writer_add: "opened_writer w \<Longrightarrow> opened_writer (fst (writer_add w b off))"
  by (auto simp: opened_writer_def writer_inv_def writer_add_def in_flight_def split: writer_phase.split)

lemma opened_writer_thread: "opened_writer w \<Longrightarrow> thread_step w = Some w' \<Longrightarrow> opened_writer w'"
  using thread_step_inv [of w w']
  by (auto simp: opened_writer_def thread_step.simps split: writer_phase.splits list.splits if_splits)

lemma verify_piece_adds:
  "file_writer (snd (verify_piece i d)) = file_writer d \<or>
   (\<exists>off. file_writer (snd (verify_piece i d)) = fst (writer_add (file_writer d) (piece_buffer d) off))"
  by (auto simp: verify_piece_def Let_def writer_add_def)

lemma OnBlockReceived_adds:
  "file_writer (snd (OnBlockReceived i off data d)) = file_writer d \<or>
   (\<exists>b p. file_writer (snd (OnBlockReceived i off data d)) = fst (writer_add (file_writer d) b p))"
proof -
  obtain f1 d1 where 1: "init_piece i d = (f1, d1)" by (cases "init_piece i d")
  obtain f2 d2 where 2: "copy_block off data d1 = (f2, d2)" by (cases "copy_block off data d1")
  have w: "file_writer d1 = file_writer d" "file_writer d2 = file_writer d"
    using init_piece_frame [of i d] copy_block_frame [of off data d1] by (simp_all add: 1 2)
  have "file_writer (snd (verify_piece i (count_block data d2))) = file_writer d \<or>
    (\<exists>b p. file_writer (snd (verify_piece i (count_block data d2))) = fst (writer_add (file_writer d) b p))"
    using verify_piece_adds [of i "count_block data d2"] by (auto simp: w)
  then show ?thesis
    using w by (auto simp: OnBlockReceived_def 1 2 act_then_def split: option.split)
qed

lemma opened_writer_step: "downloader_step d d' \<Longrightarrow> opened_writer (file_writer d) \<Longrightarrow> opened_writer (file_writer d')"
proof (induction rule: downloader_step.induct)
  case (block data i off d)
  then show ?case
    using OnBlockReceived_adds [of i off data d] opened_writer_add by auto
next
  case (request d)
  then show ?case
    by (simp add: GetNextPieceToRequest_frame)
next
  case (start d)
  then show ?case
    by (auto simp: opened_writer_def)
next
  case (thread d w)
  then show ?case
    by (simp add: opened_writer_thread)
qed

lemma opened_writer_steps:
  "downloader_step\<^sup>*\<^sup>* d d' \<Longrightarrow> opened_writer (file_writer d) \<Longrightarrow> opened_writer (file_writer d')"
  by (induction rule: rtranclp_induct) (auto intro: opened_writer_step)

lemma opened_writer_start: "opened_writer (writer_start (Writer True))"
  by (auto simp: opened_writer_def writer_inv_def Writer_def writer_start_def in_flight_def)

text \<open>A running writer works off its queue and then waits.\<close>

lemma thread_run_drains:
  "opened_writer w \<Longrightarrow> thread_work w \<le> n \<Longrightarrow>
   w_done (thread_run n w) = w_added w \<and> opened_writer (thread_run n w)"
proof (induction n arbitrary: w)
  case 0
  then show ?case
    by (auto simp: opened_writer_def)
next
  case (Suc n)
  show ?case
  proof (cases "thread_step w")
    case None
    then have "w_phase w = Locked" "w_q w = []"
      using Suc.prems(1) by (auto simp: opened_writer_def thread_step.simps split: list.splits if_splits)
    then show ?thesis
      using Suc.prems(1) None by (auto simp: opened_writer_def writer_inv_def in_flight_def)
  next
    case (Some w')
    have "thread_work w' < thread_work w \<and> w_added w' = w_added w"
      using Some Suc.prems(1)
      by (auto simp: opened_writer_def thread_step.simps split: writer_phase.splits list.splits if_splits)
    then show ?thesis
      using Suc.IH [of w'] Suc.prems opened_writer_thread [OF Suc.prems(1) Some] Some by simp
  qed
qed

text \<open>The destructor lets it work off its queue too.\<close>

lemma thread_run_output:
  "w_out w = foldl do_job (ofs_open True) (w_done w) \<Longrightarrow>
   w_out (thread_run n w) = foldl do_job (ofs_open True) (w_done (thread_run n w))"
proof (induction n arbitrary: w)
  case (Suc n)
  have "w_out w' = foldl do_job (ofs_open True) (w_done w')" if "thread_step w = Some w'" for w'
    using that Suc.prems by (auto simp: thread_step.simps split: writer_phase.splits list.splits if_splits)
  then show ?case
    using Suc by (simp split: option.split)
qed simp

lemma destroyed_writer:
  assumes "opened_writer w" and "2 * length (w_q w) + 2 \<le> m"
  shows "w_phase (thread_run m (writer_stop w)) = Exited
    \<and> w_out (thread_run m (writer_stop w)) = foldl do_job (ofs_open True) (w_added w)"
proof -
  let ?w = "writer_stop w"
  have w: "w_stop ?w" "w_phase ?w \<noteq> Not_Started" "thread_work ?w \<le> m" "w_added ?w = w_added w"
      "w_out ?w = foldl do_job (ofs_open True) (w_done ?w)" "writer_inv ?w"
    using assms by (auto simp: opened_writer_def writer_stop_def writer_inv_def)
  have e: "w_phase (thread_run m ?w) = Exited" "w_added (thread_run m ?w) = w_added w"
    using thread_run_exits [OF w(1-3)] w(4) by simp_all
  then have "w_done (thread_run m ?w) = w_added w"
    using writer_Exited [OF thread_run_inv [OF w(6)]] by simp
  then show ?thesis
    using e(1) thread_run_output [OF w(5), of m] by simp
qed

section \<open>What the pieces add up to\<close>

lemma put_next:
  assumes "p < length F"
  shows "put_bytes (take p F) p (take n (drop p F)) = take (p + n) F"
proof -
  have "put_bytes (take p F) p (take n (drop p F)) = take p F @ take n (drop p F)"
    using assms by (cases "take n (drop p F) = []") (simp_all add: put_bytes_def)
  then show ?thesis
    by (simp add: take_add)
qed

lemma jobs_content:
  assumes "shares tf F"
  shows "i \<le> piece_count tf F \<Longrightarrow>
    ofs_good (foldl do_job (ofs_open True) (map (job_of tf F) [0..<i]))
    \<and> ofs_content (foldl do_job (ofs_open True) (map (job_of tf F) [0..<i])) = take (i * psize tf) F"
proof (induction i)
  case 0
  then show ?case
    by (simp add: ofs_open_def)
next
  case (Suc i)
  let ?f = "foldl do_job (ofs_open True) (map (job_of tf F) [0..<i])"
  have f: "ofs_good ?f" "ofs_content ?f = take (i * psize tf) F"
    using Suc by simp_all
  have e: "job_offset (job_of tf F i) = int (i * psize tf)"
    using sharesD(2) [OF assms] by (simp add: job_of_def)
  have "nat (job_offset (job_of tf F i)) = i * psize tf" "job_b (job_of tf F i) = piece_at tf F i"
    unfolding e by (simp_all only: nat_int) (simp add: job_of_def)
  note o = e this
  have "put_bytes (take (i * psize tf) F) (i * psize tf) (piece_at tf F i) = take (Suc i * psize tf) F"
    using put_next [of "i * psize tf" F "psize tf"] piece_at_inside(1) [OF assms, of i] Suc.prems
    by (simp add: piece_at_def add.commute)
  moreover have "0 \<le> job_offset (job_of tf F i)"
    unfolding e by (rule of_nat_0_le_iff)
  ultimately show ?case
    using do_job_good [OF f(1), of "job_of tf F i"] f(2) o(2,3) by simp
qed

lemma all_jobs_content:
  assumes "shares tf F"
  shows "ofs_content (foldl do_job (ofs_open True) (map (job_of tf F) [0..<piece_count tf F])) = F"
  using jobs_content [OF assms order.refl] piece_count_bounds(2) [OF assms] by simp

section \<open>The stream of the seeder\<close>

definition seeder_streaming :: "torrent_file \<Rightarrow> buffer \<Rightarrow> buffer \<Rightarrow> buffer \<Rightarrow> session \<Rightarrow> bool" where
  "seeder_streaming tf F W = streaming (\<lambda>ms s. shares tf F \<and> serving tf F W ms s)"

lemma streaming_not_connecting: "streaming ready rest s \<Longrightarrow> c_state (fst s) \<noteq> CONNECTING"
  by (auto simp: streaming_def greeting_def digesting_def)

text \<open>When the connection is writable, the handshake goes out.\<close>

lemma OnReadyWrite_greets:
  assumes "accepts_all k" and "socket c = Some t" and "c_state c = CONNECTING"
  shows "OnReadyWrite k (c, d)
    = (c\<lparr>socket := Some (t\<lparr>wire := wire t @ BuildHandshake (torrent d) (my_id d)\<rparr>), c_state := HANDSHAKING\<rparr>, d)"
  using assms by (simp add: OnReadyWrite_def TcpSend_accepts_all)

lemma streaming_start:
  assumes "shares tf F" and "fresh_session tf s" and "full_bitfield (piece_count tf F) payload"
    and "length payload < 2 ^ 32 - 5" and "c_state (fst s) = HANDSHAKING" and "buf s = []" and "length h = 68"
  shows "seeder_streaming tf F (wire_of s @ BuildInterested @ requests_from tf F 0)
    (h @ concat (map frame (seeder_messages tf F payload))) s"
  using assms greeted [OF assms(2-5) refl]
  by (auto simp: seeder_streaming_def streaming_def greeting_def)

lemma Run_writer_turns:
  "\<exists>f'. Run chk (replicate m Writer_Thread) f = Run chk [] f' \<and> connections f' = connections f
     \<and> file_writer (f_downloader f') = thread_run m (file_writer (f_downloader f))
     \<and> downloader_step\<^sup>*\<^sup>* (f_downloader f) (f_downloader f')"
proof (induction m arbitrary: f)
  case 0
  then show ?case by auto
next
  case (Suc m)
  have "thread_run (Suc m) w = thread_run m (thread_run 1 w)" for w
    by (cases m) (auto split: option.split)
  then have t: "thread_run m (file_writer (f_downloader (writer_turn f))) = thread_run (Suc m) (file_writer (f_downloader f))"
    by (simp add: writer_turn_def)
  obtain f' where f': "Run chk (replicate m Writer_Thread) (writer_turn f) = Run chk [] f'" "connections f' = connections f"
     "file_writer (f_downloader f') = thread_run (Suc m) (file_writer (f_downloader f))"
     "downloader_step\<^sup>*\<^sup>* (f_downloader (writer_turn f)) (f_downloader f')"
    using Suc.IH [of "writer_turn f"] unfolding t by auto
  have "Run chk (replicate (Suc m) Writer_Thread) f = Run chk [] f'"
    using f'(1) by (simp only: replicate_Suc Run.simps(1))
  then show ?case
    using f'(2,3) rtranclp_trans [OF writer_turn_step f'(4)] by blast
qed

lemma serving_end:
  "serving tf F W [] s \<Longrightarrow> w_added (file_writer (snd s)) = map (job_of tf F) [0..<piece_count tf F] \<and> wire_of s = W"
  by (erule serving.cases) (simp_all add: awaiting_def seeder_messages_def blocks.simps)

text \<open>
  The torrents that \<open>shares\<close> describes list text hashes; the raw hashes that \<open>Load\<close>
  produces are none, which is why \<open>main\<close> does not download what \<open>Start\<close> can.
\<close>

lemma loaded_torrent_not_shared:
  assumes "shares tf F" and "h \<in> set (piece_hashes tf)"
  shows "length h = 40"
  using assms length_Calculate by (auto simp: shares_def)

section \<open>Properties\<close>

text \<open>
  C5: an honest seeder completes the download of a connection, for a torrent with text hashes:
  the SHA-1 of each piece of \<open>F\<close> must be listed as the 40 hexadecimal digits that
  \<open>OnBlockReceived\<close> compares with, which \<open>Load\<close> never returns. The connection has sent
  its handshake and nothing else has happened yet, no piece is assigned or begun and nothing was given
  to the writer; all sends are accepted in full. Then after 68 bytes, a full bitfield, an unchoke and one block for each
  request, in chunks of any size, every read returns, nothing is left in the receive buffer, the
  client has expressed interest and asked for every block of every piece once and in order, and the
  writer has been handed every piece of the file, once, in order and at its position.
\<close>

theorem honest_seeder_completes:
  assumes "shares tf F" and "full_bitfield (piece_count tf F) payload" and "length payload < 2 ^ 32 - 5"
    and "accepts_all k" and "fresh_session tf s" and "c_state (fst s) = HANDSHAKING" and "buf s = []"
    and "length h = 68" and "[] \<notin> set bs"
    and "concat bs = h @ concat (map frame (seeder_messages tf F payload))"
  shows "\<exists>t. read_chunks k bs s = (None, t) \<and> buf t = []
    \<and> wire_of t = wire_of s @ BuildInterested @ concat (map (piece_requests tf F) [0..<piece_count tf F])
    \<and> w_added (file_writer (snd t)) = map (job_of tf F) [0..<piece_count tf F]"
proof -
  let ?W = "wire_of s @ BuildInterested @ requests_from tf F 0"
  have "seeder_streaming tf F ?W (concat bs @ []) s"
    using streaming_start [OF assms(1,5,2,3,6,7,8)] assms(10) by simp
  then obtain t where t: "read_chunks k bs s = (None, t)" "seeder_streaming tf F ?W [] t"
    using seeder.read_all [of tf F ?W bs "[]" s k] assms(4,9) by (auto simp: seeder_streaming_def)
  then have "serving tf F ?W [] t" "buf t = []"
    using seeder.streaming_end by (simp_all add: seeder_streaming_def)
  then show ?thesis
    using t(1) serving_end [of tf F ?W t] by (simp add: requests_from_def)
qed

text \<open>A file of five bytes in two pieces, and the six messages of its seeder.\<close>

lemma upt_2: "[0..<2] = [0, 1 :: nat]"
  by (simp add: upt_rec)

lemma two_piece_count: "piece_count two_piece_torrent [1, 2, 3, 4, 5] = 2"
  by (simp add: piece_count_def psize_def two_piece_torrent_def)

lemma two_piece_at:
  "piece_at two_piece_torrent [1, 2, 3, 4, 5] 0 = [1, 2, 3]" "piece_at two_piece_torrent [1, 2, 3, 4, 5] 1 = [4, 5]"
  by (simp_all add: piece_at_def psize_def two_piece_torrent_def)

lemma shares_two_pieces: "shares two_piece_torrent [1, 2, 3, 4, 5]"
  unfolding shares_def two_piece_count upt_2 by (simp add: two_piece_at two_piece_at(2) [simplified]) (simp add: two_piece_torrent_def)

lemma two_piece_bitfield: "full_bitfield 2 [192]"
  by (auto simp: full_bitfield_def less_2_cases_iff bit_iff_odd_drop_bit)

definition two_piece_stream :: buffer where
  "two_piece_stream = concat (map frame [[5, 192], [1], [7, 0, 0, 0, 0, 0, 0, 0, 0, 1, 2, 3], [7, 0, 0, 0, 1, 0, 0, 0, 0, 4, 5]])"

lemma two_piece_messages:
  "concat (map frame (seeder_messages two_piece_torrent [1, 2, 3, 4, 5] [192])) = two_piece_stream"
proof -
  have b: "blocks 0 3 = [(0, 3)]" "blocks 0 2 = [(0, 2)]"
    by (simp_all add: blocks.simps)
  have l: "length [1, 2, 3 :: u8] = 3" "length [4, 5 :: u8] = 2"
    by simp_all
  have p: "piece_messages two_piece_torrent [1, 2, 3, 4, 5] 0 = [[7, 0, 0, 0, 0, 0, 0, 0, 0, 1, 2, 3]]"
      "piece_messages two_piece_torrent [1, 2, 3, 4, 5] 1 = [[7, 0, 0, 0, 1, 0, 0, 0, 0, 4, 5]]"
    unfolding piece_messages_def two_piece_at l b
    by (simp_all add: block_message_def block_data_def two_piece_at two_piece_at(2) [simplified]
        piece_payload_def PushInt32_def PIECE_def)
  show ?thesis
    unfolding seeder_messages_def pieces_from_def two_piece_count upt_2
    by (simp add: p p(2) [simplified] two_piece_stream_def BITFIELD_def UNCHOKE_def)
qed

theorem honest_seeder_completes_witness:
  "\<exists>t. read_chunks accept_kernel [replicate 68 0, two_piece_stream] (sample_session HANDSHAKING) = (None, t)
    \<and> w_added (file_writer (snd t)) = [\<lparr>job_b = [1, 2, 3], job_offset = 0\<rparr>, \<lparr>job_b = [4, 5], job_offset = 3\<rparr>]"
proof -
  have f: "fresh_session two_piece_torrent (sample_session HANDSHAKING)"
    by (simp add: fresh_session_def sample_session_def Connection_def Downloader_def Writer_def)
  have j: "map (job_of two_piece_torrent [1, 2, 3, 4, 5]) [0..<2]
      = [\<lparr>job_b = [1, 2, 3], job_offset = 0\<rparr>, \<lparr>job_b = [4, 5], job_offset = 3\<rparr>]"
    unfolding upt_2 by (simp add: job_of_def two_piece_at two_piece_at(2) [simplified]) (simp add: two_piece_torrent_def)
  have "two_piece_stream \<noteq> []"
    by (simp add: two_piece_stream_def frame_def)
  then have "[] \<notin> set [replicate 68 0, two_piece_stream]"
    by auto
  then obtain t where "read_chunks accept_kernel [replicate 68 0, two_piece_stream] (sample_session HANDSHAKING) = (None, t)"
      "w_added (file_writer (snd t)) = map (job_of two_piece_torrent [1, 2, 3, 4, 5]) [0..<2]"
    using honest_seeder_completes [OF shares_two_pieces, of "[192]" accept_kernel "sample_session HANDSHAKING"
        "replicate 68 0" "[replicate 68 0, two_piece_stream]"] f two_piece_bitfield
    unfolding two_piece_count two_piece_messages by auto
  then show ?thesis
    unfolding j by blast
qed

end
