(* ===== verification/Swarm_Run.thy ===== *)
theory Swarm_Run
  imports Seeder_Run
begin

text \<open>
  The program as a whole: \<open>Downloader::Start\<close> makes up to five connections, the event loop
  reads their streams in whatever chunks and order they come, the writer thread moves in between,
  and in the end the output file is the file that one of the peers has. The other peers may say
  anything but an unchoke or a block, close, or keep silent.
\<close>

section \<open>Events of a connection\<close>

text \<open>The events of the connection \<open>y\<close>, and the bytes they bring.\<close>

definition turns :: "nat \<Rightarrow> event list \<Rightarrow> event list" where
  "turns y es = filter (\<lambda>e. ev_conn e = y) es"

definition event_bytes :: "event \<Rightarrow> buffer" where
  "event_bytes e = (case ev_in e of Some (Some b) \<Rightarrow> b | _ \<Rightarrow> [])"

definition heard :: "event list \<Rightarrow> buffer" where
  "heard es = concat (map event_bytes es)"

text \<open>A connection is seen writable before anything is read from it.\<close>

definition writable_first :: "event list \<Rightarrow> bool" where
  "writable_first es \<longleftrightarrow> es = [] \<or> ev_out (hd es)"

text \<open>Everything is sent in full, and the connection \<open>x\<close> is neither closed nor broken.\<close>

definition swarm_event :: "nat \<Rightarrow> nat \<Rightarrow> event \<Rightarrow> bool" where
  "swarm_event n x e \<longleftrightarrow> ev_conn e < n \<and> accepts_all (ev_kernel e)
     \<and> (ev_conn e = x \<longrightarrow> ev_in e \<noteq> Some None \<and> ev_in e \<noteq> Some (Some []))"

lemma turns_simps [simp]:
  "turns y [] = []"
  "turns y (e # es) = (if ev_conn e = y then e # turns y es else turns y es)"
  "turns y (es @ es') = turns y es @ turns y es'"
  by (simp_all add: turns_def)

lemma heard_simps [simp]: "heard [] = []" "heard (e # es) = event_bytes e @ heard es"
  by (simp_all add: heard_def)

lemma writable_first_simps [simp]: "writable_first []" "writable_first (e # es) \<longleftrightarrow> ev_out e"
  by (simp_all add: writable_first_def)

lemma event_bytes_simps [simp]:
  "ev_in e = None \<Longrightarrow> event_bytes e = []"
  "ev_in e = Some None \<Longrightarrow> event_bytes e = []"
  "ev_in e = Some (Some b) \<Longrightarrow> event_bytes e = b"
  by (simp_all add: event_bytes_def)

lemma conn_event_greeted:
  assumes "streaming ready rest s"
  shows "conn_event e s = (case ev_in e of None \<Rightarrow> (None, s) | Some a \<Rightarrow> OnReadyRead (ev_kernel e) a s)"
proof -
  have "OnReadyWrite k s = s" for k
    using streaming_not_connecting [OF assms] by (auto simp: OnReadyWrite_def split: prod.split option.split)
  then show ?thesis
    by (simp add: conn_event_def)
qed

text \<open>The first event of a connection is that of the greeted connection.\<close>

definition greeted_session :: "session \<Rightarrow> session" where
  "greeted_session s = (case s of (c, d) \<Rightarrow>
     (c\<lparr>socket := map_option (\<lambda>t. t\<lparr>wire := wire t @ BuildHandshake (torrent d) (my_id d)\<rparr>) (socket c),
        c_state := HANDSHAKING\<rparr>, d))"

lemma conn_event_greets:
  assumes "ev_out e" and "accepts_all (ev_kernel e)" and "socket (fst s) \<noteq> None" and "c_state (fst s) = CONNECTING"
  shows "conn_event e s = conn_event (e\<lparr>ev_out := False\<rparr>) (greeted_session s)"
proof -
  obtain c d t where s: "s = (c, d)" "socket c = Some t"
    using assms(3) by (cases s) auto
  then have "OnReadyWrite (ev_kernel e) s = greeted_session s"
    using OnReadyWrite_greets [OF assms(2) s(2), of d] assms(4) by (simp add: greeted_session_def)
  then show ?thesis
    using assms(1) by (simp add: conn_event_def Let_def split: option.split)
qed

section \<open>The peers that do not matter\<close>

text \<open>A message that is neither an unchoke nor a block; the empty one is a keep-alive.\<close>

definition idle_message :: "buffer \<Rightarrow> bool" where
  "idle_message m \<longleftrightarrow> length m < 2 ^ 32 - 4 \<and> (m = [] \<or> hd m \<noteq> UNCHOKE \<and> hd m \<noteq> PIECE)"

definition idle_stream :: "buffer \<Rightarrow> bool" where
  "idle_stream b \<longleftrightarrow> (\<exists>rest h ms. length h = 68 \<and> (\<forall>m\<in>set ms. idle_message m)
     \<and> b @ rest = h @ concat (map frame ms))"

definition idle_ready :: "downloader \<Rightarrow> buffer list \<Rightarrow> session \<Rightarrow> bool" where
  "idle_ready d ms s \<longleftrightarrow> snd s = d \<and> socket (fst s) \<noteq> None \<and> (\<forall>m\<in>set ms. idle_message m)"

lemma handle_idle_message:
  assumes "mid \<noteq> UNCHOKE" and "mid \<noteq> PIECE"
  shows "\<exists>c'. handle_message k mid payload (c, d) = (None, (c', d)) \<and> socket c' = socket c"
  using assms by (simp add: handle_message_def)

interpretation idle: message_protocol accepts_all "idle_ready d" for d
proof
  show "\<exists>t. conn_send k BuildInterested (c\<lparr>handshake_done := True, c_state := DOWNLOADING\<rparr>, d') = (None, t) \<and> idle_ready d ms t"
    if "idle_ready d ms (c, d')" and "accepts_all k" for ms c d' k
    using that by (auto simp: idle_ready_def conn_send_def TcpSend_accepts_all)
  show "\<exists>t. handle_message k mid payload s = (None, t) \<and> idle_ready d ms t"
    if r: "idle_ready d ((mid # payload) # ms) s" for k mid payload ms s
  proof -
    have "mid \<noteq> UNCHOKE" "mid \<noteq> PIECE"
      using r by (simp_all add: idle_ready_def idle_message_def)
    from handle_idle_message [OF this, of k payload "fst s" "snd s"] show ?thesis
      using r by (auto simp: idle_ready_def)
  qed
qed (auto simp: idle_ready_def idle_message_def set_buf_def)

text \<open>\<open>es\<close> are the events of the connection that are still to come.\<close>

definition idle_peer :: "event list \<Rightarrow> session \<Rightarrow> bool" where
  "idle_peer es s \<longleftrightarrow> socket (fst s) = None
     \<or> c_state (fst s) = CONNECTING \<and> buf s = [] \<and> writable_first es \<and> idle_stream (heard es)
     \<or> (\<exists>rest. streaming (idle_ready (snd s)) (heard es @ rest) s)"

text \<open>What the others do to the downloader is nothing to an idle peer.\<close>

lemma idle_peer_downloader:
  assumes "idle_peer es (c, d)"
  shows "idle_peer es (c, d')"
proof -
  have "idle_ready d' ms (c, d') \<longleftrightarrow> idle_ready d ms (c, d)" for ms
    by (simp add: idle_ready_def)
  then show ?thesis
    using assms by (simp add: idle_peer_def streaming_def greeting_def digesting_def)
qed

lemma idle_streaming_event:
  assumes "streaming (idle_ready (snd s)) (event_bytes e @ rest) s" and "accepts_all (ev_kernel e)"
  shows "\<exists>t. conn_event e s = (None, t) \<and> snd t = snd s
    \<and> (socket (fst t) = None \<or> streaming (idle_ready (snd s)) rest t)"
proof -
  note ev = conn_event_greeted [OF assms(1), of e]
  consider "ev_in e = None" | "ev_in e = Some None \<or> ev_in e = Some (Some [])" | b where "ev_in e = Some (Some b)" "b \<noteq> []"
    by (metis option.exhaust)
  then show ?thesis
  proof cases
    case 1
    then show ?thesis
      using ev assms(1) by simp
  next
    case 2
    then show ?thesis
      using ev by (auto simp: OnReadyRead_def split: prod.split)
  next
    case 3
    then obtain t where t: "OnReadyRead (ev_kernel e) (Some b) s = (None, t)" "streaming (idle_ready (snd s)) rest t"
      using idle.read_step [of "snd s" b rest s "ev_kernel e"] assms by auto
    then have "snd t = snd s"
      by (auto simp: streaming_def greeting_def digesting_def idle_ready_def)
    then show ?thesis
      using t ev 3 by simp
  qed
qed

lemma idle_event:
  assumes "idle_peer (e # es) s" and "accepts_all (ev_kernel e)"
  shows "\<exists>t. conn_event e s = (None, t) \<and> snd t = snd s \<and> idle_peer es t"
proof -
  have streaming: "\<exists>t. conn_event e' s' = (None, t) \<and> snd t = snd s \<and> idle_peer es t"
    if "streaming (idle_ready (snd s)) (event_bytes e' @ heard es @ rest) s'" "accepts_all (ev_kernel e')" "snd s' = snd s"
    for e' s' rest
    using idle_streaming_event [of s' e' "heard es @ rest"] that by (auto simp: idle_peer_def)
  consider "socket (fst s) = None"
    | "socket (fst s) \<noteq> None" "c_state (fst s) = CONNECTING" "buf s = []" "ev_out e" "idle_stream (heard (e # es))"
    | rest where "streaming (idle_ready (snd s)) (event_bytes e @ heard es @ rest) s"
    using assms(1) by (auto simp: idle_peer_def)
  then show ?thesis
  proof cases
    case 1
    then have "conn_event e s = (None, s)"
      by (auto simp: conn_event_def OnReadyWrite_def OnReadyRead_def split: prod.split option.split)
    then show ?thesis
      using 1 by (simp add: idle_peer_def)
  next
    case 2
    let ?s = "greeted_session s"
    obtain rest h ms where st: "length h = 68" "\<forall>m\<in>set ms. idle_message m"
        "event_bytes e @ heard es @ rest = h @ concat (map frame ms)"
      using 2(5) by (auto simp: idle_stream_def)
    have "idle_ready (snd s) ms ?s" "c_state (fst ?s) = HANDSHAKING" "buf ?s = []" "snd ?s = snd s"
      using 2(1,3) st(2) by (auto simp: idle_ready_def greeted_session_def split: prod.split)
    then have "streaming (idle_ready (snd s)) (event_bytes e @ heard es @ rest) ?s"
      using st(1,3) by (auto simp: streaming_def greeting_def)
    moreover have "event_bytes (e\<lparr>ev_out := False\<rparr>) = event_bytes e"
      by (simp add: event_bytes_def)
    ultimately show ?thesis
      using streaming [of "e\<lparr>ev_out := False\<rparr>" rest ?s] conn_event_greets [OF 2(4) assms(2) 2(1,2)] assms(2)
        \<open>snd ?s = snd s\<close> by simp
  next
    case 3
    then show ?thesis
      using streaming assms(2) by blast
  qed
qed

section \<open>The seeder\<close>

text \<open>\<open>W\<close> is what the connection will have sent in the end.\<close>

definition seeder_peer :: "torrent_file \<Rightarrow> buffer \<Rightarrow> buffer \<Rightarrow> event list \<Rightarrow> session \<Rightarrow> bool" where
  "seeder_peer tf F W es s \<longleftrightarrow>
     c_state (fst s) = CONNECTING \<and> buf s = [] \<and> writable_first es \<and> shares tf F \<and> fresh_session tf s
       \<and> W = wire_of s @ BuildHandshake tf (my_id (snd s)) @ BuildInterested @ requests_from tf F 0
       \<and> (\<exists>h payload. length h = 68 \<and> full_bitfield (piece_count tf F) payload \<and> length payload < 2 ^ 32 - 5
            \<and> heard es = h @ concat (map frame (seeder_messages tf F payload)))
     \<or> seeder_streaming tf F W (heard es) s"

lemma seeder_streaming_event:
  assumes "seeder_streaming tf F W (event_bytes e @ rest) s" and "accepts_all (ev_kernel e)"
    and "ev_in e \<noteq> Some None" and "ev_in e \<noteq> Some (Some [])"
  shows "\<exists>t. conn_event e s = (None, t) \<and> seeder_streaming tf F W rest t"
proof (cases "ev_in e")
  case None
  then show ?thesis
    using assms(1) conn_event_greeted [of _ _ s e] by (simp add: seeder_streaming_def)
next
  case (Some a)
  then obtain b where b: "ev_in e = Some (Some b)" "b \<noteq> []"
    using assms(3,4) by (cases a) auto
  then show ?thesis
    using seeder.read_step [of tf F W b rest s "ev_kernel e"] conn_event_greeted [of _ _ s e] assms(1,2)
    by (simp add: seeder_streaming_def)
qed

lemma seeder_event:
  assumes "seeder_peer tf F W (e # es) s" and "accepts_all (ev_kernel e)"
    and "ev_in e \<noteq> Some None" and "ev_in e \<noteq> Some (Some [])"
  shows "\<exists>t. conn_event e s = (None, t) \<and> seeder_peer tf F W es t"
proof (cases "seeder_streaming tf F W (heard (e # es)) s")
  case True
  then show ?thesis
    using seeder_streaming_event [of tf F W e "heard es" s] assms(2-4) by (auto simp: seeder_peer_def)
next
  case False
  then have s: "c_state (fst s) = CONNECTING" "buf s = []" "ev_out e" "shares tf F" "fresh_session tf s"
      "W = wire_of s @ BuildHandshake tf (my_id (snd s)) @ BuildInterested @ requests_from tf F 0"
    using assms(1) by (auto simp: seeder_peer_def)
  obtain h payload where h: "length h = 68" "full_bitfield (piece_count tf F) payload" "length payload < 2 ^ 32 - 5"
      "heard (e # es) = h @ concat (map frame (seeder_messages tf F payload))"
    using False assms(1) unfolding seeder_peer_def by blast
  have open_s: "socket (fst s) \<noteq> None" "torrent (snd s) = tf"
    using s(5) by (simp_all add: fresh_session_def)
  let ?s = "greeted_session s" and ?e = "e\<lparr>ev_out := False\<rparr>"
  have g: "fresh_session tf ?s" "c_state (fst ?s) = HANDSHAKING" "buf ?s = []"
      "wire_of ?s = wire_of s @ BuildHandshake tf (my_id (snd s))"
    using s(2,5) open_s by (auto simp: greeted_session_def fresh_session_def wire_of_def split: prod.split)
  have "seeder_streaming tf F W (heard (e # es)) ?s"
    using streaming_start [OF s(4) g(1) h(2,3) g(2,3) h(1)] s(6) g(4) h(4) by simp
  moreover have "event_bytes ?e = event_bytes e"
    by (simp add: event_bytes_def)
  ultimately obtain t where "conn_event ?e ?s = (None, t)" "seeder_streaming tf F W (heard es) t"
    using seeder_streaming_event [of tf F W ?e "heard es" ?s] assms(2-4) by auto
  then show ?thesis
    using conn_event_greets [OF s(3) assms(2) open_s(1) s(1)] by (auto simp: seeder_peer_def)
qed

lemma seeder_peer_view:
  assumes "seeder_peer tf F W es (c, d)" and "same_view (c, d) (c, d')" and "my_id d' = my_id d"
  shows "seeder_peer tf F W es (c, d')"
proof -
  have "serving tf F W ms (c, d')" if "serving tf F W ms (c, d)" for ms
    using serving_same_view [OF that assms(2)] .
  then have "seeder_streaming tf F W r (c, d')" if "seeder_streaming tf F W r (c, d)" for r
    using that by (fastforce simp: seeder_streaming_def streaming_def greeting_def digesting_def)
  moreover have "fresh_session tf (c, d')" if "fresh_session tf (c, d)"
    using fresh_same_view [OF that assms(2)] .
  moreover have "wire_of (c, d') = wire_of (c, d)"
    by (simp add: wire_of_def)
  ultimately show ?thesis
    using assms(1,3) by (auto simp: seeder_peer_def)
qed

section \<open>The loop\<close>

text \<open>
  The state of the program while the events \<open>es\<close> are still to come, with the seeder at the
  connection \<open>x\<close>.
\<close>

definition plays_role :: "torrent_file \<Rightarrow> buffer \<Rightarrow> buffer \<Rightarrow> nat \<Rightarrow> nat \<Rightarrow> event list \<Rightarrow> session \<Rightarrow> bool" where
  "plays_role tf F W x y es s \<longleftrightarrow> (if y = x then seeder_peer tf F W es s else idle_peer es s)"

definition swarm :: "torrent_file \<Rightarrow> buffer \<Rightarrow> buffer \<Rightarrow> nat \<Rightarrow> event list \<Rightarrow> farm \<Rightarrow> bool" where
  "swarm tf F W x es f \<longleftrightarrow>
     x < length (connections f)
     \<and> (\<forall>y<length (connections f). plays_role tf F W x y (turns y es) (connections f ! y, f_downloader f))
     \<and> opened_writer (file_writer (f_downloader f))
     \<and> reachable (downloader_init tf) downloader_step (f_downloader f)"

lemma role_event:
  assumes "plays_role tf F W x (ev_conn e) (e # es) s" and "swarm_event n x e"
  shows "\<exists>t. conn_event e s = (None, t) \<and> plays_role tf F W x (ev_conn e) es t \<and> (ev_conn e = x \<or> snd t = snd s)"
  using assms seeder_event [of tf F W e es s] idle_event [of e es s]
  by (cases "ev_conn e = x") (auto simp: plays_role_def swarm_event_def)

lemma swarm_handle:
  assumes "swarm tf F W x (e # es) f" and "swarm_event (length (connections f)) x e"
  shows "\<exists>f'. handle_event e f = (None, f') \<and> swarm tf F W x es f'
    \<and> length (connections f') = length (connections f)"
proof -
  let ?n = "length (connections f)" and ?y = "ev_conn e" and ?d = "f_downloader f"
  let ?s = "\<lambda>y. (connections f ! y, ?d)"
  have y: "?y < ?n"
    using assms(2) by (simp add: swarm_event_def)
  then have "plays_role tf F W x ?y (e # turns ?y es) (?s ?y)"
    using assms(1) by (auto simp: swarm_def)
  then obtain c d where t: "conn_event e (?s ?y) = (None, (c, d))" "plays_role tf F W x ?y (turns ?y es) (c, d)"
      "?y = x \<or> d = ?d"
    using role_event [OF _ assms(2)] by fastforce
  let ?f = "f\<lparr>connections := (connections f)[?y := c], f_downloader := d\<rparr>"
  have h: "handle_event e f = (None, ?f)"
    using t(1) y by (simp add: handle_event_def)
  have "plays_role tf F W x z (turns z es) ((connections f)[?y := c] ! z, d)" if z: "z < ?n" for z
  proof (cases "z = ?y")
    case True
    then show ?thesis
      using t(2) y by simp
  next
    case False
    then have "plays_role tf F W x z (turns z es) (?s z)"
      using assms(1) z by (auto simp: swarm_def)
    then show ?thesis
      using False t(3) idle_peer_downloader by (auto simp: plays_role_def)
  qed
  moreover have step: "downloader_step\<^sup>*\<^sup>* ?d d"
    using handle_event_steps [OF h] by simp
  moreover have "opened_writer (file_writer d)" "reachable (downloader_init tf) downloader_step d"
    using assms(1) opened_writer_steps [OF step] reachable_rtranclp [OF step] by (simp_all add: swarm_def)
  ultimately have "swarm tf F W x es ?f"
    using assms(1) by (simp add: swarm_def)
  then show ?thesis
    using h by simp
qed

lemma swarm_handles:
  "swarm tf F W x (es @ later) f \<Longrightarrow> list_all (swarm_event (length (connections f)) x) es \<Longrightarrow>
   \<exists>f'. handle_events es f = (None, f') \<and> swarm tf F W x later f' \<and> length (connections f') = length (connections f)"
proof (induction es arbitrary: f)
  case (Cons e es)
  then obtain f1 where "handle_event e f = (None, f1)" "swarm tf F W x (es @ later) f1"
      "length (connections f1) = length (connections f)"
    using swarm_handle [of tf F W x e "es @ later" f] by auto
  then show ?case
    using Cons.IH [of f1] Cons.prems(2) by simp
qed simp

lemma swarm_writer_turn:
  assumes "swarm tf F W x es f"
  shows "swarm tf F W x es (writer_turn f)"
proof -
  let ?d = "f_downloader f" and ?d' = "f_downloader (writer_turn f)"
  have "w_added (thread_run 1 w) = w_added w" for w
    by (auto simp: thread_step.simps split: option.split writer_phase.splits list.splits)
  then have v: "same_view (c, ?d) (c, ?d')" "my_id ?d' = my_id ?d" for c
    by (simp_all add: same_view_def writer_turn_def wire_of_def)
  show ?thesis
    using assms seeder_peer_view [OF _ v] idle_peer_downloader [of _ _ ?d ?d']
      opened_writer_steps [OF writer_turn_step] reachable_rtranclp [OF writer_turn_step]
    by (simp add: swarm_def plays_role_def)
qed

lemma swarm_run:
  assumes "0 < tf_length tf"
  shows "swarm tf F W x (script_events script) f \<Longrightarrow> Failed \<notin> set script \<Longrightarrow>
    list_all (swarm_event (length (connections f)) x) (script_events script) \<Longrightarrow>
    \<exists>f'. swarm tf F W x [] f'
      \<and> (\<forall>later. Run (\<lambda>f. IsComplete (f_downloader f)) (script @ later) f
           = Run (\<lambda>f. IsComplete (f_downloader f)) later f')"
proof (induction script arbitrary: f)
  case Nil
  then show ?case by auto
next
  case (Cons s script)
  have inc: "\<not> IsComplete (f_downloader f)" "connections f \<noteq> []"
    using Cons.prems(1) reachable_incomplete [OF _ assms] by (auto simp: swarm_def)
  show ?case
  proof (cases s)
    case Interrupted
    then show ?thesis
      using Cons inc by simp
  next
    case (Ready es)
    obtain f1 where "handle_events es f = (None, f1)" "swarm tf F W x (script_events script) f1"
        "length (connections f1) = length (connections f)"
      using swarm_handles [of tf F W x es "script_events script" f] Cons.prems Ready by auto
    then show ?thesis
      using Cons inc Ready by simp
  next
    case Writer_Thread
    then show ?thesis
      using Cons swarm_writer_turn by simp
  qed (use Cons in simp)
qed

text \<open>When nothing is to come any more, the writer needs two steps for each piece.\<close>

lemma swarm_drained:
  assumes "swarm tf F W x [] f" and "shares tf F" and "2 * piece_count tf F + 2 \<le> m"
  shows "\<exists>f'. Run (\<lambda>f. IsComplete (f_downloader f)) (replicate m Writer_Thread) f = (Waiting, f')
    \<and> w_out (file_writer (f_downloader f')) = foldl do_job (ofs_open True) (map (job_of tf F) [0..<piece_count tf F])
    \<and> wire_of (connections f' ! x, f_downloader f') = W"
proof -
  let ?w = "file_writer (f_downloader f)" and ?s = "(connections f ! x, f_downloader f)"
  have w: "opened_writer ?w" and "seeder_peer tf F W [] ?s"
    using assms(1) by (auto simp: swarm_def plays_role_def)
  then have "seeder_streaming tf F W [] ?s"
    by (auto simp: seeder_peer_def)
  then have "serving tf F W [] ?s"
    using seeder.streaming_end by (simp add: seeder_streaming_def)
  note a = serving_end [OF this]
  moreover have "length (w_q ?w) \<le> length (w_added ?w)"
    using w by (simp add: opened_writer_def writer_inv_def)
  ultimately have "thread_work ?w \<le> m"
    using assms(3) by (auto split: writer_phase.split)
  note drained = thread_run_drains [OF w this]
  obtain f' where f': "Run (\<lambda>f. IsComplete (f_downloader f)) (replicate m Writer_Thread) f
        = Run (\<lambda>f. IsComplete (f_downloader f)) [] f'"
      "connections f' = connections f" "file_writer (f_downloader f') = thread_run m ?w"
      "downloader_step\<^sup>*\<^sup>* (f_downloader f) (f_downloader f')"
    using Run_writer_turns by metis
  have "reachable (downloader_init tf) downloader_step (f_downloader f')"
    using reachable_rtranclp [OF f'(4)] assms(1) by (simp add: swarm_def)
  then have "\<not> IsComplete (f_downloader f')"
    using reachable_incomplete assms(2) by (auto simp: shares_def)
  moreover have "wire_of (connections f ! x, f_downloader f') = W"
    using a by (simp add: wire_of_def)
  ultimately show ?thesis
    using f' drained a assms(1) by (auto simp: opened_writer_def swarm_def)
qed

text \<open>The state in which the loop begins.\<close>

lemma swarm_start:
  fixes tf es ep ans pid ps
  defines "f \<equiv> started ep ans (Downloader tf pid ps True)"
  assumes "shares tf F" and "full_bitfield (piece_count tf F) payload" and "length payload < 2 ^ 32 - 5"
    and "x < length (connections f)" and "length h = 68"
    and "\<forall>y<length (connections f). writable_first (turns y es)"
    and "heard (turns x es) = h @ concat (map frame (seeder_messages tf F payload))"
    and "\<forall>y<length (connections f). y \<noteq> x \<longrightarrow> idle_stream (heard (turns y es))"
  shows "swarm tf F (BuildHandshake tf pid @ BuildInterested @ requests_from tf F 0) x es f"
proof -
  let ?d = "Downloader tf pid ps True"
  have d: "f_downloader f = ?d\<lparr>file_writer := writer_start (file_writer ?d)\<rparr>"
    by (simp add: f_def started_simps)
  have c: "\<exists>p t. connections f ! y = Connection p\<lparr>socket := Some t\<rparr> \<and> wire t = []" if "y < length (connections f)" for y
    using started_open nth_mem [OF that] unfolding f_def by blast
  have "seeder_peer tf F (BuildHandshake tf pid @ BuildInterested @ requests_from tf F 0) (turns x es)
      (connections f ! x, f_downloader f)"
  proof -
    obtain p t where "connections f ! x = Connection p\<lparr>socket := Some t\<rparr>" "wire t = []"
      using c assms(5) by blast
    then show ?thesis
      unfolding d seeder_peer_def using assms(2-8)
      by (auto simp: fresh_session_def Connection_def Downloader_def writer_start_def Writer_def wire_of_def)
  qed
  moreover have "idle_peer (turns y es) (connections f ! y, f_downloader f)" if "y < length (connections f)" "y \<noteq> x" for y
    using c [OF that(1)] assms(7,9) that by (auto simp: idle_peer_def Connection_def)
  moreover have "opened_writer (file_writer (f_downloader f))"
    unfolding d using opened_writer_start by (simp add: Downloader_def)
  moreover have "reachable (downloader_init tf) downloader_step (f_downloader f)"
    unfolding f_def using sharesD(4,5) [OF assms(2)] by (intro started_reachable) simp
  ultimately show ?thesis
    using assms(5) by (simp add: swarm_def plays_role_def)
qed

section \<open>Properties\<close>

text \<open>
  C1: one seeder is enough for a torrent with text hashes. The torrent must list the SHA-1 of
  each piece of \<open>F\<close> as the 40 hexadecimal digits that \<open>OnBlockReceived\<close> compares
  with; \<open>Load\<close> never returns such a torrent, so this is about \<open>Downloader\<close> and not
  about \<open>main\<close>. In a run of \<open>Downloader::Start\<close> with up to five peers, one is an
  honest seeder of \<open>F\<close> whose connection stays open; each of the others sends 68 bytes and then
  well-formed messages that are neither an unchoke nor a block, or a beginning of such a stream, and may
  close. All sends are accepted in full, each connection is writable at its first event,
  \<open>epoll_wait\<close> does not fail, and the output file can be opened. Then, with the streams cut into
  reads in any way and mixed, with interruptions and steps of the writer thread anywhere between them,
  and two writer steps for each piece and two more at the end, the loop is still waiting, exactly
  \<open>F\<close> has been written to the output stream and is the file once that is closed, and the
  seeder has been sent the handshake, the interest and one request for each block of each
  piece, in order.
\<close>

theorem seeder_gives_the_file:
  fixes tf ps ep ans pid
  defines "conns \<equiv> connections (started ep ans (Downloader tf pid ps True))"
  assumes "shares tf F" and "full_bitfield (piece_count tf F) payload" and "length payload < 2 ^ 32 - 5"
    and "length h = 68" and "0 \<le> ep" and "x < length conns" and "Failed \<notin> set script"
    and "list_all (swarm_event (length conns) x) (script_events script)"
    and "\<forall>y<length conns. writable_first (turns y (script_events script))"
    and "heard (turns x (script_events script)) = h @ concat (map frame (seeder_messages tf F payload))"
    and "\<forall>y<length conns. y \<noteq> x \<longrightarrow> idle_stream (heard (turns y (script_events script)))"
    and "2 * piece_count tf F + 2 \<le> m"
  shows "\<exists>f. Start ep ans (script @ replicate m Writer_Thread) (Downloader tf pid ps True) = (Waiting, f)
    \<and> ofs_content (w_out (file_writer (f_downloader f))) = F
    \<and> ofs_file (ofs_close (w_out (file_writer (f_downloader f)))) = F
    \<and> wire_of (connections f ! x, f_downloader f) = BuildHandshake tf pid @ BuildInterested
        @ concat (map (piece_requests tf F) [0..<piece_count tf F])"
proof -
  have pos: "0 < tf_length tf"
    using assms(2) by (simp add: shares_def)
  obtain f1 where f1: "swarm tf F (BuildHandshake tf pid @ BuildInterested @ requests_from tf F 0) x [] f1"
      "Run (\<lambda>f. IsComplete (f_downloader f)) (script @ replicate m Writer_Thread)
         (started ep ans (Downloader tf pid ps True))
       = Run (\<lambda>f. IsComplete (f_downloader f)) (replicate m Writer_Thread) f1"
    using swarm_run [OF pos swarm_start [OF assms(2-4) _ assms(5)]] assms(7-12) unfolding conns_def by blast
  show ?thesis
    using swarm_drained [OF f1(1) assms(2,13)] f1(2) all_jobs_content [OF assms(2)] assms(6)
    by (auto simp: Start_Run requests_from_def ofs_close_def)
qed

text \<open>
  Two peers: the first one is the seeder of the two pieces, the other one greets, chokes and
  closes while the seeder is sending.
\<close>

definition hears :: "nat \<Rightarrow> recv_answer \<Rightarrow> event" where
  "hears y a = hello\<lparr>ev_conn := y, ev_in := Some a\<rparr>"

definition swarm_script :: "loop_step list" where
  "swarm_script = [Ready [hears 1 (Some (replicate 68 0 @ frame [CHOKE])), hears 0 (Some (replicate 68 0))],
     Writer_Thread, Interrupted, Ready [hears 1 None, hears 0 (Some two_piece_stream)]]"

lemma hears_simps [simp]:
  "ev_conn (hears y a) = y" "ev_kernel (hears y a) = accept_kernel" "ev_out (hears y a)" "ev_in (hears y a) = Some a"
  by (simp_all add: hears_def hello_def)

theorem seeder_gives_the_file_witness:
  "\<exists>f. Start 3 all_connect (swarm_script @ replicate 6 Writer_Thread)
      (Downloader two_piece_torrent ''me'' [Peer ''g'' 1 [], Peer ''h'' 1 []] True) = (Waiting, f)
    \<and> ofs_content (w_out (file_writer (f_downloader f))) = [1, 2, 3, 4, 5]"
proof -
  let ?conns = "connections (started 3 all_connect
    (Downloader two_piece_torrent ''me'' [Peer ''g'' 1 [], Peer ''h'' 1 []] True))"
  have n: "length ?conns = 2"
    by (simp add: started_def make_connections_def Downloader_def AddConnection_def Connect_def TcpClient_def
        all_connect_def GetSocketFd_def GetSocket_def SetTimeout_def Peer_def upt_rec)
  have ev: "script_events swarm_script = [hears 1 (Some (replicate 68 0 @ frame [CHOKE])), hears 0 (Some (replicate 68 0)),
      hears 1 None, hears 0 (Some two_piece_stream)]"
    by (simp add: swarm_script_def)
  have "two_piece_stream \<noteq> []"
    by (simp add: two_piece_stream_def frame_def)
  then have 1: "list_all (swarm_event (length ?conns) 0) (script_events swarm_script)"
    unfolding n ev by (simp add: swarm_event_def)
  have "idle_message [CHOKE]"
    by (simp add: idle_message_def message_ids)
  then have "idle_stream (replicate 68 0 @ frame [CHOKE])"
    unfolding idle_stream_def by (intro exI [of _ "[]"] exI [of _ "replicate 68 0"] exI [of _ "[[CHOKE]]"]) simp
  then have 2: "\<forall>y<length ?conns. y \<noteq> 0 \<longrightarrow> idle_stream (heard (turns y (script_events swarm_script)))"
    unfolding n ev by (auto simp: less_2_cases_iff)
  have 3: "\<forall>y<length ?conns. writable_first (turns y (script_events swarm_script))"
    unfolding n ev by (auto simp: less_2_cases_iff)
  have 4: "heard (turns 0 (script_events swarm_script))
      = replicate 68 0 @ concat (map frame (seeder_messages two_piece_torrent [1, 2, 3, 4, 5] [192]))"
    unfolding ev two_piece_messages by simp
  have "Failed \<notin> set swarm_script"
    by (simp add: swarm_script_def)
  with seeder_gives_the_file [OF shares_two_pieces, of "[192]" "replicate 68 0" 3 0, OF _ _ _ _ _ _ 1 3 4 2, of 6] n
  show ?thesis
    using two_piece_bitfield by (auto simp: two_piece_count)
qed

end
