(* ===== verification/Verified_Store.thy ===== *)
theory Verified_Store
  imports Seeder_Run
begin

text \<open>
  The download against any peers, as the refinement of a specification. The specification is a
  map from piece indices to verified data, to which a step adds at most one piece. The
  \<open>Downloader\<close> implements it, and after the run the output file is the image of that map:
  the verified pieces at their places and zeros elsewhere.
\<close>

section \<open>The specification\<close>

type_synonym store = "nat \<Rightarrow> buffer option"

text \<open>The size of a piece; the last one may be shorter.\<close>

definition piece_bytes :: "torrent_file \<Rightarrow> nat \<Rightarrow> nat" where
  "piece_bytes tf i =
     (let r = nat (tf_length tf) mod psize tf
      in if Suc i = length (piece_hashes tf) \<and> r \<noteq> 0 then r else psize tf)"

definition verified_data :: "torrent_file \<Rightarrow> nat \<Rightarrow> buffer \<Rightarrow> bool" where
  "verified_data tf i b \<longleftrightarrow>
     i < length (piece_hashes tf) \<and> length b = piece_bytes tf i \<and> Calculate b = piece_hashes tf ! i"

inductive store_step :: "torrent_file \<Rightarrow> store \<Rightarrow> store \<Rightarrow> bool" for tf where
  keep: "store_step tf st st"
| put: "verified_data tf i b \<Longrightarrow> store_step tf st (st(i \<mapsto> b))"

inductive_cases store_stepE: "store_step tf st st'"

text \<open>The store after a list of jobs, and the store of a downloader.\<close>

definition store_of :: "torrent_file \<Rightarrow> job list \<Rightarrow> store" where
  "store_of tf js = foldl (\<lambda>st j. st(nat (job_offset j div piece_length tf) \<mapsto> job_b j)) Map.empty js"

definition stored :: "torrent_file \<Rightarrow> downloader \<Rightarrow> store" where
  "stored tf d = store_of tf (w_added (file_writer d))"

text \<open>The byte at a position of a file, zero behind its end, and of the image of a store.\<close>

definition byte_at :: "buffer \<Rightarrow> nat \<Rightarrow> u8" where
  "byte_at c x = (if x < length c then c ! x else 0)"

definition store_byte :: "torrent_file \<Rightarrow> store \<Rightarrow> nat \<Rightarrow> u8" where
  "store_byte tf st x = (case st (x div psize tf) of None \<Rightarrow> 0 | Some b \<Rightarrow> byte_at b (x mod psize tf))"

text \<open>The torrents considered: piece and file sizes are 64-bit integers and make sense.\<close>

definition sane_torrent :: "torrent_file \<Rightarrow> bool" where
  "sane_torrent tf \<longleftrightarrow> 0 < piece_length tf \<and> piece_length tf < 2 ^ 63 \<and> 0 \<le> tf_length tf
     \<and> length (piece_hashes tf) < 2 ^ 63"

lemma sane_psize:
  assumes "sane_torrent tf"
  shows "0 < psize tf" "int (psize tf) = piece_length tf" "psize tf < 2 ^ 63"
proof -
  show "0 < psize tf" and p: "int (psize tf) = piece_length tf"
    using assms by (simp_all add: sane_torrent_def psize_def)
  have "int (psize tf) < int (2 ^ 63)"
    using assms p by (simp add: sane_torrent_def)
  then show "psize tf < 2 ^ 63"
    by (simp only: of_nat_less_iff)
qed

lemma piece_bytes_bounds:
  assumes "sane_torrent tf"
  shows "0 < piece_bytes tf i" "piece_bytes tf i \<le> psize tf"
  using sane_psize [OF assms] by (auto simp: piece_bytes_def Let_def intro: less_imp_le)

section \<open>The size of the piece in memory\<close>

lemma piece_len_eq:
  assumes "sane_torrent tf"
  shows "piece_len tf i = Inr (int (let r = nat (tf_length tf) mod psize tf
      in if is_last_piece tf i \<and> r \<noteq> 0 then r else psize tf))"
proof -
  have p: "0 < psize tf" "piece_length tf = int (psize tf)" "tf_length tf = int (nat (tf_length tf))"
    using sane_psize [OF assms] assms by (simp_all add: sane_torrent_def)
  have "tf_length tf smod piece_length tf = int (nat (tf_length tf) mod psize tf)"
    using p(1) by (subst p(3), subst p(2)) (simp add: signed_modulo_int_def zmod_int sgn_if)
  then show ?thesis
    using p by (auto simp: piece_len_def c_rem_pos Let_def)
qed

lemma piece_len_positive:
  assumes "sane_torrent tf"
  shows "\<exists>n>0. n \<le> psize tf \<and> piece_len tf i = Inr (int n)"
  unfolding piece_len_eq [OF assms] using sane_psize(1) [OF assms] by (auto simp: Let_def intro: less_imp_le)

lemma is_last_piece_nat:
  assumes "0 \<le> sint i" and "nat (sint i) < length (piece_hashes tf)" and "length (piece_hashes tf) < 2 ^ 63"
  shows "is_last_piece tf i \<longleftrightarrow> Suc (nat (sint i)) = length (piece_hashes tf)"
proof -
  have "1 \<le> size_of (piece_hashes tf)"
    using assms(2,3) by (simp add: word_le_nat_alt unat_size_of)
  then have "unat (size_of (piece_hashes tf) - 1) = length (piece_hashes tf) - 1"
    using assms(3) by (simp add: unat_sub unat_size_of)
  then show ?thesis
    using assms by (simp add: is_last_piece_def word_unat_eq_iff unat_int_to_size_nonneg) arith
qed

lemma piece_len_sane:
  assumes "sane_torrent tf" and "0 \<le> sint i" and "nat (sint i) < length (piece_hashes tf)"
  shows "piece_len tf i = Inr (int (piece_bytes tf (nat (sint i))))"
  using is_last_piece_nat [OF assms(2,3)] assms(1)
  by (simp add: piece_len_eq piece_bytes_def sane_torrent_def)

text \<open>
  Between calls the piece buffer has the size of the current piece. It is empty before the first
  block, and after its contents went to the writer; then the count of received bytes is stale and
  not zero, so that nothing is handed over twice.
\<close>

definition buffer_fits :: "torrent_file \<Rightarrow> downloader \<Rightarrow> bool" where
  "buffer_fits tf d \<longleftrightarrow>
     (piece_buffer d = [] \<and> (current_piece_index d = - 1 \<or> int_to_size (piece_bytes_received d) \<noteq> 0))
     \<or> (piece_buffer d \<noteq> [] \<and> length (piece_buffer d) \<le> psize tf
        \<and> piece_len tf (current_piece_index d) = Inr (int (length (piece_buffer d))))"

lemma init_piece_fits:
  assumes "sane_torrent tf" and "torrent d = tf" and "buffer_fits tf d"
  shows "\<exists>d'. init_piece i d = (None, d') \<and> buffer_fits tf d' \<and> current_piece_index d' = i"
proof -
  obtain n where "0 < n" "n \<le> psize tf" "piece_len tf i = Inr (int n)"
    using piece_len_positive [OF assms(1)] by blast
  then show ?thesis
    using assms by (auto simp: init_piece_def vec_assign_def buffer_fits_def)
qed

lemma buffer_fits_count [simp]: "buffer_fits tf (count_block data d) = buffer_fits tf d"
  by (simp add: buffer_fits_def)

lemma copy_into_length: "off + length bs \<le> length c \<Longrightarrow> length (copy_into c off bs) = length c"
  by (simp add: copy_into_def)

lemma copy_block_fits:
  assumes "sane_torrent tf" and "length data < 2 ^ 63" and "buffer_fits tf d"
    and "copy_block off data d = (None, d')"
  shows "buffer_fits tf d' \<and> current_piece_index d' = current_piece_index d"
proof (cases "d' = d")
  case True
  then show ?thesis using assms by simp
next
  case False
  then have b: "int_to_size off + size_of data \<le> size_of (piece_buffer d)" "data \<noteq> []" "0 \<le> sint off"
      "d' = d\<lparr>piece_buffer := copy_into (piece_buffer d) (nat (sint off)) data,
        piece_bytes_received := piece_bytes_received d + word_of_nat (length data)\<rparr>"
    using assms(4) by (auto simp: copy_block_def split: if_splits)
  have "length (piece_buffer d) < 2 ^ 63"
    using assms(3) sane_psize(3) [OF assms(1)] by (auto simp: buffer_fits_def)
  then have l: "nat (sint off) + length data \<le> length (piece_buffer d)"
    using b(1) unat_offset_plus_size [OF b(3) assms(2)] by (simp add: word_le_nat_alt unat_size_of)
  then have "piece_buffer d \<noteq> []"
    using b(2) by auto
  then show ?thesis
    using assms(3) copy_into_length [OF l] by (auto simp: buffer_fits_def b(4))
qed

text \<open>A call of \<open>verify_piece\<close> that returns hands nothing or one verified piece over.\<close>

definition hands_over :: "torrent_file \<Rightarrow> downloader \<Rightarrow> downloader \<Rightarrow> bool" where
  "hands_over tf d d' \<longleftrightarrow> w_added (file_writer d') = w_added (file_writer d)
     \<or> (\<exists>i b. verified_data tf i b
          \<and> w_added (file_writer d') = w_added (file_writer d) @ [\<lparr>job_b = b, job_offset = int i * piece_length tf\<rparr>])"

lemma verify_piece_hands_over:
  assumes "sane_torrent tf" and "torrent d = tf" and "buffer_fits tf d" and "current_piece_index d = i"
    and "verify_piece i d = (None, d')"
  shows "buffer_fits tf d' \<and> hands_over tf d d'"
proof (cases "d' = d")
  case True
  then show ?thesis using assms(3) by (simp add: hands_over_def)
next
  case False
  let ?k = "unat (int_to_size i)"
  have v: "int_to_size (piece_bytes_received d) = size_of (piece_buffer d)" "?k < length (piece_hashes tf)"
      "Calculate (piece_buffer d) = piece_hashes tf ! ?k"
      "d' = d\<lparr>file_writer := fst (writer_add (file_writer d) (piece_buffer d) (sint i * piece_length tf)), piece_buffer := []\<rparr>"
    using assms(2,5) False by (auto simp: verify_piece_def Let_def writer_add_def size_of_def split: if_splits)
  have h: "length (piece_hashes tf) < 2 ^ 63"
    using assms(1) by (simp add: sane_torrent_def)
  have i: "0 \<le> sint i" "?k = nat (sint i)"
    using int_to_size_small [OF v(2) h] by simp_all
  have "piece_buffer d \<noteq> []"
    using assms(3,4) v(1) i(1) by (auto simp: buffer_fits_def size_of_def)
  then have l: "piece_len tf i = Inr (int (length (piece_buffer d)))" "0 < length (piece_buffer d)"
      "length (piece_buffer d) < 2 ^ 63"
    using assms(3,4) sane_psize(3) [OF assms(1)] by (auto simp: buffer_fits_def)
  then have "verified_data tf (nat (sint i)) (piece_buffer d)"
    using piece_len_sane [OF assms(1) i(1)] v(2,3) i(2) by (simp add: verified_data_def)
  moreover have "int (nat (sint i)) = sint i"
    using i(1) by simp
  ultimately have "hands_over tf d d'"
    unfolding hands_over_def v(4) by (intro disjI2 exI [of _ "nat (sint i)"] exI [of _ "piece_buffer d"]) (simp add: writer_add_def)
  moreover have "int_to_size (piece_bytes_received d) \<noteq> 0"
    using l unat_size_of [of "piece_buffer d"] by (auto simp: v(1))
  ultimately show ?thesis
    by (simp add: buffer_fits_def v(4))
qed

lemma copy_block_faults: "fst (copy_block off data d) = None \<or> undefined_fault (fst (copy_block off data d))"
  by (simp add: copy_block_def)

lemma verify_piece_faults: "fst (verify_piece i d) = None \<or> undefined_fault (fst (verify_piece i d))"
  by (simp add: verify_piece_def Let_def split: prod.split)

lemma OnBlockReceived_hands_over:
  assumes "sane_torrent tf" and "torrent d = tf" and "buffer_fits tf d" and "length data < 2 ^ 63"
    and "\<not> undefined_fault (fst (OnBlockReceived i off data d))"
  shows "buffer_fits tf (snd (OnBlockReceived i off data d)) \<and> hands_over tf d (snd (OnBlockReceived i off data d))"
proof -
  obtain d1 where 1: "init_piece i d = (None, d1)" "buffer_fits tf d1" "current_piece_index d1 = i"
    using init_piece_fits [OF assms(1-3)] by blast
  obtain f2 d2 where 2: "copy_block off data d1 = (f2, d2)" by (cases "copy_block off data d1")
  obtain f3 d3 where 3: "verify_piece i (count_block data d2) = (f3, d3)" by (cases "verify_piece i (count_block data d2)")
  have f2: "f2 = None"
    using assms(5) copy_block_faults [of off data d1] 1(1) 2 by (cases f2) (simp_all add: OnBlockReceived_def)
  moreover have "f3 = None"
    using assms(5) verify_piece_faults [of i "count_block data d2"] 1(1) 2 3 f2 by (auto simp: OnBlockReceived_def)
  ultimately have r: "OnBlockReceived i off data d = (None, d3)" "copy_block off data d1 = (None, d2)"
      "verify_piece i (count_block data d2) = (None, d3)"
    using 1(1) 2 3 by (simp_all add: OnBlockReceived_def)
  have "torrent d2 = tf" "file_writer d2 = file_writer d"
    using init_piece_frame [of i d] copy_block_frame [of off data d1] assms(2) by (simp_all add: 1(1) r(2))
  moreover have "buffer_fits tf (count_block data d2)" "current_piece_index d2 = i"
    using copy_block_fits [OF assms(1,4) 1(2) r(2)] 1(3) by auto
  ultimately show ?thesis
    using verify_piece_hands_over [OF assms(1) _ _ _ r(3)] by (simp add: r(1) hands_over_def)
qed

section \<open>The downloader implements the specification\<close>

definition whole_job :: "torrent_file \<Rightarrow> job \<Rightarrow> bool" where
  "whole_job tf j \<longleftrightarrow> (\<exists>i b. verified_data tf i b \<and> j = \<lparr>job_b = b, job_offset = int i * piece_length tf\<rparr>)"

lemma whole_jobI: "verified_data tf i b \<Longrightarrow> whole_job tf \<lparr>job_b = b, job_offset = int i * piece_length tf\<rparr>"
  unfolding whole_job_def by blast

definition store_inv :: "torrent_file \<Rightarrow> downloader \<Rightarrow> bool" where
  "store_inv tf d \<longleftrightarrow> sane_torrent tf \<and> torrent d = tf \<and> buffer_fits tf d
     \<and> (\<forall>j\<in>set (w_added (file_writer d)). whole_job tf j)"

definition sane_init :: "torrent_file \<Rightarrow> downloader \<Rightarrow> bool" where
  "sane_init tf d \<longleftrightarrow> sane_torrent tf \<and> downloader_init tf d"

lemma store_of_snoc:
  assumes "sane_torrent tf"
  shows "store_of tf (js @ [\<lparr>job_b = b, job_offset = int i * piece_length tf\<rparr>]) = (store_of tf js)(i \<mapsto> b)"
  using assms by (simp add: store_of_def sane_torrent_def)

lemma hands_over_stored:
  assumes "sane_torrent tf" and "hands_over tf d d'"
  shows "store_step tf (stored tf d) (stored tf d')"
  using assms by (auto simp: hands_over_def stored_def store_of_snoc intro: store_step.intros)

lemma downloader_step_hands_over:
  assumes "store_inv tf d" and "downloader_step d d'"
  shows "hands_over tf d d' \<and> buffer_fits tf d' \<and> torrent d' = tf"
  using assms(2)
proof cases
  case (block data i off)
  then show ?thesis
    using assms(1) OnBlockReceived_hands_over [of tf d data i off] OnBlockReceived_frame(1) [of i off data d]
    by (simp add: store_inv_def)
next
  case request
  then show ?thesis
    using assms(1) by (auto simp: store_inv_def hands_over_def buffer_fits_def GetNextPieceToRequest_def Let_def)
next
  case start
  then show ?thesis
    using assms(1) by (simp add: store_inv_def hands_over_def buffer_fits_def writer_start_def)
next
  case (thread w)
  then have "w_added w = w_added (file_writer d)"
    by (auto simp: thread_step.simps split: writer_phase.splits list.splits if_splits)
  then show ?thesis
    using assms(1) thread by (simp add: store_inv_def hands_over_def buffer_fits_def)
qed

interpretation store: simulation "sane_init tf" downloader_step "store_inv tf" "stored tf" "store_step tf" for tf
proof
  fix d
  assume "sane_init tf d"
  then show "store_inv tf d"
    by (auto simp: sane_init_def downloader_init_def store_inv_def Downloader_def Writer_def buffer_fits_def)
next
  fix d d'
  assume "store_inv tf d" "downloader_step d d'"
  from this(1) downloader_step_hands_over [OF this] show "store_inv tf d'"
    by (auto simp: store_inv_def hands_over_def intro: whole_jobI)
next
  fix d d'
  assume "store_inv tf d" "downloader_step d d'"
  from this(1) downloader_step_hands_over [OF this] show "store_step tf (stored tf d) (stored tf d')"
    using hands_over_stored by (auto simp: store_inv_def)
qed

section \<open>The file is the image of the store\<close>

text \<open>What a store has for a piece has the size of the piece.\<close>

definition store_sized :: "torrent_file \<Rightarrow> store \<Rightarrow> bool" where
  "store_sized tf st \<longleftrightarrow> (\<forall>i b. st i = Some b \<longrightarrow> length b = piece_bytes tf i)"

lemma store_step_sized: "store_step tf st st' \<Longrightarrow> store_sized tf st \<Longrightarrow> store_sized tf st'"
  by (auto simp: store_sized_def verified_data_def elim!: store_stepE split: if_splits)

lemma piece_position:
  assumes "0 < (p :: nat)"
  shows "i * p \<le> x \<and> x < i * p + n \<and> n \<le> p \<longleftrightarrow> n \<le> p \<and> x div p = i \<and> x mod p < n"
proof -
  have x: "x = x div p * p + x mod p"
    by simp
  have "x div p = i" if "i * p \<le> x" "x < i * p + n" "n \<le> p"
    using that assms by (intro div_nat_eqI) (simp_all add: mult.commute)
  moreover have "x mod p = x - i * p" if "x div p = i"
    unfolding that [symmetric] by (simp add: minus_div_mult_eq_mod)
  ultimately show ?thesis
    using x by auto
qed

lemma store_byte_put:
  assumes "sane_torrent tf" and "store_sized tf st" and "length b = piece_bytes tf i"
  shows "store_byte tf (st(i \<mapsto> b)) x =
    (if i * psize tf \<le> x \<and> x < i * psize tf + length b then b ! (x - i * psize tf) else store_byte tf st x)"
proof (cases "x div psize tf = i")
  case True
  have "x - i * psize tf = x mod psize tf"
    unfolding True [symmetric] by (simp add: minus_div_mult_eq_mod)
  moreover have "i * psize tf \<le> x \<and> x < i * psize tf + length b \<longleftrightarrow> x mod psize tf < length b"
    using piece_position [OF sane_psize(1) [OF assms(1)], of i x "length b"] piece_bytes_bounds(2) [OF assms(1)]
      True assms(3) by simp
  ultimately show ?thesis
    using True assms(2,3) by (auto simp: store_byte_def byte_at_def store_sized_def split: option.split)
next
  case False
  then have "\<not> (i * psize tf \<le> x \<and> x < i * psize tf + length b)"
    using piece_position [OF sane_psize(1) [OF assms(1)], of i x "length b"] piece_bytes_bounds(2) [OF assms(1)]
      assms(3) by auto
  then show ?thesis
    using False unfolding store_byte_def by auto
qed

lemma byte_at_put:
  "byte_at (put_bytes c p b) x = (if p \<le> x \<and> x < p + length b then b ! (x - p) else byte_at c x)"
proof (cases "b = []")
  case False
  then show ?thesis
    by (auto simp: byte_at_def put_bytes_def nth_append min_def)
qed (auto simp: put_bytes_def)

lemma image_of_jobs:
  assumes "sane_torrent tf"
  shows "\<forall>j\<in>set js. whole_job tf j \<Longrightarrow>
    ofs_good (foldl do_job (ofs_open True) js) \<and> store_sized tf (store_of tf js)
    \<and> (\<forall>x. byte_at (ofs_content (foldl do_job (ofs_open True) js)) x = store_byte tf (store_of tf js) x)"
proof (induction js rule: rev_induct)
  case Nil
  then show ?case
    by (simp add: ofs_open_def store_of_def store_sized_def byte_at_def store_byte_def)
next
  case (snoc j js)
  let ?f = "foldl do_job (ofs_open True) js"
  obtain i b where j: "j = \<lparr>job_b = b, job_offset = int i * piece_length tf\<rparr>" and v: "verified_data tf i b"
    using snoc.prems by (auto simp: whole_job_def)
  have "int i * piece_length tf = int (i * psize tf)"
    using sane_psize(2) [OF assms] by simp
  then have o: "0 \<le> job_offset j" "nat (job_offset j) = i * psize tf"
    unfolding j by (simp_all del: of_nat_mult)
  have f: "ofs_good ?f" "store_sized tf (store_of tf js)"
      "\<forall>x. byte_at (ofs_content ?f) x = store_byte tf (store_of tf js) x"
    using snoc by simp_all
  have "store_sized tf (store_of tf (js @ [j]))"
    unfolding j store_of_snoc [OF assms] using store_step_sized [OF store_step.put [OF v] f(2)] .
  moreover have "store_byte tf (store_of tf (js @ [j])) x
      = (if i * psize tf \<le> x \<and> x < i * psize tf + length b then b ! (x - i * psize tf) else store_byte tf (store_of tf js) x)" for x
    unfolding j store_of_snoc [OF assms] using store_byte_put [OF assms f(2)] v by (simp add: verified_data_def)
  ultimately show ?case
    using do_job_good [OF f(1) o(1)] o(2) f(3) by (simp add: byte_at_put j)
qed

section \<open>Whole runs\<close>

text \<open>What a run of \<open>Start\<close> leaves, when the destructor has let the writer thread finish.\<close>

definition final_content :: "nat \<Rightarrow> farm \<Rightarrow> buffer" where
  "final_content m f = ofs_content (w_out (thread_run m (writer_stop (file_writer (f_downloader f)))))"

lemma Run_store:
  assumes "sane_torrent tf" and "Run chk script (started ep ans (Downloader tf pid ps True)) = (r, f)"
    and "\<forall>flt. r \<noteq> Faulted flt"
  shows "store_inv tf (f_downloader f)" "opened_writer (file_writer (f_downloader f))"
    "(store_step tf)\<^sup>*\<^sup>* Map.empty (stored tf (f_downloader f))"
proof -
  let ?d = "f_downloader (started ep ans (Downloader tf pid ps True))"
  have h: "length (piece_hashes tf) < 2 ^ 63"
    using assms(1) by (simp add: sane_torrent_def)
  have d: "?d = (Downloader tf pid ps True)\<lparr>file_writer := writer_start (Writer True)\<rparr>"
    by (simp add: started_simps Downloader_def)
  have steps: "downloader_step\<^sup>*\<^sup>* ?d (f_downloader f)"
    using Run_steps [OF assms(2,3)] by simp
  have inv: "store_inv tf ?d"
    unfolding d using assms(1) by (simp add: store_inv_def Downloader_def buffer_fits_def writer_start_def Writer_def)
  show "store_inv tf (f_downloader f)"
    by (rule store.inv_rtrancl [OF steps inv])
  have "opened_writer (file_writer ?d)"
    unfolding d by (simp add: opened_writer_start)
  then show "opened_writer (file_writer (f_downloader f))"
    by (rule opened_writer_steps [OF steps])
  have "stored tf ?d = Map.empty"
    unfolding d by (simp add: stored_def store_of_def writer_start_def Writer_def)
  then show "(store_step tf)\<^sup>*\<^sup>* Map.empty (stored tf (f_downloader f))"
    using store.sim_steps [OF steps inv] by simp
qed

lemma final_image:
  assumes "store_inv tf (f_downloader f)" and "opened_writer (file_writer (f_downloader f))"
    and "2 * length (w_q (file_writer (f_downloader f))) + 2 \<le> m"
  shows "byte_at (final_content m f) x = store_byte tf (stored tf (f_downloader f)) x"
  using image_of_jobs [of tf "w_added (file_writer (f_downloader f))"] destroyed_writer [OF assms(2,3)] assms(1)
  by (simp add: store_inv_def final_content_def stored_def)

text \<open>
  The store holds data that are not those of the file but have their size and hash: a peer has
  found a second preimage of a piece under SHA-1.
\<close>

definition sha1_collision :: "torrent_file \<Rightarrow> buffer \<Rightarrow> store \<Rightarrow> bool" where
  "sha1_collision tf F st \<longleftrightarrow> (\<exists>i<piece_count tf F. \<exists>b. st i = Some b \<and> length b = length (piece_at tf F i)
     \<and> b \<noteq> piece_at tf F i \<and> Calculate b = Calculate (piece_at tf F i))"

lemma shares_sane: "shares tf F \<Longrightarrow> sane_torrent tf"
  using sharesD(4,5) [of tf F] by (auto simp: shares_def sane_torrent_def)

lemma piece_bytes_shared:
  assumes "shares tf F" and "i < piece_count tf F"
  shows "piece_bytes tf i = length (piece_at tf F i)"
  using piece_len_sane [OF shares_sane [OF assms(1)], of "word_of_nat i"] piece_len_index [OF assms] sint_index [OF assms]
    assms(2) sharesD(4) [OF assms(1)] by simp

lemma byte_at_piece:
  assumes "0 < psize tf"
  shows "byte_at (piece_at tf F (x div psize tf)) (x mod psize tf) = byte_at F x"
  using assms order_trans [OF div_times_less_eq_dividend [of x "psize tf"], of "length F"]
  by (auto simp: byte_at_def piece_at_def less_diff_conv mod_div_mult_eq)

lemma store_steps_verified:
  "(store_step tf)\<^sup>*\<^sup>* Map.empty st \<Longrightarrow> st i = Some b \<Longrightarrow> verified_data tf i b"
proof (induction arbitrary: i b rule: rtranclp_induct)
  case (step st st')
  from step.hyps(2) show ?case
    using step.IH step.prems by cases (auto split: if_splits)
qed simp

lemma stored_shared:
  assumes "shares tf F" and "\<not> sha1_collision tf F st" and "verified_data tf i b" and "st i = Some b"
  shows "b = piece_at tf F i"
proof -
  have i: "i < piece_count tf F" "length b = length (piece_at tf F i)" "Calculate b = piece_hashes tf ! i"
    using assms(3) sharesD(4) [OF assms(1)] piece_bytes_shared [OF assms(1)] by (simp_all add: verified_data_def)
  moreover have "piece_hashes tf ! i = Calculate (piece_at tf F i)"
    using assms(1) i(1) by (simp add: shares_def)
  ultimately show ?thesis
    using assms(2,4) by (auto simp: sha1_collision_def)
qed

lemma final_image_shared:
  assumes "shares tf F" and "\<not> sha1_collision tf F st" and "(store_step tf)\<^sup>*\<^sup>* Map.empty st"
  shows "store_byte tf st x = (if st (x div psize tf) = None then 0 else byte_at F x)"
  using store_steps_verified [OF assms(3)] stored_shared [OF assms(1,2)] byte_at_piece [OF sharesD(1) [OF assms(1)]]
  by (fastforce simp: store_byte_def split: option.split)

lemma reachable_sane:
  "reachable (downloader_init tf) downloader_step d \<Longrightarrow> sane_torrent tf \<Longrightarrow> reachable (sane_init tf) downloader_step d"
  by (induction rule: reachable.induct) (auto simp: sane_init_def intro: reachable.intros)

section \<open>Properties\<close>

text \<open>
  C6: the downloader implements the verified store. For a torrent with a positive piece length,
  every step of a reachable downloader, be it a block with any arguments, a request, or a step of
  the writer thread, leaves the map from piece indices to the data handed to the writer as it is,
  or sets one index of the torrent to data that have the size of that piece and its hash.
\<close>

theorem downloader_refines_store:
  assumes "sane_torrent tf" and "reachable (downloader_init tf) downloader_step d" and "downloader_step d d'"
  shows "stored tf d' = stored tf d
    \<or> (\<exists>i b. i < length (piece_hashes tf) \<and> length b = piece_bytes tf i \<and> Calculate b = piece_hashes tf ! i
        \<and> stored tf d' = (stored tf d)(i \<mapsto> b))"
  using store.sim_step [OF store.inv_reachable [OF reachable_sane [OF assms(2,1)]] assms(3)]
proof cases
  case (put i b)
  then show ?thesis unfolding verified_data_def by blast
qed simp

lemma two_piece_sane: "sane_torrent two_piece_torrent"
  by (rule shares_sane [OF shares_two_pieces])

lemma two_piece_stored:
  assumes "w_added (file_writer d) = [\<lparr>job_b = [4, 5], job_offset = 3\<rparr>]"
  shows "stored two_piece_torrent d = [1 \<mapsto> [4, 5]]"
  using assms by (simp add: stored_def store_of_def two_piece_torrent_def)

theorem downloader_refines_store_witness:
  "\<exists>d d'. downloader_step d d' \<and> stored two_piece_torrent d = Map.empty
    \<and> stored two_piece_torrent d' = [1 \<mapsto> [4, 5]] \<and> length [4, 5 :: u8] = piece_bytes two_piece_torrent 1"
proof -
  let ?d = "one_peer"
  obtain d' where d': "OnBlockReceived 1 0 [4, 5] ?d = (None, d')"
      "w_added (file_writer d') = [\<lparr>job_b = [4, 5], job_offset = 3\<rparr>]"
    using one_block_received [of ?d] by (auto simp: Downloader_def Writer_def)
  have s: "downloader_step ?d d'"
    using downloader_step.block [of "[4, 5]" 1 0 ?d] d'(1) by simp
  have e: "stored two_piece_torrent ?d = Map.empty" "stored two_piece_torrent d' = [1 \<mapsto> [4, 5]]"
    using two_piece_stored [OF d'(2)] by (simp_all add: stored_def store_of_def Downloader_def Writer_def)
  have "reachable (downloader_init two_piece_torrent) downloader_step ?d"
    by (rule reachable_fresh) (simp add: two_piece_torrent_def)
  from downloader_refines_store [OF two_piece_sane this s] obtain i b where
    "length b = piece_bytes two_piece_torrent i" "[1 \<mapsto> [4, 5 :: u8]] = [i \<mapsto> b]"
    unfolding e by (metis map_upd_nonempty)
  moreover from this(2) have "i = 1" "b = [4, 5]"
    by (metis (no_types) fun_upd_apply option.distinct(1) option.inject)+
  ultimately show ?thesis
    using s e by auto
qed

text \<open>
  C3: the output file is the image of the store. After any run of \<open>Start\<close> with any peers
  that no undefined behaviour ended, when the destructor has let the writer thread finish, every
  byte of the output file is that of the verified data stored for its piece, and zero where
  nothing was stored or the file ends earlier; and the store was built by verified pieces only.
\<close>

theorem file_is_the_store:
  assumes "sane_torrent tf" and "0 \<le> ep" and "Start ep ans script (Downloader tf pid ps True) = (r, f)"
    and "\<forall>flt. r \<noteq> Faulted flt" and "2 * length (w_added (file_writer (f_downloader f))) + 2 \<le> m"
  shows "(store_step tf)\<^sup>*\<^sup>* Map.empty (stored tf (f_downloader f))
    \<and> (\<forall>x. byte_at (final_content m f) x = store_byte tf (stored tf (f_downloader f)) x)"
proof -
  have run: "Run (\<lambda>f. IsComplete (f_downloader f)) script (started ep ans (Downloader tf pid ps True)) = (r, f)"
    using assms(2,3) by (simp add: Start_Run)
  note inv = Run_store [OF assms(1) run assms(4)]
  have "length (w_q (file_writer (f_downloader f))) \<le> length (w_added (file_writer (f_downloader f)))"
    using inv(2) by (simp add: opened_writer_def writer_inv_def)
  then show ?thesis
    using inv(3) final_image [OF inv(1,2)] assms(5) by simp
qed

theorem file_is_the_store_witness:
  "\<exists>r f. Start 3 all_connect [Ready [hello, second_piece]] one_peer = (r, f)
    \<and> byte_at (final_content 4 f) 1 = 0 \<and> byte_at (final_content 4 f) 4 = 5"
proof -
  obtain r f where s: "Start 3 all_connect [Ready [hello, second_piece]] one_peer = (r, f)" "\<forall>flt. r \<noteq> Faulted flt"
      "w_added (file_writer (f_downloader f)) = [\<lparr>job_b = [4, 5], job_offset = 3\<rparr>]"
    using second_piece_run by blast
  have p: "psize two_piece_torrent = 3"
    by (simp add: psize_def two_piece_torrent_def)
  show ?thesis
    using file_is_the_store [OF two_piece_sane _ s(1,2), of 4] s(1) two_piece_stored [OF s(3)]
    by (simp add: s(3) store_byte_def p byte_at_def)
qed

text \<open>
  C2: no wrong byte. When the torrent describes a file, then after any run of
  \<open>Start\<close> with any peers that no undefined behaviour ended, every byte of the output file is
  the byte of that file, or zero because its piece was never stored; unless the store
  holds data that are not those of the file but have the size and hash of one of its pieces, which
  means that a peer has found a second preimage under SHA-1.
\<close>

theorem no_wrong_byte:
  assumes "shares tf F" and "0 \<le> ep" and "Start ep ans script (Downloader tf pid ps True) = (r, f)"
    and "\<forall>flt. r \<noteq> Faulted flt" and "2 * length (w_added (file_writer (f_downloader f))) + 2 \<le> m"
  shows "sha1_collision tf F (stored tf (f_downloader f))
    \<or> (\<forall>x. byte_at (final_content m f) x = (if stored tf (f_downloader f) (x div psize tf) = None then 0 else byte_at F x))"
proof -
  have run: "Run (\<lambda>f. IsComplete (f_downloader f)) script (started ep ans (Downloader tf pid ps True)) = (r, f)"
    using assms(2,3) by (simp add: Start_Run)
  note inv = Run_store [OF shares_sane [OF assms(1)] run assms(4)]
  have "length (w_q (file_writer (f_downloader f))) \<le> length (w_added (file_writer (f_downloader f)))"
    using inv(2) by (simp add: opened_writer_def writer_inv_def)
  then show ?thesis
    using final_image [OF inv(1,2)] final_image_shared [OF assms(1) _ inv(3)] assms(5) by fastforce
qed

lemma two_piece_no_collision: "\<not> sha1_collision two_piece_torrent [1, 2, 3, 4, 5] [1 \<mapsto> [4, 5]]"
  using two_piece_at(2) by (auto simp: sha1_collision_def split: if_splits)

theorem no_wrong_byte_witness:
  "\<exists>r f. Start 3 all_connect [Ready [hello, second_piece]] one_peer = (r, f)
    \<and> byte_at (final_content 4 f) 1 = 0 \<and> byte_at (final_content 4 f) 4 = byte_at [1, 2, 3, 4, 5] 4"
proof -
  obtain r f where s: "Start 3 all_connect [Ready [hello, second_piece]] one_peer = (r, f)" "\<forall>flt. r \<noteq> Faulted flt"
      "w_added (file_writer (f_downloader f)) = [\<lparr>job_b = [4, 5], job_offset = 3\<rparr>]"
    using second_piece_run by blast
  have p: "psize two_piece_torrent = 3"
    by (simp add: psize_def two_piece_torrent_def)
  show ?thesis
    using no_wrong_byte [OF shares_two_pieces _ s(1,2), of 4] s(1) two_piece_stored [OF s(3)] two_piece_no_collision
    by (simp add: s(3) p)
qed

end
