(* ===== verification/Assignment.thy ===== *)
theory Assignment
  imports Farm
begin

text \<open>
  Who works on which piece. The connections take piece indices from one shared counter, so no
  piece is ever given to two connections, nor twice to one. The counter is a 32-bit integer that
  every request moves on, also when no piece is left; the results hold until it may come round again,
  for which there must be as many pieces and messages as the integer has values.
\<close>

section \<open>The counter\<close>

text \<open>\<open>j\<close> is an index that the counter can hand out.\<close>

definition piece_index :: "torrent_file \<Rightarrow> nat \<Rightarrow> bool" where
  "piece_index tf j \<longleftrightarrow> j < length (piece_hashes tf) \<and> j < 2 ^ 31"

lemma sint_index_word: "piece_index tf j \<Longrightarrow> sint (word_of_nat j :: i32) = int j"
  by (simp add: piece_index_def sint_word_of_nat)

lemma word_of_index_inject:
  assumes "piece_index tf i" and "piece_index tf j" and "(word_of_nat i :: i32) = word_of_nat j"
  shows "i = j"
  using sint_index_word [OF assms(1)] sint_index_word [OF assms(2)] unfolding assms(3) by simp

lemma word_of_index_not_none:
  assumes "piece_index tf j"
  shows "(word_of_nat j :: i32) \<noteq> - 1"
proof
  assume e: "(word_of_nat j :: i32) = - 1"
  show False
    using sint_index_word [OF assms] unfolding e by simp
qed

lemma sint_upper_half:
  assumes "2 ^ 31 \<le> m" and "m < 2 ^ 32"
  shows "sint (word_of_nat m :: i32) < 0"
proof -
  have m: "2 ^ 31 \<le> int m" "int m < 2 ^ 32"
    using assms by simp_all
  have "(word_of_nat m :: i32) = word_of_int (int m - 2 ^ 32)"
    by simp
  also have "sint \<dots> = signed_take_bit 31 (int m - 2 ^ 32)"
    by (simp only: signed_of_int) simp
  also have "\<dots> = int m - 2 ^ 32"
    using m by (intro signed_take_bit_int_eq_self) simp_all
  finally show ?thesis
    using m by simp
qed

lemma index_in_range:
  assumes "m < 2 ^ 32" and "n < 2 ^ 63"
  shows "n \<le> unat (int_to_size (word_of_nat m)) \<longleftrightarrow> \<not> (m < n \<and> m < 2 ^ 31)"
proof (cases "m < 2 ^ 31")
  case True
  then have "unat (int_to_size (word_of_nat m)) = m"
    by (rule int_to_size_of_nat)
  then show ?thesis
    using True by auto
next
  case False
  then have "sint (word_of_nat m :: i32) < 0"
    using assms(1) by (intro sint_upper_half) simp_all
  then have "int (unat (int_to_size (word_of_nat m))) = 2 ^ 64 + sint (word_of_nat m :: i32)"
    by (rule unat_int_to_size_neg)
  moreover have "int n < 2 ^ 63"
    using assms(2) by simp
  ultimately have "int n \<le> int (unat (int_to_size (word_of_nat m)))"
    using sint_i32_bounds(1) [of "word_of_nat m"] by simp
  then show ?thesis
    using False by linarith
qed

lemma next_index:
  assumes "next_req_index d = word_of_nat m" and "m < 2 ^ 32" and "length (piece_hashes (torrent d)) < 2 ^ 63"
  shows "GetNextPieceToRequest d = (if piece_index (torrent d) m then word_of_nat m else - 1,
    d\<lparr>next_req_index := word_of_nat (Suc m)\<rparr>)"
proof -
  have "size_of (piece_hashes (torrent d)) \<le> int_to_size (next_req_index d) \<longleftrightarrow> \<not> piece_index (torrent d) m"
    using index_in_range [OF assms(2,3)] assms(1,3) by (simp add: word_le_nat_alt unat_size_of piece_index_def)
  moreover have "next_req_index d + 1 = word_of_nat (Suc m)"
    using assms(1) by (simp add: add.commute)
  ultimately show ?thesis
    by (simp add: GetNextPieceToRequest_def Let_def assms(1))
qed

section \<open>One connection\<close>

text \<open>
  The downloader after \<open>q\<close> messages in which a piece may have been asked for: the counter has
  value \<open>m\<close>.
\<close>

definition counter_at :: "torrent_file \<Rightarrow> nat \<Rightarrow> nat \<Rightarrow> downloader \<Rightarrow> bool" where
  "counter_at tf q m d \<longleftrightarrow>
     torrent d = tf \<and> next_req_index d = word_of_nat m \<and> m \<le> length (piece_hashes tf) + q"

text \<open>The piece is none, the one at the start, or one handed out since the counter was \<open>m0\<close>.\<close>

definition handed_out :: "torrent_file \<Rightarrow> i32 \<Rightarrow> nat \<Rightarrow> nat \<Rightarrow> i32 \<Rightarrow> bool" where
  "handed_out tf p0 m0 m p \<longleftrightarrow>
     p = - 1 \<or> p = p0 \<or> (\<exists>j. p = word_of_nat j \<and> piece_index tf j \<and> m0 \<le> j \<and> j < m)"

lemma handed_out_mono: "handed_out tf p0 m0 m p \<Longrightarrow> m \<le> m' \<Longrightarrow> handed_out tf p0 m0 m' p"
  by (auto simp: handed_out_def)

text \<open>A connection took a piece while the counter went from \<open>m0\<close> to \<open>m\<close>.\<close>

definition piece_taken :: "torrent_file \<Rightarrow> nat \<Rightarrow> nat \<Rightarrow> connection \<Rightarrow> connection \<Rightarrow> bool" where
  "piece_taken tf m0 m c c' \<longleftrightarrow> (\<exists>j. piece_index tf j \<and> m0 \<le> j \<and> j < m
     \<and> c' = c\<lparr>current_piece := word_of_nat j, block_offset := 0\<rparr>)"

lemma piece_takenI:
  "piece_index tf j \<Longrightarrow> m0 \<le> j \<Longrightarrow> j < m \<Longrightarrow> c' = c\<lparr>current_piece := word_of_nat j, block_offset := 0\<rparr> \<Longrightarrow>
   piece_taken tf m0 m c c'"
  unfolding piece_taken_def by blast

lemma piece_taken_later: "piece_taken tf m1 m c c' \<Longrightarrow> m0 \<le> m1 \<Longrightarrow> piece_taken tf m0 m c c'"
  unfolding piece_taken_def using le_trans by blast

text \<open>
  As long as the counter cannot have come round, a connection has been handed what the counter
  passed meanwhile.
\<close>

definition no_wrap :: "torrent_file \<Rightarrow> nat \<Rightarrow> bool" where
  "no_wrap tf q \<longleftrightarrow> length (piece_hashes tf) + q < 2 ^ 32"

lemma no_wrap_less: "no_wrap tf q \<Longrightarrow> r \<le> q \<Longrightarrow> no_wrap tf r"
  by (simp add: no_wrap_def)

definition assigning :: "torrent_file \<Rightarrow> i32 \<Rightarrow> nat \<Rightarrow> nat \<Rightarrow> session \<Rightarrow> bool" where
  "assigning tf p0 m0 q s \<longleftrightarrow> (no_wrap tf q \<longrightarrow>
     (\<exists>m\<ge>m0. counter_at tf q m (snd s) \<and> handed_out tf p0 m0 m (current_piece (fst s))))"

lemma find_piece_counter:
  assumes "no_wrap tf (Suc q)"
  shows "find_piece a c d = (ok, (c', d')) \<Longrightarrow> counter_at tf q m d \<Longrightarrow>
    \<exists>m'\<ge>m. counter_at tf (Suc q) m' d' \<and> (if ok then piece_taken tf m m' c c' else c' = c)"
proof (induction a c d arbitrary: m rule: find_piece.induct)
  case (1 a c d)
  let ?d = "d\<lparr>next_req_index := word_of_nat (Suc m)\<rparr>"
  have t: "torrent d = tf" "next_req_index d = word_of_nat m" "m \<le> length (piece_hashes tf) + q"
    using 1(3) by (simp_all add: counter_at_def)
  have g: "GetNextPieceToRequest d = (if piece_index tf m then word_of_nat m else - 1, ?d)"
    using next_index [of d m] t assms by (simp add: no_wrap_def)
  have passed: "counter_at tf (Suc q) (Suc m) ?d"
    using t by (simp add: counter_at_def)
  show ?case
  proof (cases "piece_index tf m")
    case False
    then show ?thesis
      using 1(2) passed by (auto simp: find_piece.simps [of a c d] g intro!: exI [of _ "Suc m"])
  next
    case True
    then have cont: "counter_at tf q (Suc m) ?d" "(word_of_nat m :: i32) \<noteq> - 1"
      using t word_of_index_not_none by (simp_all add: counter_at_def piece_index_def)
    consider "HasPiece c (word_of_nat m)" | "\<not> HasPiece c (word_of_nat m)" "a + 1 > length (piece_hashes tf)"
      | "\<not> HasPiece c (word_of_nat m)" "\<not> a + 1 > length (piece_hashes tf)"
      by blast
    then show ?thesis
    proof cases
      case 1
      then show ?thesis
        using "1.prems"(1) passed cont(2) True piece_takenI [OF True order.refl lessI refl]
        by (auto simp: find_piece.simps [of a c d] g intro!: exI [of _ "Suc m"])
    next
      case 2
      then show ?thesis
        using "1.prems"(1) passed cont(2) True t(1)
        by (auto simp: find_piece.simps [of a c d] g intro!: exI [of _ "Suc m"])
    next
      case 3
      then have "find_piece (a + 1) c ?d = (ok, (c', d'))"
        using "1.prems"(1) cont(2) True t(1) by (simp add: find_piece.simps [of a c d] g)
      then obtain m' where "Suc m \<le> m'" "counter_at tf (Suc q) m' d'"
          "if ok then piece_taken tf (Suc m) m' c c' else c' = c"
        using "1.IH" [of "word_of_nat m" ?d "Suc m"] 3 cont True t(1) g by auto
      then show ?thesis
        using piece_taken_later [of tf "Suc m" m' c c' m] by (intro exI [of _ m']) auto
    qed
  qed
qed

lemma request_block_piece:
  "request_block k (c, d) = (e, (c', d')) \<Longrightarrow> d' = d \<and> (current_piece c' = current_piece c \<or> current_piece c' = - 1)"
  by (auto simp: request_block_def finish_piece_def Let_def conn_send_def act_then_def
      split: sum.splits option.splits if_splits)

lemma RequestNextBlock_assigning:
  assumes "assigning tf p0 m0 q s" and "RequestNextBlock k s = (e, t)"
  shows "assigning tf p0 m0 (Suc q) t"
proof (cases "no_wrap tf (Suc q)")
  case False
  then show ?thesis by (simp add: assigning_def)
next
  case True
  obtain c d c' d' where s: "s = (c, d)" and t: "t = (c', d')" by (cases s; cases t)
  obtain m where m: "m0 \<le> m" "counter_at tf q m d" "handed_out tf p0 m0 m (current_piece c)"
    using assms(1) no_wrap_less [OF True, of q] by (auto simp: assigning_def s)
  have stay: ?thesis if "d' = d" "current_piece c' = current_piece c \<or> current_piece c' = - 1"
    using m that by (auto simp: assigning_def t counter_at_def handed_out_def)
  consider "choked c" | "\<not> choked c" "current_piece c \<noteq> - 1" | "\<not> choked c" "current_piece c = - 1"
    by blast
  then show ?thesis
  proof cases
    case 1
    then show ?thesis
      using assms(2) stay by (simp add: RequestNextBlock_def s t)
  next
    case 2
    then show ?thesis
      using assms(2) stay request_block_piece [of k c d e c' d'] by (simp add: RequestNextBlock_def s t)
  next
    case 3
    obtain ok c1 d1 where u: "find_piece 0 c d = (ok, (c1, d1))" by (cases "find_piece 0 c d")
    obtain m' where m': "m \<le> m'" "counter_at tf (Suc q) m' d1"
        "if ok then piece_taken tf m m' c c1 else c1 = c"
      using find_piece_counter [OF True u m(2)] by blast
    have "d' = d1 \<and> (current_piece c' = current_piece c1 \<or> current_piece c' = - 1)"
      using assms(2) 3 u request_block_piece [of k c1 d1 e c' d'] by (cases ok) (simp_all add: RequestNextBlock_def s t)
    moreover have "handed_out tf p0 m0 m' (current_piece c1)"
      using m' m(1) 3(2) by (cases ok) (auto simp: piece_taken_def handed_out_def)
    ultimately have "d' = d1" "handed_out tf p0 m0 m' (current_piece c')"
      by (auto simp: handed_out_def)
    then show ?thesis
      using m'(2) le_trans [OF m(1) m'(1)] unfolding assigning_def t by auto
  qed
qed

lemma assigning_cong:
  "assigning tf p0 m0 q s \<Longrightarrow> torrent (snd t) = torrent (snd s) \<Longrightarrow> next_req_index (snd t) = next_req_index (snd s) \<Longrightarrow>
   current_piece (fst t) = current_piece (fst s) \<Longrightarrow> q \<le> r \<Longrightarrow> assigning tf p0 m0 r t"
  by (fastforce simp: assigning_def counter_at_def no_wrap_def)

lemma handle_message_assigning:
  assumes "assigning tf p0 m0 q s" and "handle_message k mid payload s = (e, t)"
  shows "assigning tf p0 m0 (Suc q) t"
proof -
  obtain c d where s: "s = (c, d)" by (cases s)
  have same: "assigning tf p0 m0 (Suc q) u"
    if "torrent (snd u) = torrent d" "next_req_index (snd u) = next_req_index d" "current_piece (fst u) = current_piece c" for u
    using assigning_cong [OF assms(1), of u "Suc q"] that by (simp add: s)
  have ask: "assigning tf p0 m0 (Suc q) t'"
    if "RequestNextBlock k u = (e', t')" "torrent (snd u) = torrent d" "next_req_index (snd u) = next_req_index d"
      "current_piece (fst u) = current_piece c" for u e' t'
    using RequestNextBlock_assigning [OF assigning_cong [OF assms(1), of u q] that(1)] that by (simp add: s)
  have b: "assigning tf p0 m0 (Suc q) t'"
    if o: "OnBlockReceived i off data d = (f, d')"
      and r: "f = None \<and> RequestNextBlock k (c, d') = (e', t') \<or> t' = (c, d')"
    for i off data f d' e' t'
  proof -
    have "torrent d' = torrent d" "next_req_index d' = next_req_index d"
      using OnBlockReceived_frame [of i off data d] by (simp_all add: o)
    then show ?thesis
      using r ask [of "(c, d')" e' t'] same [of "(c, d')"] by fastforce
  qed
  show ?thesis
    using assms(2) ask [of "(c\<lparr>choked := False\<rparr>, d)"]
    by (auto simp: handle_message_def s split: if_splits sum.splits prod.splits option.splits intro: same b)
qed

interpretation assignment: counted_invariant k "assigning tf p0 m0" "assigning tf p0 m0" for k tf p0 m0
proof
  show "assigning tf p0 m0 n (set_buf b s)" if "assigning tf p0 m0 n s" for n s b
    using assigning_cong [OF that] by (simp add: set_buf_def)
  show "if e = None then assigning tf p0 m0 n t else assigning tf p0 m0 n t" if "assigning tf p0 m0 n (c, d)"
    and "conn_send k BuildInterested (c\<lparr>handshake_done := True, c_state := DOWNLOADING\<rparr>, d) = (e, t)" for n c d e t
    using that(2) by (auto simp: conn_send_def split: option.splits sum.splits intro: assigning_cong [OF that(1)])
  show "if e = None then assigning tf p0 m0 (Suc n) t else assigning tf p0 m0 (Suc n) t"
    if "assigning tf p0 m0 n s" "handle_message k mid payload s = (e, t)" for n s mid payload e t
    using handle_message_assigning [OF that] by simp
qed

section \<open>All connections\<close>

text \<open>What one event does to the connection it names.\<close>

lemma OnReadyWrite_assignment:
  "current_piece (fst (OnReadyWrite k s)) = current_piece (fst s)" "buf (OnReadyWrite k s) = buf s"
  by (auto simp: OnReadyWrite_def split: prod.split option.split sum.split)

text \<open>
  The complete messages that a read finds in the receive buffer, those that an event brings, and
  those of a whole run.
\<close>

definition read_messages :: "recv_answer \<Rightarrow> session \<Rightarrow> nat" where
  "read_messages a s =
     (case a of Some b \<Rightarrow> if socket (fst s) = None then 0 else messages_due (set_buf (buf s @ b) s) | None \<Rightarrow> 0)"

definition event_messages :: "event \<Rightarrow> session \<Rightarrow> nat" where
  "event_messages e s =
     (case ev_in e of
        Some a \<Rightarrow> read_messages a (if ev_out e then OnReadyWrite (ev_kernel e) s else s)
      | None \<Rightarrow> 0)"

definition messages_at :: "farm \<Rightarrow> event \<Rightarrow> nat" where
  "messages_at f e =
     (if ev_conn e < length (connections f) then event_messages e (connections f ! ev_conn e, f_downloader f) else 0)"

definition run_messages :: "(farm \<Rightarrow> bool) \<Rightarrow> loop_step list \<Rightarrow> farm \<Rightarrow> nat" where
  "run_messages = run_cost messages_at"

lemma OnReadyRead_assigning:
  assumes "OnReadyRead k a s = (None, t)" and "assigning tf p0 m0 q s"
  shows "\<exists>q'\<le>q + read_messages a s. assigning tf p0 m0 q' t"
  using assms(1)
proof (cases rule: OnReadyRead_cases)
  case ignored
  then show ?thesis
    using assms(2) by (intro exI [of _ q]) simp
next
  case closed
  then show ?thesis
    using assigning_cong [OF assms(2), of t q] by (intro exI [of _ q]) simp
next
  case (digested b e u)
  obtain q' where "q' \<le> q + messages_due (set_buf (buf s @ b) s)" "assigning tf p0 m0 q' u"
    using assignment.ProcessBuffer_counts [OF assignment.counted_buf [OF assms(2)] digested(3,4)] by (auto split: if_splits)
  moreover have "snd t = snd u" "current_piece (fst t) = current_piece (fst u)"
    using digested(5) by auto
  ultimately show ?thesis
    using digested(1,6) assigning_cong [of tf p0 m0 q' u t q'] by (intro exI [of _ q']) (auto simp: read_messages_def)
qed

lemma conn_event_assigning:
  assumes "conn_event e s = (None, t)" and "assigning tf p0 m0 q s"
  shows "\<exists>q'\<le>q + event_messages e s. assigning tf p0 m0 q' t"
proof -
  let ?s = "if ev_out e then OnReadyWrite (ev_kernel e) s else s"
  have s: "assigning tf p0 m0 q ?s" "buf ?s = buf s"
    using assigning_cong [OF assms(2), of "OnReadyWrite (ev_kernel e) s" q] assms(2)
    by (simp_all add: OnReadyWrite_assignment OnReadyWrite_downloader)
  show ?thesis
  proof (cases "ev_in e")
    case None
    then show ?thesis
      using assms(1) s by (intro exI [of _ q]) (auto simp: conn_event_def)
  next
    case (Some a)
    then have "OnReadyRead (ev_kernel e) a ?s = (None, t)"
      using assms(1) by (simp add: conn_event_def Let_def)
    then show ?thesis
      using OnReadyRead_assigning [OF _ s(1)] Some by (auto simp: event_messages_def)
  qed
qed

text \<open>
  The pieces of all connections: each is none or was handed out, and no two have the same. The
  run started with the pieces \<open>ps\<close> and the counter at \<open>m0\<close>; \<open>n\<close> messages have come in.
\<close>

definition pieces_apart :: "torrent_file \<Rightarrow> i32 list \<Rightarrow> nat \<Rightarrow> nat \<Rightarrow> i32 list \<Rightarrow> bool" where
  "pieces_apart tf ps m0 m cs \<longleftrightarrow> length cs = length ps
     \<and> (\<forall>i<length ps. handed_out tf (ps ! i) m0 m (cs ! i) \<and> handed_out tf (- 1) 0 m (cs ! i))
     \<and> (\<forall>i<length ps. \<forall>j<length ps. i \<noteq> j \<longrightarrow> cs ! i = cs ! j \<longrightarrow> cs ! i = - 1)"

lemma pieces_apart_update:
  assumes "pieces_apart tf ps m0 m cs" and "handed_out tf (cs ! i) m m' p" and "m0 \<le> m" and "m \<le> m'" and "i < length ps"
  shows "pieces_apart tf ps m0 m' (cs[i := p])"
proof -
  have cs: "length cs = length ps" "handed_out tf (ps ! x) m0 m (cs ! x)" "handed_out tf (- 1) 0 m (cs ! x)"
      "x \<noteq> y \<Longrightarrow> cs ! x = cs ! y \<Longrightarrow> cs ! x = - 1" if "x < length ps" "y < length ps" for x y
    using assms(1) that by (auto simp: pieces_apart_def)
  have p: "handed_out tf (ps ! i) m0 m' p" "handed_out tf (- 1) 0 m' p"
    using assms(2-4) cs(2,3) [OF assms(5,5)] by (fastforce simp: handed_out_def)+
  have apart: "p = - 1" if x: "x < length ps" "x \<noteq> i" "cs ! x = p" for x
  proof (rule ccontr)
    assume "p \<noteq> - 1"
    then have "p \<noteq> cs ! i"
      using cs(4) [OF x(1) assms(5)] x(2,3) by auto
    then obtain j where j: "p = word_of_nat j" "piece_index tf j" "m \<le> j"
      using assms(2) \<open>p \<noteq> - 1\<close> by (auto simp: handed_out_def)
    obtain j' where "p = word_of_nat j'" "piece_index tf j'" "j' < m"
      using cs(3) [OF x(1,1)] \<open>p \<noteq> - 1\<close> x(3) by (auto simp: handed_out_def)
    then show False
      using word_of_index_inject [OF j(2)] j by fastforce
  qed
  show ?thesis
    unfolding pieces_apart_def
    using cs p apart handed_out_mono [OF _ assms(4)] assms(5) by (auto simp: nth_list_update)
qed

text \<open>The farm while the counter cannot have come round.\<close>

abbreviation pieces :: "farm \<Rightarrow> i32 list" where
  "pieces f \<equiv> map current_piece (connections f)"

definition farm_apart :: "torrent_file \<Rightarrow> i32 list \<Rightarrow> nat \<Rightarrow> nat \<Rightarrow> farm \<Rightarrow> bool" where
  "farm_apart tf ps m0 n f \<longleftrightarrow> (no_wrap tf n \<longrightarrow>
     (\<exists>q m. q \<le> n \<and> m0 \<le> m \<and> counter_at tf q m (f_downloader f) \<and> pieces_apart tf ps m0 m (pieces f)))"

lemma handle_event_apart:
  assumes "farm_apart tf ps m0 n f" and "handle_event e f = (None, f')"
  shows "farm_apart tf ps m0 (n + messages_at f e) f'"
  unfolding farm_apart_def
proof
  assume nw: "no_wrap tf (n + messages_at f e)"
  let ?i = "ev_conn e" and ?d = "f_downloader f"
  let ?c = "connections f ! ?i"
  obtain q m where a: "q \<le> n" "m0 \<le> m" "counter_at tf q m ?d" "pieces_apart tf ps m0 m (pieces f)"
    using assms(1) no_wrap_less [OF nw, of n] by (auto simp: farm_apart_def)
  obtain t where i: "?i < length (connections f)" and t: "conn_event e (?c, ?d) = (None, t)"
      and f': "f' = f\<lparr>connections := (connections f)[?i := fst t], f_downloader := snd t\<rparr>"
    using assms(2) by (auto simp: handle_event_def split: if_splits prod.splits)
  have l: "length (connections f) = length ps"
    using a(4) by (simp add: pieces_apart_def)
  have "assigning tf (current_piece ?c) m q (?c, ?d)"
    using a(3) by (auto simp: assigning_def handed_out_def)
  from conn_event_assigning [OF t this] obtain q' where
      q': "q' \<le> q + event_messages e (?c, ?d)" "assigning tf (current_piece ?c) m q' t"
    by auto
  have b: "q' \<le> n + messages_at f e"
    using q'(1) a(1) i by (simp add: messages_at_def)
  then have "no_wrap tf q'"
    using no_wrap_less [OF nw, of q'] by simp
  then obtain m' where m': "m \<le> m'" "counter_at tf q' m' (snd t)" "handed_out tf (current_piece ?c) m m' (current_piece (fst t))"
    using q'(2) by (auto simp: assigning_def)
  have "pieces_apart tf ps m0 m' ((pieces f)[?i := current_piece (fst t)])"
    using pieces_apart_update [OF a(4) _ a(2) m'(1), of ?i] m'(3) i l by simp
  then show "\<exists>q m. q \<le> n + messages_at f e \<and> m0 \<le> m \<and> counter_at tf q m (f_downloader f')
      \<and> pieces_apart tf ps m0 m (pieces f')"
    using b m' a(2) by (intro exI [of _ q'] exI [of _ m']) (simp add: f' map_update)
qed

interpretation run_apart: run_invariant "farm_apart tf ps m0" any_event messages_at for tf ps m0
proof
  show "farm_apart tf ps m0 (n + messages_at f e) f'" if "farm_apart tf ps m0 n f" "handle_event e f = (None, f')" for n f e f'
    by (rule handle_event_apart [OF that])
  show "farm_apart tf ps m0 n (writer_turn f)" if "farm_apart tf ps m0 n f" for n f
    using that by (simp add: farm_apart_def counter_at_def writer_turn_def)
  show "farm_apart tf ps m0 m f" if "farm_apart tf ps m0 n f" "n \<le> m" for n m f
    unfolding farm_apart_def
  proof
    assume "no_wrap tf m"
    then show "\<exists>q k. q \<le> m \<and> m0 \<le> k \<and> counter_at tf q k (f_downloader f) \<and> pieces_apart tf ps m0 k (pieces f)"
      using that no_wrap_less [of tf m n] unfolding farm_apart_def by (meson le_trans)
  qed
qed

text \<open>In the beginning no connection has a piece.\<close>

definition fresh_connection :: "connection \<Rightarrow> bool" where
  "fresh_connection c \<longleftrightarrow> current_piece c = - 1 \<and> recv_buffer c = [] \<and> c_state c = CONNECTING
     \<and> (\<forall>t. socket c = Some t \<longrightarrow> wire t = [])"

lemma started_fresh: "\<forall>c\<in>set (connections (started ep ans d)). fresh_connection c"
  by (auto simp: fresh_connection_def Connection_def dest!: started_open)

lemma started_apart:
  assumes "d = Downloader tf pid ps opened"
  shows "farm_apart tf (pieces (started ep ans d)) 0 0 (started ep ans d)"
proof -
  let ?f = "started ep ans d"
  have p: "pieces ?f ! i = - 1" if "i < length (connections ?f)" for i
    using that started_fresh [of ep ans d] by (simp add: fresh_connection_def)
  have "counter_at tf 0 0 (f_downloader ?f)"
    by (simp add: counter_at_def started_simps assms Downloader_def)
  moreover have "pieces_apart tf (pieces ?f) 0 0 (pieces ?f)"
    using p by (auto simp: pieces_apart_def handed_out_def)
  ultimately show ?thesis
    unfolding farm_apart_def by blast
qed

lemma apart_later:
  assumes "pieces_apart tf ps m0 m cs" and "pieces_apart tf cs m m' cs'" and "i < length ps" and "j < length ps"
    and "cs ! i \<noteq> - 1" and "cs' ! j = cs ! i"
  shows "j = i"
proof -
  have cs: "length cs = length ps" "handed_out tf (- 1) 0 m (cs ! i)"
      "i \<noteq> j \<Longrightarrow> cs ! i = cs ! j \<Longrightarrow> cs ! i = - 1" "handed_out tf (cs ! j) m m' (cs' ! j)"
    using assms(1-4) unfolding pieces_apart_def by metis+
  obtain x where x: "cs ! i = word_of_nat x" "piece_index tf x" "x < m"
    using cs(2) assms(5) unfolding handed_out_def by blast
  have "cs' ! j = cs ! j"
  proof (rule ccontr)
    assume "cs' ! j \<noteq> cs ! j"
    then obtain y where y: "cs' ! j = word_of_nat y" "piece_index tf y" "m \<le> y"
      using cs(4) assms(5,6) unfolding handed_out_def by metis
    have "x = y"
      using x(1) y(1) assms(6) by (intro word_of_index_inject [OF x(2) y(2)]) simp
    then show False
      using x(3) y(3) by simp
  qed
  then show ?thesis
    using cs(3) assms(5,6) by auto
qed

section \<open>Properties\<close>

text \<open>
  C13: a piece belongs to one connection for good. In a run of \<open>Start\<close> with any number
  of peers sending anything, which no undefined behaviour ended, as long as the pieces of the torrent
  and the complete messages received are together fewer than \<open>2 ^ 32\<close>, so that the 32-bit
  counter cannot have come round, the piece a connection works on is a piece of the torrent, and at that time or any later one no
  other connection works on it. So no block is requested from two peers, and the piece of a peer
  that falls silent is never given to another.
\<close>

theorem piece_has_one_owner:
  assumes "0 \<le> ep" and "Start ep ans script (Downloader tf pid ps opened) = (Waiting, f)"
    and "Run chk later f = (r, f')" and "\<forall>flt. r \<noteq> Faulted flt"
    and "length (piece_hashes tf)
      + run_messages (\<lambda>f. IsComplete (f_downloader f)) script (started ep ans (Downloader tf pid ps opened))
      + run_messages chk later f < 2 ^ 32"
    and "i < length (connections f)" and "j < length (connections f)"
    and "current_piece (connections f ! i) = p" and "p \<noteq> - 1" and "current_piece (connections f' ! j) = p"
  shows "j = i \<and> 0 \<le> sint p \<and> nat (sint p) < length (piece_hashes tf)"
proof -
  let ?f0 = "started ep ans (Downloader tf pid ps opened)"
  let ?n = "run_cost messages_at (\<lambda>f. IsComplete (f_downloader f)) script ?f0" and ?n' = "run_cost messages_at chk later f"
  have nw: "no_wrap tf (?n + ?n')"
    using assms(5) by (simp add: no_wrap_def run_messages_def)
  have "Run (\<lambda>f. IsComplete (f_downloader f)) script ?f0 = (Waiting, f)"
    using assms(1,2) by (simp add: Start_Run)
  from run_apart.Run_holds [OF this _ list_all_any started_apart [OF refl]] obtain q m where
      a: "q \<le> ?n" "counter_at tf q m (f_downloader f)" "pieces_apart tf (pieces ?f0) 0 m (pieces f)"
    using no_wrap_less [OF nw, of ?n] by (auto simp: farm_apart_def)
  have l: "length (connections f) = length (connections ?f0)"
    using a(3) by (simp add: pieces_apart_def)
  have "pieces_apart tf (pieces f) m m (pieces f)"
    using a(3) l by (simp add: pieces_apart_def) (simp add: handed_out_def)
  then have "farm_apart tf (pieces f) m ?n f"
    using a(1,2) by (auto simp: farm_apart_def)
  from run_apart.Run_holds [OF assms(3,4) list_all_any this] obtain m' where
      b: "pieces_apart tf (pieces f) m m' (pieces f')"
    using nw by (auto simp: farm_apart_def)
  have l': "length (connections f') = length (connections f)"
    using b by (simp add: pieces_apart_def)
  have "j = i"
    using apart_later [OF a(3) b, of i j] assms(6-10) l l' by simp
  moreover have "handed_out tf (- 1) 0 m (pieces f ! i)"
    using a(3) assms(6) l by (simp add: pieces_apart_def)
  then obtain x where "p = word_of_nat x" "piece_index tf x"
    using assms(6,8,9) by (auto simp: handed_out_def)
  then have "sint p = int x" "x < length (piece_hashes tf)"
    using sint_index_word by (simp_all add: piece_index_def)
  ultimately show ?thesis
    by simp
qed

text \<open>Two connections, of which the first is given the first piece of two and asks for its first block.\<close>

definition large_pieces :: torrent_file where
  "large_pieces = two_piece_torrent\<lparr>piece_length := 40000\<rparr>"

definition offers_all :: event where
  "offers_all = hello\<lparr>ev_in := Some (Some (replicate 68 0 @ frame [BITFIELD, 192] @ frame [UNCHOKE]))\<rparr>"

abbreviation two_peers :: downloader where
  "two_peers \<equiv> Downloader large_pieces ''me'' [Peer ''g'' 1 [], Peer ''h'' 1 []] True"

lemma unchoke_takes_piece:
  assumes "socket c = Some t" and "current_piece c = - 1" and "peer_pieces c = [True, True]"
    and "torrent d = large_pieces" and "next_req_index d = 0"
  shows "\<exists>c' d'. handle_message accept_kernel UNCHOKE [] (c, d) = (None, (c', d')) \<and> current_piece c' = 0"
proof -
  let ?c = "c\<lparr>choked := False, current_piece := 0, block_offset := 0\<rparr>" and ?d = "d\<lparr>next_req_index := 1\<rparr>"
  have n: "length (piece_hashes (torrent d)) = 2"
    unfolding assms(4) by (simp add: large_pieces_def two_piece_torrent_def)
  have "first_piece (c\<lparr>choked := False\<rparr>) 0 2 = Some 0"
    by (simp add: first_piece_def has_piece_def upt_rec assms(3))
  then have r: "RequestNextBlock accept_kernel (c\<lparr>choked := False\<rparr>, d) = request_block accept_kernel (?c, ?d)"
    using RequestNextBlock_first [of "c\<lparr>choked := False\<rparr>" d 0 2 accept_kernel] assms n by simp
  have "piece_len (torrent ?d) 0 = Inr (int 40000)"
    using assms(4) by (simp add: piece_len_def is_last_piece_def large_pieces_def two_piece_torrent_def int_to_size_def size_of_def)
  then have "\<exists>c'. request_block accept_kernel (?c, ?d) = (None, (c', ?d)) \<and> current_piece c' = 0"
    using request_block_next [of accept_kernel ?c t 0 ?d 40000] assms(1) by simp
  then show ?thesis
    using r by (auto simp: handle_message_def)
qed

lemma offer_read:
  assumes "socket c = Some t" and "c_state c = HANDSHAKING" and "recv_buffer c = []" and "current_piece c = - 1"
    and "peer_pieces c = []" and "torrent d = large_pieces" and "next_req_index d = 0"
  shows "\<exists>c' d'. OnReadyRead accept_kernel (Some (replicate 68 0 @ frame [BITFIELD, 192] @ frame [UNCHOKE])) (c, d)
    = (None, (c', d')) \<and> current_piece c' = 0"
proof -
  let ?h = "replicate 68 0 :: buffer" and ?m = "frame [BITFIELD, 192] @ frame [UNCHOKE]"
  let ?u = "c\<lparr>handshake_done := True, c_state := DOWNLOADING, socket := Some (t\<lparr>wire := wire t @ BuildInterested\<rparr>)\<rparr>"
  let ?v = "?u\<lparr>peer_pieces := [True, True]\<rparr>"
  have e: "set_buf ?m (?u, d) = (c\<lparr>handshake_done := True, c_state := DOWNLOADING, recv_buffer := ?m,
      socket := Some (t\<lparr>wire := wire t @ BuildInterested\<rparr>)\<rparr>, d)"
    by simp
  have h: "ProcessBuffer accept_kernel (c\<lparr>recv_buffer := ?h @ ?m\<rparr>, d) = ProcessBuffer accept_kernel (set_buf ?m (?u, d))"
    unfolding e using ProcessBuffer_handshake [of "(c\<lparr>recv_buffer := ?h @ ?m\<rparr>, d)" accept_kernel] assms(1,2)
    by (simp add: conn_send_def TcpSend_accepts_all)
  have n: "length (piece_hashes (torrent d)) = 2"
    unfolding assms(6) by (simp add: large_pieces_def two_piece_torrent_def)
  have "bit (192 :: u8) 7" "bit (192 :: u8) 6"
    by (simp_all add: bit_iff_odd_drop_bit)
  then have "length (apply_bitfield 2 [192] []) = 2" "apply_bitfield 2 [192] [] ! 0" "apply_bitfield 2 [192] [] ! 1"
    using apply_bitfield_nth [of 0 2 "[192]" "[]"] apply_bitfield_nth [of 1 2 "[192]" "[]"] by simp_all
  then have "apply_bitfield 2 [192] [] = [True, True]"
    by (auto simp: list_eq_iff_nth_eq less_2_cases_iff)
  then have b: "handle_message accept_kernel BITFIELD [192] (set_buf (frame [UNCHOKE]) (?u, d))
      = (None, set_buf (frame [UNCHOKE]) (?v, d))"
    using assms(5) n by (simp add: handle_message_def message_ids)
  obtain c' d' where u: "handle_message accept_kernel UNCHOKE [] (set_buf [] (?v, d)) = (None, (c', d'))" "current_piece c' = 0"
    using unchoke_takes_piece [of "?v\<lparr>recv_buffer := []\<rparr>" _ d] assms(4,6,7) by auto
  have "recv_buffer c' = []"
    using handle_message_buf [OF u(1)] by simp
  then have "ProcessBuffer accept_kernel (set_buf ?m (?u, d)) = (None, (c', d'))"
    using ProcessBuffer_frame [of "(?u, d)" "[BITFIELD, 192]" accept_kernel "frame [UNCHOKE]"] b u(1)
      ProcessBuffer_frame [of "(?v, d)" "[UNCHOKE]" accept_kernel "[]"] ProcessBuffer_waiting [of "(c', d')" accept_kernel]
    by (simp add: waiting_def)
  then show ?thesis
    using h OnReadyRead_Some [of "(c, d)" "?h @ ?m" accept_kernel] assms(1,3) u(2) by (simp add: close_on_throw_def)
qed

lemma two_peers_run:
  "\<exists>f. Start 3 all_connect [Ready [offers_all]] two_peers = (Waiting, f) \<and> length (connections f) = 2
    \<and> current_piece (connections f ! 0) = 0"
proof -
  let ?f = "started 3 all_connect two_peers"
  let ?t = "\<lambda>h n. \<lparr>sock = n, t_host = h, t_port = 1, rcv_timeout = Some 2, wire = []\<rparr>"
  let ?c = "Connection (Peer ''g'' 1 [])" and ?c2 = "Connection (Peer ''h'' 1 [])\<lparr>socket := Some (?t ''h'' 11)\<rparr>"
  let ?t' = "(?t ''g'' 10)\<lparr>wire := BuildHandshake large_pieces ''me''\<rparr>"
  let ?c1 = "?c\<lparr>socket := Some ?t', c_state := HANDSHAKING\<rparr>"
  have cs: "connections ?f = [?c\<lparr>socket := Some (?t ''g'' 10)\<rparr>, ?c2]"
    by (simp add: started_def make_connections_def Downloader_def AddConnection_def Connect_def TcpClient_def
        all_connect_def GetSocketFd_def GetSocket_def SetTimeout_def Connection_def Peer_def upt_rec)
  have d: "torrent (f_downloader ?f) = large_pieces" "my_id (f_downloader ?f) = ''me''" "next_req_index (f_downloader ?f) = 0"
    by (simp_all add: started_simps Downloader_def)
  obtain c' d' where r: "OnReadyRead accept_kernel (Some (replicate 68 0 @ frame [BITFIELD, 192] @ frame [UNCHOKE]))
      (?c1, f_downloader ?f) = (None, (c', d'))" "current_piece c' = 0"
    using offer_read [of ?c1 ?t' "f_downloader ?f"] d by (auto simp: Connection_def)
  have "OnReadyWrite accept_kernel (?c\<lparr>socket := Some (?t ''g'' 10)\<rparr>, f_downloader ?f) = (?c1, f_downloader ?f)"
    by (simp add: OnReadyWrite_def TcpSend_accepts_all d) (simp add: Connection_def)
  then have "handle_event offers_all ?f = (None, ?f\<lparr>connections := [c', ?c2], f_downloader := d'\<rparr>)"
    using r(1) by (simp add: handle_event_def offers_all_def hello_def cs conn_event_def)
  moreover have "\<not> IsComplete d" if "reachable (downloader_init large_pieces) downloader_step d" for d
    using reachable_incomplete [OF that] by (simp add: large_pieces_def two_piece_torrent_def)
  moreover have "reachable (downloader_init large_pieces) downloader_step (f_downloader ?f)"
    by (rule started_reachable) (simp add: large_pieces_def two_piece_torrent_def)
  ultimately show ?thesis
    using r(2) handle_event_steps [of offers_all ?f] reachable_rtranclp by (fastforce simp: Start_Run cs)
qed

lemma read_messages_le: "read_messages (Some b) s \<le> length (buf s) + length b"
proof -
  have "messages_due (set_buf x s) \<le> length x" for x
    using messages_in_le [of x] messages_in_le [of "drop 68 x"] by (auto simp: messages_due_set_buf)
  from this [of "buf s @ b"] show ?thesis
    by (simp add: read_messages_def)
qed

lemma run_messages_nil: "run_messages chk [] f = 0"
  by (simp add: run_messages_def)

lemma two_large_pieces: "length (piece_hashes large_pieces) = 2"
  by (simp add: large_pieces_def two_piece_torrent_def)

lemma offers_few_messages: "run_messages chk [Ready [offers_all]] (started 3 all_connect two_peers) \<le> 100"
proof -
  let ?f = "started 3 all_connect two_peers"
  have "recv_buffer (connections ?f ! 0) = []" if "connections ?f \<noteq> []"
    using that started_fresh [of 3 all_connect two_peers] by (simp add: fresh_connection_def)
  then have "messages_at ?f offers_all \<le> 100"
    using read_messages_le [of "replicate 68 0 @ frame [BITFIELD, 192] @ frame [UNCHOKE]"
        "OnReadyWrite (ev_kernel offers_all) (connections ?f ! 0, f_downloader ?f)"]
    by (simp add: messages_at_def event_messages_def OnReadyWrite_assignment) (auto simp: offers_all_def hello_def frame_def)
  moreover have "events_cost messages_at [offers_all] ?f = messages_at ?f offers_all"
    by (simp split: prod.split option.split)
  moreover have "run_cost messages_at chk [] g = 0" for g
    by simp
  ultimately show ?thesis
    unfolding run_messages_def run_cost.simps(2) loop_step.case by (simp split: prod.split option.split del: events_cost.simps)
qed

theorem piece_has_one_owner_witness:
  "\<exists>f. Start 3 all_connect [Ready [offers_all]] two_peers = (Waiting, f) \<and> length (connections f) = 2
    \<and> current_piece (connections f ! 0) = 0 \<and> current_piece (connections f ! 1) \<noteq> 0"
proof -
  obtain f where f: "Start 3 all_connect [Ready [offers_all]] two_peers = (Waiting, f)" "length (connections f) = 2"
      "current_piece (connections f ! 0) = 0"
    using two_peers_run by blast
  have l: "length (piece_hashes large_pieces)
      + run_messages (\<lambda>f. IsComplete (f_downloader f)) [Ready [offers_all]] (started 3 all_connect two_peers)
      + run_messages (\<lambda>_. False) [] f < 2 ^ 32"
    using offers_few_messages [of "\<lambda>f. IsComplete (f_downloader f)"] two_large_pieces by (simp add: run_messages_nil)
  have "Run (\<lambda>_. False) [] f = (Waiting, f)"
    using f(2) by auto
  from piece_has_one_owner [OF _ f(1) this _ l, of 0 1 0] f(2,3) show ?thesis
    using f(1) by auto
qed

end
