(* ===== verification/Conversation.thy ===== *)
theory Conversation
  imports Assignment Verified_Store
begin

text \<open>
  What the program says to its peers, over any run: the handshake, its interest, and requests for
  the blocks of the pieces each connection was given, in order. Together with the assignment of
  pieces this means that no block is ever requested twice. Sending may fail, which closes the
  connection, but messages are not cut: \<open>send\<close> takes all bytes or none. A connection that
  has not sent its handshake yet handles messages too, so requests can precede the handshake.
\<close>

section \<open>The specification\<close>

definition all_or_nothing :: "kernel \<Rightarrow> bool" where
  "all_or_nothing k \<longleftrightarrow> (\<forall>w d. k w d < 0 \<or> k w d = int (length d))"

lemma TcpSend_all_or_nothing:
  assumes "all_or_nothing k"
  obtains x where "TcpSend k t d = Inl (Throw x)" | "TcpSend k t d = Inr (t\<lparr>wire := wire t @ d\<rparr>)"
proof -
  have "k (wire t) d < 0 \<or> k (wire t) d = int (length d)"
    using assms by (simp add: all_or_nothing_def)
  then show thesis
    using TcpSend_cases [of k t d] that by auto
qed

text \<open>The blocks of a list of pieces, each with the index of its piece, and their requests.\<close>

definition piece_blocks :: "torrent_file \<Rightarrow> nat \<Rightarrow> (nat \<times> nat \<times> nat) list" where
  "piece_blocks tf i = map (Pair i) (blocks 0 (piece_bytes tf i))"

definition all_blocks :: "torrent_file \<Rightarrow> nat list \<Rightarrow> (nat \<times> nat \<times> nat) list" where
  "all_blocks tf is = concat (map (piece_blocks tf) is)"

definition requests :: "(nat \<times> nat \<times> nat) list \<Rightarrow> buffer" where
  "requests bs = concat (map (\<lambda>(i, b). request_of (word_of_nat i) b) bs)"

lemma all_blocks_simps [simp]:
  "all_blocks tf [] = []"
  "all_blocks tf (is @ js) = all_blocks tf is @ all_blocks tf js"
  "all_blocks tf [i] = piece_blocks tf i"
  by (simp_all add: all_blocks_def)

lemma requests_simps [simp]:
  "requests [] = []"
  "requests (bs @ cs) = requests bs @ requests cs"
  "requests [(i, b)] = request_of (word_of_nat i) b"
  by (simp_all add: requests_def)

text \<open>
  How far a connection is with its pieces \<open>is\<close> when it has asked for \<open>bs\<close>: between pieces it
  has asked for everything, within a piece the blocks from \<open>block_offset\<close> on are left.
\<close>

definition asked :: "torrent_file \<Rightarrow> nat list \<Rightarrow> (nat \<times> nat \<times> nat) list \<Rightarrow> connection \<Rightarrow> bool" where
  "asked tf is bs c \<longleftrightarrow>
     (if current_piece c = - 1 then all_blocks tf is = bs
      else \<exists>i p. i \<in> set is \<and> current_piece c = word_of_nat i \<and> piece_index tf i
        \<and> block_offset c = word_of_nat p \<and> p < piece_bytes tf i
        \<and> all_blocks tf is = bs @ map (Pair i) (blocks p (piece_bytes tf i)))"

lemma asked_cong:
  "current_piece c' = current_piece c \<Longrightarrow> block_offset c' = block_offset c \<Longrightarrow> asked tf is bs c' = asked tf is bs c"
  by (simp add: asked_def)

lemma asked_within:
  "i \<in> set is \<Longrightarrow> current_piece c = word_of_nat i \<Longrightarrow> piece_index tf i \<Longrightarrow> block_offset c = word_of_nat p \<Longrightarrow>
   p < piece_bytes tf i \<Longrightarrow> all_blocks tf is = bs @ map (Pair i) (blocks p (piece_bytes tf i)) \<Longrightarrow> asked tf is bs c"
  using word_of_index_not_none [of tf i] unfolding asked_def by auto

text \<open>
  What an open connection with the pieces \<open>is\<close> has sent: requests, if the peer spoke first,
  what its state says, and more requests.
\<close>

fun preamble :: "torrent_file \<Rightarrow> string \<Rightarrow> conn_state \<Rightarrow> buffer" where
  "preamble tf pid CONNECTING = []"
| "preamble tf pid HANDSHAKING = BuildHandshake tf pid"
| "preamble tf pid DOWNLOADING = BuildHandshake tf pid @ BuildInterested"

definition said :: "torrent_file \<Rightarrow> string \<Rightarrow> nat list \<Rightarrow> connection \<Rightarrow> transport \<Rightarrow> bool" where
  "said tf pid is c t \<longleftrightarrow> (\<exists>bs cs. asked tf is (bs @ cs) c \<and> (c_state c \<noteq> DOWNLOADING \<longrightarrow> cs = [])
     \<and> wire t = requests bs @ preamble tf pid (c_state c) @ requests cs)"

definition told :: "torrent_file \<Rightarrow> string \<Rightarrow> nat list \<Rightarrow> connection \<Rightarrow> bool" where
  "told tf pid is c \<longleftrightarrow> (\<forall>t. socket c = Some t \<longrightarrow> said tf pid is c t)"

text \<open>Sending one more request, in a state in which messages are handled.\<close>

lemma said_more:
  assumes "said tf pid is c t" and "c_state c \<noteq> HANDSHAKING" and "c_state c' = c_state c"
    and "\<And>bs. asked tf is bs c \<Longrightarrow> asked tf is (bs @ [x]) c'"
  shows "said tf pid is c' (t\<lparr>wire := wire t @ requests [x]\<rparr>)"
proof -
  obtain bs cs where bs: "asked tf is (bs @ cs) c" "c_state c \<noteq> DOWNLOADING \<longrightarrow> cs = []"
      "wire t = requests bs @ preamble tf pid (c_state c) @ requests cs"
    using assms(1) by (auto simp: said_def)
  have a: "asked tf is (bs @ cs @ [x]) c'"
    using assms(4) [OF bs(1)] by simp
  show ?thesis
  proof (cases "c_state c = DOWNLOADING")
    case True
    then show ?thesis
      unfolding said_def using a bs(3) assms(3) by (intro exI [of _ bs] exI [of _ "cs @ [x]"]) simp
  next
    case False
    then have "c_state c = CONNECTING"
      using assms(2) by (cases "c_state c") simp_all
    then show ?thesis
      unfolding said_def using a bs(2,3) assms(3) by (intro exI [of _ "bs @ [x]"] exI [of _ "[]"]) simp
  qed
qed

definition small_pieces :: "torrent_file \<Rightarrow> bool" where
  "small_pieces tf \<longleftrightarrow> sane_torrent tf \<and> piece_length tf < 2 ^ 31"

lemma small_piece_bytes:
  assumes "small_pieces tf"
  shows "0 < piece_bytes tf i" "piece_bytes tf i < 2 ^ 31"
proof -
  have s: "sane_torrent tf"
    using assms by (simp add: small_pieces_def)
  show "0 < piece_bytes tf i"
    by (rule piece_bytes_bounds(1) [OF s])
  have "int (psize tf) < int (2 ^ 31)"
    using assms sane_psize(2) [OF s] by (simp add: small_pieces_def)
  then have "psize tf < 2 ^ 31"
    by (simp only: of_nat_less_iff)
  then show "piece_bytes tf i < 2 ^ 31"
    by (rule le_less_trans [OF piece_bytes_bounds(2) [OF s]])
qed

lemma piece_len_piece_index:
  assumes "sane_torrent tf" and "piece_index tf i"
  shows "piece_len tf (word_of_nat i) = Inr (int (piece_bytes tf i))"
  using piece_len_sane [OF assms(1), of "word_of_nat i"] sint_index_word [OF assms(2)] assms(2)
  by (simp add: piece_index_def)

section \<open>One request\<close>

lemma asked_rest:
  assumes "asked tf is bs c" and "current_piece c \<noteq> - 1" and "i \<in> set is" and "current_piece c = word_of_nat i"
    and "piece_index tf i" and "block_offset c = word_of_nat p" and "p < piece_bytes tf i" and "piece_bytes tf i < 2 ^ 31"
  shows "all_blocks tf is = bs @ map (Pair i) (blocks p (piece_bytes tf i))"
proof -
  obtain j q where j: "current_piece c = word_of_nat j" "piece_index tf j" "block_offset c = word_of_nat q"
      "q < piece_bytes tf j" "all_blocks tf is = bs @ map (Pair j) (blocks q (piece_bytes tf j))"
    using assms(1,2) by (auto simp: asked_def)
  have i: "j = i"
    using j(1) assms(4) by (intro word_of_index_inject [OF j(2) assms(5)]) simp
  have "sint (word_of_nat q :: i32) = int q" "sint (word_of_nat p :: i32) = int p"
    using assms(7,8) j(4) i by (intro sint_word_of_nat; simp)+
  moreover have "(word_of_nat q :: i32) = word_of_nat p"
    using j(3) assms(6) by simp
  ultimately have "int q = int p"
    by (simp only:)
  then have "q = p"
    by simp
  then show ?thesis
    using j(5) i by simp
qed

lemma request_block_told:
  assumes "small_pieces tf" and "all_or_nothing k" and "torrent d = tf" and "c_state c \<noteq> HANDSHAKING"
    and "current_piece c \<noteq> - 1" and "told tf pid is c" and "\<not> undefined_fault e"
    and "request_block k (c, d) = (e, (c', d'))"
  shows "told tf pid is c'"
proof (cases "socket c")
  case None
  then have "socket c' = None"
    using request_block_keeps [of "(c, d)" k] assms(8) by (simp add: keeps_def)
  then show ?thesis
    by (simp add: told_def)
next
  case (Some t)
  have s: "said tf pid is c t"
    using assms(6) Some by (simp add: told_def)
  then obtain bs0 where "asked tf is bs0 c"
    by (auto simp: said_def)
  then obtain i p where ip: "i \<in> set is" "current_piece c = word_of_nat i" "piece_index tf i" "block_offset c = word_of_nat p"
      "p < piece_bytes tf i"
    using assms(5) by (auto simp: asked_def)
  have left: "all_blocks tf is = bs @ map (Pair i) (blocks p (piece_bytes tf i))" if "asked tf is bs c" for bs
    using that assms(5) ip small_piece_bytes(2) [OF assms(1), of i] by (rule asked_rest)
  let ?n = "piece_bytes tf i"
  let ?b = "(p, min 16384 (?n - p))"
  have n: "?n < 2 ^ 31" "piece_len (torrent d) (current_piece c) = Inr (int ?n)"
    using small_piece_bytes(2) [OF assms(1)] piece_len_piece_index [OF _ ip(3)] assms(1,3)
    by (simp_all add: ip(2) small_pieces_def)
  have blk: "blocks p ?n = ?b # blocks (p + 16384) ?n"
    using ip(5) by (simp add: blocks.simps [of p ?n])
  note sends = request_block_sends [OF Some ip(4) n(2) ip(5) n(1), of k]
  show ?thesis
    using assms(2)
  proof (rule TcpSend_all_or_nothing [where t = t and d = "request_of (current_piece c) ?b"])
    fix x
    assume "TcpSend k t (request_of (current_piece c) ?b) = Inl (Throw x)"
    then show ?thesis
      using sends assms(6,8) by simp
  next
    let ?t = "t\<lparr>wire := wire t @ request_of (current_piece c) ?b\<rparr>"
    assume "TcpSend k t (request_of (current_piece c) ?b) = Inr ?t"
    then have c': "c' = c\<lparr>socket := Some ?t, block_offset := word_of_nat (p + min 16384 (?n - p)),
        current_piece := (if ?n \<le> p + 16384 then - 1 else current_piece c)\<rparr>"
      using sends assms(8) by simp
    have "asked tf is (bs @ [(i, ?b)]) c'" if "asked tf is bs c" for bs
    proof (cases "?n \<le> p + 16384")
      case True
      then have "blocks (p + 16384) ?n = []"
        by (simp add: blocks.simps [of "p + 16384"])
      then show ?thesis
        using True left [OF that] blk by (simp add: asked_def c')
    next
      case False
      then have "min 16384 (?n - p) = 16384"
        by simp
      then show ?thesis
        using False ip left [OF that] blk by (intro asked_within [of i _ _ _ "p + 16384"]) (simp_all add: c')
    qed
    from said_more [OF s assms(4) _ this] show ?thesis
      using ip(2) by (simp add: told_def c')
  qed
qed

section \<open>One connection\<close>

text \<open>Pieces taken, in order, while the counter went from \<open>m0\<close> to \<open>m\<close>.\<close>

definition new_pieces :: "torrent_file \<Rightarrow> nat \<Rightarrow> nat \<Rightarrow> nat list \<Rightarrow> bool" where
  "new_pieces tf m0 m is \<longleftrightarrow> distinct is \<and> (\<forall>j\<in>set is. piece_index tf j \<and> m0 \<le> j \<and> j < m)"

lemma new_pieces_mono: "new_pieces tf m0 m is \<Longrightarrow> m \<le> m' \<Longrightarrow> new_pieces tf m0 m' is"
  by (auto simp: new_pieces_def)

lemma new_pieces_snoc: "new_pieces tf m0 m is \<Longrightarrow> piece_index tf j \<Longrightarrow> m0 \<le> m \<Longrightarrow> m \<le> j \<Longrightarrow> j < m' \<Longrightarrow> new_pieces tf m0 m' (is @ [j])"
  by (auto simp: new_pieces_def)

definition talks :: "torrent_file \<Rightarrow> string \<Rightarrow> nat list \<Rightarrow> nat \<Rightarrow> nat \<Rightarrow> session \<Rightarrow> bool" where
  "talks tf pid is0 m0 q s \<longleftrightarrow> (no_wrap tf q \<longrightarrow>
     (\<exists>m\<ge>m0. \<exists>is. counter_at tf q m (snd s) \<and> my_id (snd s) = pid
        \<and> told tf pid (is0 @ is) (fst s) \<and> new_pieces tf m0 m is))"

text \<open>Connections that agree in what the conversation depends on.\<close>

definition same_talk :: "connection \<Rightarrow> connection \<Rightarrow> bool" where
  "same_talk c c' \<longleftrightarrow> socket c' = socket c \<and> c_state c' = c_state c \<and> current_piece c' = current_piece c
     \<and> block_offset c' = block_offset c"

lemma same_talk_simps [simp]:
  "same_talk c c"
  "same_talk c (c\<lparr>recv_buffer := b\<rparr>)"
  "same_talk c (c\<lparr>choked := x\<rparr>)"
  "same_talk c (c\<lparr>peer_pieces := pp\<rparr>)"
  by (simp_all add: same_talk_def)

lemma told_cong:
  assumes "told tf pid is c" and "same_talk c c'"
  shows "told tf pid is c'"
proof -
  have "asked tf is bs c' = asked tf is bs c" for bs
    using assms(2) by (intro asked_cong) (simp_all add: same_talk_def)
  then show ?thesis
    using assms by (simp add: told_def said_def same_talk_def)
qed

lemma told_closed: "socket c = None \<Longrightarrow> told tf pid is c"
  by (simp add: told_def)

lemma talks_cong:
  assumes "talks tf pid is0 m0 q s" and "torrent (snd t) = torrent (snd s)" and "next_req_index (snd t) = next_req_index (snd s)"
    and "my_id (snd t) = my_id (snd s)" and "same_talk (fst s) (fst t) \<or> socket (fst t) = None" and "q \<le> r"
  shows "talks tf pid is0 m0 r t"
  unfolding talks_def
proof
  assume nw: "no_wrap tf r"
  then obtain m "is" where m: "m0 \<le> m" "counter_at tf q m (snd s)" "my_id (snd s) = pid" "told tf pid (is0 @ is) (fst s)"
      "new_pieces tf m0 m is"
    using assms(1) no_wrap_less [OF nw assms(6)] by (auto simp: talks_def)
  moreover have "counter_at tf r m (snd t)"
    using m(2) assms(2,3,6) by (simp add: counter_at_def)
  moreover have "told tf pid (is0 @ is) (fst t)"
    using assms(5) m(4) told_cong told_closed by blast
  ultimately show "\<exists>m\<ge>m0. \<exists>is. counter_at tf r m (snd t) \<and> my_id (snd t) = pid
      \<and> told tf pid (is0 @ is) (fst t) \<and> new_pieces tf m0 m is"
    using assms(4) by auto
qed

text \<open>Taking a piece adds it to the pieces of the connection, with all its blocks left.\<close>

lemma told_taken:
  assumes "told tf pid is c" and "current_piece c = - 1" and "sane_torrent tf" and "piece_index tf j"
    and "c' = c\<lparr>current_piece := word_of_nat j, block_offset := 0\<rparr>"
  shows "told tf pid (is @ [j]) c'"
proof -
  have "asked tf (is @ [j]) bs c'" if "asked tf is bs c" for bs
    using that assms(2,4) piece_bytes_bounds(1) [OF assms(3)]
    by (intro asked_within [of j _ _ _ 0]) (simp_all add: asked_def assms(5) piece_blocks_def)
  then show ?thesis
    using assms(1) by (fastforce simp: told_def said_def assms(5))
qed

lemma find_piece_keeps_id: "my_id (snd (snd (find_piece a c d))) = my_id d"
proof (induction a c d rule: find_piece.induct)
  case (1 a c d)
  obtain i d' where g: "GetNextPieceToRequest d = (i, d')" by (cases "GetNextPieceToRequest d")
  have "my_id d' = my_id d"
    using GetNextPieceToRequest_frame(4) [of d] by (simp add: g)
  then show ?case
    using 1 [OF g [symmetric]] by (simp add: find_piece.simps [of a c d] g)
qed

lemma RequestNextBlock_talks:
  assumes "small_pieces tf" and "all_or_nothing k" and "talks tf pid is0 m0 q s" and "c_state (fst s) \<noteq> HANDSHAKING"
    and "\<not> undefined_fault e" and "RequestNextBlock k s = (e, t)"
  shows "talks tf pid is0 m0 (Suc q) t"
  unfolding talks_def
proof
  assume nw: "no_wrap tf (Suc q)"
  obtain c d c' d' where s: "s = (c, d)" and t: "t = (c', d')" by (cases s; cases t)
  obtain m "is" where m: "m0 \<le> m" "counter_at tf q m d" "my_id d = pid" "told tf pid (is0 @ is) c" "new_pieces tf m0 m is"
    using assms(3) no_wrap_less [OF nw, of q] by (auto simp: talks_def s)
  have tf: "torrent d = tf" "sane_torrent tf"
    using m(2) assms(1) by (simp_all add: counter_at_def small_pieces_def)
  let ?goal = "\<exists>m\<ge>m0. \<exists>is. counter_at tf (Suc q) m (snd t) \<and> my_id (snd t) = pid
      \<and> told tf pid (is0 @ is) (fst t) \<and> new_pieces tf m0 m is"
  have stay: ?goal if "d' = d" "told tf pid (is0 @ is) c'"
    using m that by (auto simp: t counter_at_def)
  consider "choked c" | "\<not> choked c" "current_piece c \<noteq> - 1" | "\<not> choked c" "current_piece c = - 1"
    by blast
  then show ?goal
  proof cases
    case 1
    then show ?thesis
      using assms(6) stay m(4) by (simp add: RequestNextBlock_def s t)
  next
    case 2
    then have r: "request_block k (c, d) = (e, (c', d'))"
      using assms(6) by (simp add: RequestNextBlock_def s t)
    then show ?thesis
      using request_block_told [OF assms(1,2) tf(1) _ 2(2) m(4) assms(5) r] request_block_piece [OF r] stay assms(4)
      by (simp add: s)
  next
    case 3
    obtain ok c1 d1 where u: "find_piece 0 c d = (ok, (c1, d1))" by (cases "find_piece 0 c d")
    obtain m' where m': "m \<le> m'" "counter_at tf (Suc q) m' d1" "if ok then piece_taken tf m m' c c1 else c1 = c"
      using find_piece_counter [OF nw u m(2)] by blast
    have id: "my_id d1 = pid"
      using find_piece_keeps_id [of 0 c d] u m(3) by simp
    show ?thesis
    proof (cases ok)
      case False
      then have "c' = c" "d' = d1"
        using assms(6) 3 u m'(3) by (simp_all add: RequestNextBlock_def s t)
      then show ?thesis
        using le_trans [OF m(1) m'(1)] m(4) m'(2) id new_pieces_mono [OF m(5) m'(1)] unfolding t by auto
    next
      case True
      then obtain j where j: "piece_index tf j" "m \<le> j" "j < m'" "c1 = c\<lparr>current_piece := word_of_nat j, block_offset := 0\<rparr>"
        using m'(3) by (auto simp: piece_taken_def)
      have r: "request_block k (c1, d1) = (e, (c', d'))"
        using assms(6) 3 u True by (simp add: RequestNextBlock_def s t)
      have "told tf pid ((is0 @ is) @ [j]) c1"
        by (rule told_taken [OF m(4) 3(2) tf(2) j(1,4)])
      then have "told tf pid (is0 @ (is @ [j])) c1" "current_piece c1 \<noteq> - 1" "c_state c1 \<noteq> HANDSHAKING" "torrent d1 = tf"
        using word_of_index_not_none [OF j(1)] assms(4) m'(2) by (simp_all add: j(4) s counter_at_def)
      then have "told tf pid (is0 @ (is @ [j])) c'" "d' = d1"
        using request_block_told [OF assms(1,2) _ _ _ _ assms(5) r] request_block_piece [OF r] by simp_all
      then show ?thesis
        using le_trans [OF m(1) m'(1)] m'(2) id new_pieces_snoc [OF m(5) j(1) m(1) j(2,3)] unfolding t by auto
    qed
  qed
qed

lemma handle_message_talks:
  assumes "small_pieces tf" and "all_or_nothing k" and "talks tf pid is0 m0 q s" and "c_state (fst s) \<noteq> HANDSHAKING"
    and "\<not> undefined_fault e" and "handle_message k mid payload s = (e, t)"
  shows "talks tf pid is0 m0 (Suc q) t"
proof -
  obtain c d where s: "s = (c, d)" by (cases s)
  have same: "talks tf pid is0 m0 (Suc q) u"
    if "torrent (snd u) = torrent d" "next_req_index (snd u) = next_req_index d" "my_id (snd u) = my_id d" "same_talk c (fst u)" for u
    using talks_cong [OF assms(3), of u "Suc q"] that by (simp add: s)
  have ask: "talks tf pid is0 m0 (Suc q) t'"
    if r: "RequestNextBlock k u = (e', t')" and e: "\<not> undefined_fault e'" and u: "torrent (snd u) = torrent d"
      "next_req_index (snd u) = next_req_index d" "my_id (snd u) = my_id d" "same_talk c (fst u)" for u e' t'
  proof (rule RequestNextBlock_talks [OF assms(1,2) _ _ e r])
    show "talks tf pid is0 m0 q u"
      using talks_cong [OF assms(3), of u q] u by (simp add: s)
    show "c_state (fst u) \<noteq> HANDSHAKING"
      using u(4) assms(4) by (simp add: same_talk_def s)
  qed
  have b: "talks tf pid is0 m0 (Suc q) t'"
    if o: "OnBlockReceived i off data d = (f, d')"
      and r: "f = None \<and> RequestNextBlock k (c, d') = (e', t') \<and> \<not> undefined_fault e' \<or> t' = (c, d')"
    for i off data f d' e' t'
  proof -
    have "torrent d' = torrent d" "next_req_index d' = next_req_index d" "my_id d' = my_id d"
      using OnBlockReceived_frame [of i off data d] by (simp_all add: o)
    then show ?thesis
      using r ask [of "(c, d')" e' t'] same [of "(c, d')"] by fastforce
  qed
  show ?thesis
    using assms(5,6) ask [of "(c\<lparr>choked := False\<rparr>, d)"]
    by (auto simp: handle_message_def s split: if_splits sum.splits prod.splits option.splits intro: same b)
qed

lemma handshake_talks:
  assumes "all_or_nothing k" and "talks tf pid is0 m0 n (c, d)" and "\<not> undefined_fault e" and "c_state c = HANDSHAKING"
    and "conn_send k BuildInterested (c\<lparr>handshake_done := True, c_state := DOWNLOADING\<rparr>, d) = (e, t)"
  shows "if e = None then talks tf pid is0 m0 n t else talks tf pid is0 m0 n ((fst t)\<lparr>socket := None\<rparr>, snd t)"
proof -
  obtain tr where tr: "socket c = Some tr"
    using assms(3,5) by (cases "socket c") (auto simp: conn_send_def)
  show ?thesis
    using assms(1)
  proof (rule TcpSend_all_or_nothing [where t = tr and d = BuildInterested])
    fix x
    assume "TcpSend k tr BuildInterested = Inl (Throw x)"
    then have "e \<noteq> None" "snd t = d" "fst t = c\<lparr>handshake_done := True, c_state := DOWNLOADING\<rparr>"
      using assms(5) tr by (auto simp: conn_send_def)
    then show ?thesis
      using talks_cong [OF assms(2), of "((fst t)\<lparr>socket := None\<rparr>, snd t)" n] by (cases e) simp_all
  next
    let ?tr = "tr\<lparr>wire := wire tr @ BuildInterested\<rparr>"
    assume "TcpSend k tr BuildInterested = Inr ?tr"
    then have t: "e = None" "t = (c\<lparr>handshake_done := True, c_state := DOWNLOADING, socket := Some ?tr\<rparr>, d)"
      using assms(5) tr by (auto simp: conn_send_def)
    have "told tf pid is (fst t)" if told: "told tf pid is c" for "is"
    proof -
      obtain bs where bs: "asked tf is bs c" "wire tr = requests bs @ BuildHandshake tf pid"
        using told tr assms(4) by (auto simp: told_def said_def)
      have "asked tf is bs (fst t)"
        using bs(1) asked_cong [of "fst t" c] by (simp add: t(2))
      then have "said tf pid is (fst t) ?tr"
        unfolding said_def using bs(2) by - (rule exI [of _ bs], rule exI [of _ "[]"], simp add: t(2))
      then show ?thesis
        by (simp add: told_def t(2))
    qed
    then have "talks tf pid is0 m0 n t"
      using assms(2) by (auto simp: talks_def t(2))
    then show ?thesis
      by (simp add: t(1))
  qed
qed

interpretation conversation: counted_invariant k
  "\<lambda>q s. small_pieces tf \<and> all_or_nothing k \<and> talks tf pid is0 m0 q s"
  "\<lambda>q s. small_pieces tf \<and> all_or_nothing k \<and> talks tf pid is0 m0 q ((fst s)\<lparr>socket := None\<rparr>, snd s)"
  for k tf pid is0 m0
proof
  fix n s b
  assume t: "small_pieces tf \<and> all_or_nothing k \<and> talks tf pid is0 m0 n s"
  then show "small_pieces tf \<and> all_or_nothing k \<and> talks tf pid is0 m0 n (set_buf b s)"
    using talks_cong [of tf pid is0 m0 n s "set_buf b s" n] by (simp add: set_buf_def)
next
  fix n s b
  assume t: "small_pieces tf \<and> all_or_nothing k \<and> talks tf pid is0 m0 n ((fst s)\<lparr>socket := None\<rparr>, snd s)"
  then show "small_pieces tf \<and> all_or_nothing k
      \<and> talks tf pid is0 m0 n ((fst (set_buf b s))\<lparr>socket := None\<rparr>, snd (set_buf b s))"
    using talks_cong [of tf pid is0 m0 n "((fst s)\<lparr>socket := None\<rparr>, snd s)" "((fst (set_buf b s))\<lparr>socket := None\<rparr>, snd (set_buf b s))" n]
    by (simp add: set_buf_def)
next
  fix n c d e t
  assume "small_pieces tf \<and> all_or_nothing k \<and> talks tf pid is0 m0 n (c, d)" "\<not> undefined_fault e" "c_state c = HANDSHAKING"
    "conn_send k BuildInterested (c\<lparr>handshake_done := True, c_state := DOWNLOADING\<rparr>, d) = (e, t)"
  then show "if e = None then small_pieces tf \<and> all_or_nothing k \<and> talks tf pid is0 m0 n t
      else small_pieces tf \<and> all_or_nothing k \<and> talks tf pid is0 m0 n ((fst t)\<lparr>socket := None\<rparr>, snd t)"
    using handshake_talks [of k tf pid is0 m0 n c d e t] by (auto split: if_splits)
next
  fix n s payload e mid t
  assume "small_pieces tf \<and> all_or_nothing k \<and> talks tf pid is0 m0 n s" "\<not> undefined_fault e" "c_state (fst s) \<noteq> HANDSHAKING"
    "handle_message k mid payload s = (e, t)"
  then have "small_pieces tf \<and> all_or_nothing k \<and> talks tf pid is0 m0 (Suc n) t"
    using handle_message_talks [of tf k pid is0 m0 n s e mid payload t] by simp
  then show "if e = None then small_pieces tf \<and> all_or_nothing k \<and> talks tf pid is0 m0 (Suc n) t
      else small_pieces tf \<and> all_or_nothing k \<and> talks tf pid is0 m0 (Suc n) ((fst t)\<lparr>socket := None\<rparr>, snd t)"
    using talks_cong [of tf pid is0 m0 "Suc n" t "((fst t)\<lparr>socket := None\<rparr>, snd t)" "Suc n"] by simp
qed

section \<open>All connections\<close>

lemma OnReadyWrite_talks:
  assumes "all_or_nothing k" and "talks tf pid is0 m0 q s" and "no_wrap tf q"
  shows "talks tf pid is0 m0 q (OnReadyWrite k s)"
proof -
  obtain c d where s: "s = (c, d)" by (cases s)
  have d: "torrent d = tf" "my_id d = pid"
    using assms(2,3) by (auto simp: talks_def counter_at_def s)
  show ?thesis
  proof (cases "\<exists>t. socket c = Some t \<and> c_state c = CONNECTING")
    case False
    then show ?thesis
      using assms(2) by (auto simp: OnReadyWrite_def s split: option.split)
  next
    case True
    then obtain t where t: "socket c = Some t" "c_state c = CONNECTING"
      by blast
    show ?thesis
      using assms(1)
    proof (rule TcpSend_all_or_nothing [where t = t and d = "BuildHandshake (torrent d) (my_id d)"])
      fix x
      assume "TcpSend k t (BuildHandshake (torrent d) (my_id d)) = Inl (Throw x)"
      then have "OnReadyWrite k s = (c\<lparr>socket := None\<rparr>, d)"
        using t by (simp add: OnReadyWrite_def s)
      then show ?thesis
        using talks_cong [OF assms(2), of "(c\<lparr>socket := None\<rparr>, d)" q] by (simp add: s)
    next
      let ?t = "t\<lparr>wire := wire t @ BuildHandshake (torrent d) (my_id d)\<rparr>"
      assume "TcpSend k t (BuildHandshake (torrent d) (my_id d)) = Inr ?t"
      then have o: "OnReadyWrite k s = (c\<lparr>socket := Some ?t, c_state := HANDSHAKING\<rparr>, d)"
        using t by (simp add: OnReadyWrite_def s)
      have "told tf pid is (c\<lparr>socket := Some ?t, c_state := HANDSHAKING\<rparr>)" if told: "told tf pid is c" for "is"
      proof -
        obtain bs where "asked tf is bs c" "wire t = requests bs"
          using told t by (auto simp: told_def said_def)
        then show ?thesis
          using d asked_cong [of "c\<lparr>socket := Some ?t, c_state := HANDSHAKING\<rparr>" c] by (auto simp: told_def said_def)
      qed
      then show ?thesis
        unfolding o using assms(2) by (auto simp: talks_def s)
    qed
  qed
qed

lemma OnReadyRead_talks:
  assumes "OnReadyRead k a s = (None, t)" and "small_pieces tf" and "all_or_nothing k" and "talks tf pid is0 m0 q s"
  shows "\<exists>q'\<le>q + read_messages a s. talks tf pid is0 m0 q' t"
  using assms(1)
proof (cases rule: OnReadyRead_cases)
  case ignored
  then show ?thesis
    using assms(4) by (intro exI [of _ q]) simp
next
  case closed
  then show ?thesis
    using talks_cong [OF assms(4), of t q] by (intro exI [of _ q]) simp
next
  case (digested b e u)
  obtain q' where q': "q' \<le> q + messages_due (set_buf (buf s @ b) s)"
      "if e = None then talks tf pid is0 m0 q' u else talks tf pid is0 m0 q' ((fst u)\<lparr>socket := None\<rparr>, snd u)"
    using conversation.ProcessBuffer_counts [of tf k pid is0 m0 q "set_buf (buf s @ b) s", OF _ digested(3,4)]
      conversation.counted_buf [of tf k pid is0 m0 q s] assms(2-4) by (auto split: if_splits)
  have "talks tf pid is0 m0 q' t"
    using digested(5) q'(2) by (simp split: if_splits)
  then show ?thesis
    using digested(1,6) q'(1) by (intro exI [of _ q']) (auto simp: read_messages_def)
qed

lemma conn_event_talks:
  assumes "conn_event e s = (None, t)" and "small_pieces tf" and "all_or_nothing (ev_kernel e)" and "talks tf pid is0 m0 q s"
    and "no_wrap tf q"
  shows "\<exists>q'\<le>q + event_messages e s. talks tf pid is0 m0 q' t"
proof -
  let ?s = "if ev_out e then OnReadyWrite (ev_kernel e) s else s"
  have s: "talks tf pid is0 m0 q ?s" "buf ?s = buf s"
    using OnReadyWrite_talks [OF assms(3,4,5)] assms(4) by (simp_all add: OnReadyWrite_assignment)
  show ?thesis
  proof (cases "ev_in e")
    case None
    then show ?thesis
      using assms(1) s by (intro exI [of _ q]) (auto simp: conn_event_def)
  next
    case (Some a)
    then have "OnReadyRead (ev_kernel e) a ?s = (None, t)"
      using assms(1) by (simp add: conn_event_def Let_def)
    then show ?thesis
      using OnReadyRead_talks [OF _ assms(2,3) s(1)] Some by (auto simp: event_messages_def)
  qed
qed

text \<open>The pieces of all connections, \<open>own ! x\<close> those of the connection \<open>x\<close>.\<close>

definition farm_talks :: "torrent_file \<Rightarrow> string \<Rightarrow> nat \<Rightarrow> farm \<Rightarrow> bool" where
  "farm_talks tf pid n f \<longleftrightarrow> (no_wrap tf n \<longrightarrow>
     (\<exists>q m own. q \<le> n \<and> counter_at tf q m (f_downloader f) \<and> my_id (f_downloader f) = pid
        \<and> list_all2 (told tf pid) own (connections f) \<and> new_pieces tf 0 m (concat own)))"

lemma concat_update:
  assumes "i < length xss"
  shows "set (concat (xss[i := xss ! i @ ys])) = set (concat xss) \<union> set ys"
    "distinct (concat xss) \<Longrightarrow> distinct ys \<Longrightarrow> set ys \<inter> set (concat xss) = {} \<Longrightarrow> distinct (concat (xss[i := xss ! i @ ys]))"
proof -
  have x: "concat xss = concat (take i xss) @ xss ! i @ concat (drop (Suc i) xss)"
    using id_take_nth_drop [OF assms] by (metis concat.simps(2) concat_append)
  have y: "concat (xss[i := xss ! i @ ys]) = concat (take i xss) @ (xss ! i @ ys) @ concat (drop (Suc i) xss)"
    using assms by (simp add: upd_conv_take_nth_drop)
  show "set (concat (xss[i := xss ! i @ ys])) = set (concat xss) \<union> set ys"
    unfolding x y by auto
  show "distinct (concat (xss[i := xss ! i @ ys]))" if "distinct (concat xss)" "distinct ys" "set ys \<inter> set (concat xss) = {}"
    using that unfolding x y by auto
qed

lemma new_pieces_add:
  assumes "new_pieces tf 0 m (concat own)" and "new_pieces tf m m' is" and "m \<le> m'" and "i < length own"
  shows "new_pieces tf 0 m' (concat (own[i := own ! i @ is]))"
proof -
  have "set is \<inter> set (concat own) = {}"
    using assms(1,2) by (fastforce simp: new_pieces_def)
  then show ?thesis
    using assms(1-3) concat_update [OF assms(4), of "is"] by (fastforce simp: new_pieces_def)
qed

lemma handle_event_talks:
  assumes "small_pieces tf" and "farm_talks tf pid n f" and "all_or_nothing (ev_kernel e)" and "handle_event e f = (None, f')"
  shows "farm_talks tf pid (n + messages_at f e) f'"
  unfolding farm_talks_def
proof
  assume nw: "no_wrap tf (n + messages_at f e)"
  let ?i = "ev_conn e" and ?d = "f_downloader f"
  let ?c = "connections f ! ?i"
  obtain q m own where a: "q \<le> n" "counter_at tf q m ?d" "my_id ?d = pid"
      "list_all2 (told tf pid) own (connections f)" "new_pieces tf 0 m (concat own)"
    using assms(2) no_wrap_less [OF nw, of n] by (auto simp: farm_talks_def)
  obtain t where i: "?i < length (connections f)" and t: "conn_event e (?c, ?d) = (None, t)"
      and f': "f' = f\<lparr>connections := (connections f)[?i := fst t], f_downloader := snd t\<rparr>"
    using assms(4) by (auto simp: handle_event_def split: if_splits prod.splits)
  have l: "?i < length own" "told tf pid (own ! ?i) ?c"
    using a(4) i by (auto simp: list_all2_conv_all_nth)
  then have "talks tf pid (own ! ?i) m q (?c, ?d)"
    using a(2,3) by (auto simp: talks_def new_pieces_def intro!: exI [of _ m] exI [of _ "[]"])
  moreover have "no_wrap tf q"
    using no_wrap_less [OF nw, of q] a(1) by simp
  ultimately obtain q' where
      q': "q' \<le> q + event_messages e (?c, ?d)" "talks tf pid (own ! ?i) m q' t"
    using conn_event_talks [OF t assms(1,3), of pid "own ! ?i" m q] by auto
  have b: "q' \<le> n + messages_at f e"
    using q'(1) a(1) i by (simp add: messages_at_def)
  then have "no_wrap tf q'"
    using no_wrap_less [OF nw, of q'] by simp
  then obtain m' "is" where m': "m \<le> m'" "counter_at tf q' m' (snd t)" "my_id (snd t) = pid"
      "told tf pid (own ! ?i @ is) (fst t)" "new_pieces tf m m' is"
    using q'(2) by (auto simp: talks_def)
  have "list_all2 (told tf pid) (own[?i := own ! ?i @ is]) (connections f')"
    using a(4) m'(4) by (simp add: f' list_all2_update_cong)
  then show "\<exists>q m own. q \<le> n + messages_at f e \<and> counter_at tf q m (f_downloader f') \<and> my_id (f_downloader f') = pid
      \<and> list_all2 (told tf pid) own (connections f') \<and> new_pieces tf 0 m (concat own)"
    using b m'(2,3) new_pieces_add [OF a(5) m'(5,1) l(1)]
    by (intro exI [of _ q'] exI [of _ m'] exI [of _ "own[?i := own ! ?i @ is]"]) (simp add: f')
qed

interpretation run_talks: run_invariant "\<lambda>n f. small_pieces tf \<and> farm_talks tf pid n f" "\<lambda>e. all_or_nothing (ev_kernel e)" messages_at
  for tf pid
proof
  show "small_pieces tf \<and> farm_talks tf pid (n + messages_at f e) f'"
    if "small_pieces tf \<and> farm_talks tf pid n f" "all_or_nothing (ev_kernel e)" "handle_event e f = (None, f')" for n f e f'
    using handle_event_talks [OF _ _ that(2,3)] that(1) by blast
  show "small_pieces tf \<and> farm_talks tf pid n (writer_turn f)" if "small_pieces tf \<and> farm_talks tf pid n f" for n f
    using that by (simp add: farm_talks_def counter_at_def writer_turn_def)
  show "small_pieces tf \<and> farm_talks tf pid m f" if "small_pieces tf \<and> farm_talks tf pid n f" "n \<le> m" for n m f
    using that no_wrap_less [of tf m n] unfolding farm_talks_def by (meson le_trans)
qed

lemma started_talks:
  assumes "d = Downloader tf pid ps opened"
  shows "farm_talks tf pid 0 (started ep ans d)"
proof -
  let ?f = "started ep ans d"
  let ?own = "replicate (length (connections ?f)) [] :: nat list list"
  have "told tf pid [] c" if "c \<in> set (connections ?f)" for c
    using that started_fresh [of ep ans d] by (fastforce simp: told_def said_def asked_def fresh_connection_def)
  then have "list_all2 (told tf pid) ?own (connections ?f)"
    by (simp add: list_all2_conv_all_nth)
  moreover have "counter_at tf 0 0 (f_downloader ?f)" "my_id (f_downloader ?f) = pid"
    by (simp_all add: counter_at_def started_simps assms Downloader_def)
  ultimately show ?thesis
    unfolding farm_talks_def new_pieces_def
    by (intro impI exI [of _ 0] exI [of _ ?own]) auto
qed

section \<open>What the requests add up to\<close>

lemma distinct_blocks: "distinct (blocks p n)"
proof (induction p n rule: blocks.induct)
  case (1 p n)
  have "(p, min 16384 (n - p)) \<notin> set (blocks (p + 16384) n)"
    using blocks_size [of p "min 16384 (n - p)" "p + 16384" n] by auto
  then show ?case
    using 1 by (simp add: blocks.simps [of p n])
qed

lemma distinct_all_blocks: "distinct is \<Longrightarrow> distinct (all_blocks tf is)"
proof (induction "is")
  case (Cons i "is")
  have "distinct (piece_blocks tf i)"
    by (simp add: piece_blocks_def distinct_map distinct_blocks inj_on_def)
  then show ?case
    using Cons by (auto simp: all_blocks_def piece_blocks_def)
qed simp

lemma all_blocks_inside:
  "(i, p, l) \<in> set (all_blocks tf is) \<Longrightarrow> i \<in> set is \<and> 0 < l \<and> l \<le> 16384 \<and> p + l \<le> piece_bytes tf i"
  using blocks_size [of p l 0 "piece_bytes tf i"] by (auto simp: all_blocks_def piece_blocks_def)

lemma asked_prefix: "asked tf is bs c \<Longrightarrow> \<exists>rest. all_blocks tf is = bs @ rest"
  by (auto simp: asked_def split: if_splits)

section \<open>Properties\<close>

text \<open>
  C4: the program asks for every block at most once. In a run of \<open>Start\<close> with any
  number of peers sending anything, which no undefined behaviour ended, on a torrent whose piece
  length is positive and below 2 GB and whose length is not negative, as long as sending is all or nothing and the pieces of
  the torrent and the complete messages received are together fewer than \<open>2 ^ 32\<close>, so that
  the 32-bit counter cannot have come round, there is a list of pieces for each connection, such
  that the blocks of all these pieces are different ones, inside their piece and of at most
  16384 bytes, and an open connection has sent requests for the first of its blocks in order,
  around what its state calls for: nothing, the handshake, or the handshake and its interest.
\<close>

theorem no_block_requested_twice:
  assumes "small_pieces tf" and "0 \<le> ep" and "Start ep ans script (Downloader tf pid ps opened) = (r, f)"
    and "\<forall>flt. r \<noteq> Faulted flt" and "\<forall>e\<in>set (script_events script). all_or_nothing (ev_kernel e)"
    and "length (piece_hashes tf)
      + run_messages (\<lambda>f. IsComplete (f_downloader f)) script (started ep ans (Downloader tf pid ps opened)) < 2 ^ 32"
  shows "\<exists>own. length own = length (connections f) \<and> distinct (all_blocks tf (concat own))
    \<and> (\<forall>(i, p, l)\<in>set (all_blocks tf (concat own)).
         i < length (piece_hashes tf) \<and> 0 < l \<and> l \<le> 16384 \<and> p + l \<le> piece_bytes tf i)
    \<and> (\<forall>x<length (connections f). \<forall>t. socket (connections f ! x) = Some t \<longrightarrow>
         (\<exists>bs cs rest. all_blocks tf (own ! x) = bs @ cs @ rest
            \<and> wire t = requests bs @ preamble tf pid (c_state (connections f ! x)) @ requests cs))"
proof -
  have "Run (\<lambda>f. IsComplete (f_downloader f)) script (started ep ans (Downloader tf pid ps opened)) = (r, f)"
    using assms(2,3) by (simp add: Start_Run)
  from run_talks.Run_holds [OF this assms(4), of tf pid 0] obtain m own where
      own: "list_all2 (told tf pid) own (connections f)" "new_pieces tf 0 m (concat own)"
    using assms(1,5,6) started_talks [OF refl] by (auto simp: farm_talks_def no_wrap_def list_all_iff run_messages_def)
  have "\<exists>bs cs rest. all_blocks tf (own ! x) = bs @ cs @ rest
      \<and> wire t = requests bs @ preamble tf pid (c_state (connections f ! x)) @ requests cs"
    if x: "x < length (connections f)" "socket (connections f ! x) = Some t" for x t
  proof -
    have "said tf pid (own ! x) (connections f ! x) t"
      using own(1) x by (auto simp: list_all2_conv_all_nth told_def)
    then obtain bs cs where "asked tf (own ! x) (bs @ cs) (connections f ! x)"
        "wire t = requests bs @ preamble tf pid (c_state (connections f ! x)) @ requests cs"
      by (auto simp: said_def)
    then show ?thesis
      using asked_prefix by fastforce
  qed
  moreover have "distinct (all_blocks tf (concat own))" "\<forall>j\<in>set (concat own). j < length (piece_hashes tf)"
    using own(2) distinct_all_blocks by (auto simp: new_pieces_def piece_index_def)
  ultimately show ?thesis
    using list_all2_lengthD [OF own(1)] all_blocks_inside by (intro exI [of _ own]) blast
qed

lemma accepts_all_or_nothing: "accepts_all k \<Longrightarrow> all_or_nothing k"
  by (simp add: accepts_all_def all_or_nothing_def)

theorem no_block_requested_twice_witness:
  "\<exists>f own. Start 3 all_connect [Ready [offers_all]] two_peers = (Waiting, f) \<and> length own = 2
    \<and> distinct (all_blocks large_pieces (concat own))
    \<and> (\<forall>t. socket (connections f ! 0) = Some t \<longrightarrow> (\<exists>bs cs rest. all_blocks large_pieces (own ! 0) = bs @ cs @ rest
         \<and> wire t = requests bs @ preamble large_pieces ''me'' (c_state (connections f ! 0)) @ requests cs))"
proof -
  obtain f where f: "Start 3 all_connect [Ready [offers_all]] two_peers = (Waiting, f)" "length (connections f) = 2"
    using two_peers_run by blast
  have p: "small_pieces large_pieces"
    by (simp add: small_pieces_def sane_torrent_def large_pieces_def two_piece_torrent_def)
  have k: "\<forall>e\<in>set (script_events [Ready [offers_all]]). all_or_nothing (ev_kernel e)"
    using accepts_all_or_nothing [OF accepts_all_accept_kernel] by (simp add: offers_all_def hello_def)
  have l: "length (piece_hashes large_pieces)
      + run_messages (\<lambda>f. IsComplete (f_downloader f)) [Ready [offers_all]] (started 3 all_connect two_peers) < 2 ^ 32"
    using offers_few_messages [of "\<lambda>f. IsComplete (f_downloader f)"]
      two_large_pieces by simp
  have e: "(0 :: int) \<le> 3" "\<forall>flt. Waiting \<noteq> Faulted flt"
    by simp_all
  from no_block_requested_twice [OF p e(1) f(1) e(2) k l] obtain own where
      own: "length own = length (connections f)" "distinct (all_blocks large_pieces (concat own))"
      "\<forall>x<length (connections f). \<forall>t. socket (connections f ! x) = Some t \<longrightarrow>
         (\<exists>bs cs rest. all_blocks large_pieces (own ! x) = bs @ cs @ rest
            \<and> wire t = requests bs @ preamble large_pieces ''me'' (c_state (connections f ! x)) @ requests cs)"
    by (elim exE conjE) (rule that)
  have "0 < length (connections f)"
    by (simp add: f(2))
  from own(3) [rule_format, OF this] show ?thesis
    using f own(1,2) by (intro exI [of _ f] exI [of _ own]) simp
qed

end
