(* ===== verification/Display.thy ===== *)
theory Display
  imports Worker Complex_Main
begin

text \<open>
  The progress display: \<open>Speed::FormatBytes\<close> and the text that the thread of
  \<open>Speed::start\<close> prints every 200 ms (source/download/Worker.cpp). A \<open>double\<close> is the
  rational number it stands for, and each operation rounds its exact result to 53 significant bits,
  ties to even, as IEEE 754 prescribes; all values here are between \<open>2 ^ - 64\<close> and
  \<open>2 ^ 67\<close>, so neither overflow nor subnormal numbers occur.
\<close>

section \<open>Doubles\<close>

fun bits :: "nat \<Rightarrow> nat" where
  "bits n = (if n = 0 then 0 else Suc (bits (n div 2)))"

declare bits.simps [simp del]

definition round_even :: "rat \<Rightarrow> int" where
  "round_even x =
     (let f = \<lfloor>x\<rfloor>; r = x - of_int f
      in if r < 1 / 2 \<or> (r = 1 / 2 \<and> even f) then f else f + 1)"

text \<open>The exponent of the last of the 53 bits of a positive number.\<close>

definition ulp_exp :: "rat \<Rightarrow> int" where
  "ulp_exp x =
     (if 1 \<le> x then int (bits (nat \<lfloor>x\<rfloor>)) - 53
      else - int (bits (nat (\<lceil>1 / x\<rceil> - 1))) - 52)"

definition fl :: "rat \<Rightarrow> rat" where
  "fl x = (if x = 0 then 0 else of_int (round_even (x / 2 powi ulp_exp x)) * 2 powi ulp_exp x)"

text \<open>\<open>(double) n\<close> of a \<open>size_t\<close>, and \<open>(int) x\<close> of a \<open>double\<close> that is not negative.\<close>

definition to_double :: "u64 \<Rightarrow> rat" where
  "to_double n = fl (of_nat (unat n))"

definition double_to_int :: "rat \<Rightarrow> int res" where
  "double_to_int x = (if \<lfloor>x\<rfloor> < 2 ^ 31 then Inr \<lfloor>x\<rfloor> else Inl (Undefined Signed_Overflow))"

section \<open>FormatBytes\<close>

function scale_units :: "nat \<Rightarrow> rat \<Rightarrow> nat \<times> rat" where
  "scale_units i b = (if 1024 \<le> b \<and> i < 3 then scale_units (i + 1) (fl (b / 1024)) else (i, b))"
  by pat_completeness auto
termination scale_units
  by (relation "measure (\<lambda>(i, b). 3 - i)") auto

declare scale_units.simps [simp del]

text \<open>\<open>fixed << setprecision(2)\<close>.\<close>

definition show_fixed2 :: "rat \<Rightarrow> string" where
  "show_fixed2 x =
     (let n = round_even (x * 100)
      in to_string (n div 100) @ ''.'' @ [digit_char (nat (n mod 100 div 10)), digit_char (nat (n mod 10))])"

definition byte_units :: "string list" where
  "byte_units = [''B'', ''KB'', ''MB'', ''GB'']"

definition FormatBytes :: "rat \<Rightarrow> string" where
  "FormatBytes b = (case scale_units 0 b of (i, x) \<Rightarrow> show_fixed2 x @ '' '' @ byte_units ! i)"

section \<open>One refresh\<close>

definition progress :: "speed \<Rightarrow> rat" where
  "progress s =
     (if total_bytes s > 0 then fl (to_double (bytes_downloaded s) / to_double (total_bytes s)) else 0)"

definition percent :: "speed \<Rightarrow> int res" where
  "percent s = res_bind (double_to_int (fl (progress s * 100))) (\<lambda>p. Inr (if p > 100 then 100 else p))"

definition bar_pos :: "speed \<Rightarrow> int res" where
  "bar_pos s = res_bind (double_to_int (fl (50 * progress s))) (\<lambda>p. Inr (if p > 50 then 50 else p))"

definition bar :: "int \<Rightarrow> string" where
  "bar pos = map (\<lambda>i. if int i < pos then CHR ''#'' else if int i = pos then CHR ''>'' else CHR ''.'') [0..<50]"

text \<open>ANSI escape sequences; \<open>left << setw(12)\<close> pads on the right.\<close>

definition ansi :: "string \<Rightarrow> string" where
  "ansi code = char_of (27 :: nat) # ''['' @ code"

definition newline :: string where
  "newline = [char_of (10 :: nat)]"

definition left_setw :: "nat \<Rightarrow> string \<Rightarrow> string" where
  "left_setw n x = x @ replicate (n - length x) CHR '' ''"

definition spinner :: string where
  "spinner = [CHR ''|'', CHR ''/'', CHR ''-'', char_of (92 :: nat)]"

text \<open>The three lines for a percentage and a bar position, the speed, the bytes so far and all bytes.\<close>

definition display_lines :: "string \<Rightarrow> nat \<Rightarrow> int \<Rightarrow> int \<Rightarrow> string \<Rightarrow> string \<Rightarrow> string \<Rightarrow> string" where
  "display_lines name spin p pos rate so_far all =
       ansi ''H'' @ ansi ''1;36m'' @ ''[ Downloading ]'' @ ansi ''0m'' @ '' '' @ name @ ansi ''K'' @ newline
       @ ansi ''1;33m'' @ ''['' @ bar pos @ '']'' @ ansi ''0m'' @ '' ''
       @ ansi ''1;37m'' @ to_string p @ ''%'' @ ansi ''0m'' @ '' ''
       @ ansi ''1;35m'' @ [spinner ! spin] @ ansi ''0m'' @ ansi ''K'' @ newline
       @ ansi ''1;32m'' @ ''Speed: '' @ ansi ''0m'' @ left_setw 12 (rate @ ''/s'')
       @ '' '' @ ansi ''1;34m'' @ ''Downloaded: '' @ ansi ''0m'' @ so_far
       @ '' / '' @ all @ ansi ''K'' @ newline"

text \<open>
  \<open>bytes_downloaded\<close> is loaded twice: \<open>s\<close> are the counters when percentage and bar
  are computed, \<open>loaded\<close> is its value when the third line is printed.
\<close>

definition display_text :: "string \<Rightarrow> nat \<Rightarrow> u64 \<Rightarrow> speed \<Rightarrow> u64 \<Rightarrow> string res" where
  "display_text name spin current s loaded =
     res_bind (percent s) (\<lambda>p. res_bind (bar_pos s) (\<lambda>pos. Inr (
       display_lines name spin p pos (FormatBytes (fl (to_double current * 5)))
         (FormatBytes (to_double loaded)) (FormatBytes (to_double (total_bytes s))))))"

text \<open>
  One turn of the loop: the text, the next spinner position, the counters after it. Other
  threads may add \<open>b1\<close> bytes between the exchange and the first load and \<open>b2\<close> bytes
  between the two loads.
\<close>

definition refresh :: "string \<Rightarrow> u64 \<times> u64 \<Rightarrow> nat \<times> speed \<Rightarrow> string res \<times> nat \<times> speed" where
  "refresh name added d =
     (case d of (spin, s) \<Rightarrow> case added of (b1, b2) \<Rightarrow> case speed_exchange s of (current, s') \<Rightarrow>
        let s1 = speed_add s' b1; s2 = speed_add s1 b2
        in (display_text name spin current s1 (bytes_downloaded s2), (spin + 1) mod 4, s2))"

text \<open>What is printed before the loop and by the destructor.\<close>

definition display_start :: string where
  "display_start = ansi ''2J'' @ ansi ''1;1H'' @ ansi ''?25l''"

definition display_stop :: string where
  "display_stop = ansi ''?25h'' @ newline"

text \<open>
  The output over a history of additions and refreshes, each with what is added meanwhile, up to
  the first fault.
\<close>

datatype display_event = Counted u64 | Refreshed u64 u64

fun display_run :: "string \<Rightarrow> display_event list \<Rightarrow> nat \<times> speed \<Rightarrow> string res" where
  "display_run name [] d = Inr display_stop"
| "display_run name (Counted b # es) (spin, s) = display_run name es (spin, speed_add s b)"
| "display_run name (Refreshed b1 b2 # es) d =
     (case refresh name (b1, b2) d of (shown, d') \<Rightarrow>
        res_bind shown (\<lambda>t. res_bind (display_run name es d') (\<lambda>rest. Inr (t @ rest))))"

definition display_output :: "string \<Rightarrow> u64 \<Rightarrow> display_event list \<Rightarrow> string res" where
  "display_output name tot es = res_bind (display_run name es (0, Speed tot)) (\<lambda>t. Inr (display_start @ t))"

section \<open>Rounding\<close>

lemma bits_le: "n < 2 ^ k \<Longrightarrow> bits n \<le> k"
proof (induction k arbitrary: n)
  case 0
  then show ?case by (simp add: bits.simps)
next
  case (Suc k)
  then have "bits (n div 2) \<le> k"
    by simp
  then show ?case
    by (simp add: bits.simps [of n])
qed

lemma round_even_of_int [simp]: "round_even (of_int k) = k"
  by (simp add: round_even_def)

lemma round_even_le: "x \<le> of_int k \<Longrightarrow> round_even x \<le> k"
proof -
  assume x: "x \<le> of_int k"
  show ?thesis
  proof (cases "x = of_int k")
    case False
    then have "\<lfloor>x\<rfloor> < k"
      using x by (simp add: floor_less_iff)
    then show ?thesis
      by (simp add: round_even_def Let_def)
  qed simp
qed

lemma round_even_nonneg: "0 \<le> x \<Longrightarrow> 0 \<le> round_even x"
  by (simp add: round_even_def Let_def)

lemma ulp_exp_le:
  assumes "0 < x" and "x < 2 ^ k" and "k \<le> 53"
  shows "ulp_exp x \<le> int k - 53 \<or> ulp_exp x \<le> - 52"
proof (cases "1 \<le> x")
  case True
  have "\<lfloor>x\<rfloor> < 2 ^ k"
    using assms(2) by (simp add: floor_less_iff)
  then have "nat \<lfloor>x\<rfloor> < 2 ^ k"
    using True by (simp add: nat_less_iff)
  then show ?thesis
    using bits_le [of "nat \<lfloor>x\<rfloor>" k] True by (simp add: ulp_exp_def)
qed (simp add: ulp_exp_def)

text \<open>With an exponent that is not positive, rounding is on a grid that contains the integers.\<close>

lemma fl_grid:
  assumes "ulp_exp x = - int q" and "x \<noteq> 0"
  shows "fl x = of_int (round_even (x * 2 ^ q)) / 2 ^ q"
  using assms by (simp add: fl_def power_int_minus divide_simps)

lemma fl_bounds:
  assumes "0 \<le> x" and "x \<le> of_nat n" and "n < 2 ^ 53"
  shows "0 \<le> fl x" "fl x \<le> of_nat n"
proof -
  have "0 \<le> fl x \<and> fl x \<le> of_nat n"
  proof (cases "x = 0")
    case False
    have "x < 2 ^ 53"
      using assms(2,3) by (metis of_nat_less_iff of_nat_numeral of_nat_power order_le_less_trans)
    then have "ulp_exp x \<le> 0"
      using ulp_exp_le [of x 53] False assms(1) by auto
    then obtain q where q: "ulp_exp x = - int q"
      by (metis minus_minus nonneg_int_cases neg_0_le_iff_le)
    have "x * 2 ^ q \<le> of_int (int n * 2 ^ q)"
      using assms(2) by simp
    then have "round_even (x * 2 ^ q) \<le> int n * 2 ^ q"
      by (rule round_even_le)
    then have "(of_int (round_even (x * 2 ^ q)) :: rat) \<le> of_int (int n * 2 ^ q)"
      by (simp only: of_int_le_iff)
    moreover have "0 \<le> round_even (x * 2 ^ q)"
      using assms(1) by (simp add: round_even_nonneg)
    ultimately show ?thesis
      unfolding fl_grid [OF q False] by (simp add: pos_divide_le_eq)
  qed (simp add: fl_def)
  then show "0 \<le> fl x" "fl x \<le> of_nat n"
    by simp_all
qed

lemma fl_exact:
  assumes "x = of_nat n / 2 ^ r" and "n < 2 ^ 53" and "r = 0 \<or> (1 \<le> x \<and> r \<le> 53)"
  shows "fl x = x"
proof (cases "n = 0")
  case False
  then have x: "0 < x"
    using assms(1) by simp
  have n: "(of_nat n :: rat) < 2 ^ 53"
    using assms(2) by (metis of_nat_less_iff of_nat_numeral of_nat_power)
  have "ulp_exp x \<le> - int r"
  proof (cases "r = 0")
    case True
    then show ?thesis
      using ulp_exp_le [of x 53] x n assms(1) by auto
  next
    case False
    then have r: "1 \<le> x" "r \<le> 53"
      using assms(3) by simp_all
    have e: "(2 :: rat) ^ 53 = 2 ^ (53 - r) * 2 ^ r"
      using r(2) by (simp flip: power_add)
    have "x < 2 ^ (53 - r)"
      using n unfolding assms(1) e by (simp only: pos_divide_less_eq zero_less_power zero_less_numeral)
    then have "nat \<lfloor>x\<rfloor> < 2 ^ (53 - r)"
      using r(1) by (simp add: floor_less_iff nat_less_iff)
    then have "bits (nat \<lfloor>x\<rfloor>) \<le> 53 - r"
      by (rule bits_le)
    then show ?thesis
      using r by (simp add: ulp_exp_def)
  qed
  then have q: "ulp_exp x = - int (nat (- ulp_exp x))" "r \<le> nat (- ulp_exp x)"
    by simp_all
  let ?q = "nat (- ulp_exp x)"
  have "(2 :: rat) ^ ?q = 2 ^ (?q - r) * 2 ^ r"
    using q(2) by (simp flip: power_add)
  then have e: "x * 2 ^ ?q = of_int (int n * 2 ^ (?q - r))"
    using assms(1) by simp
  have "fl x = x * 2 ^ ?q / 2 ^ ?q"
    using fl_grid [OF q(1)] x unfolding e round_even_of_int by simp
  then show ?thesis
    by simp
qed (use assms(1) in \<open>simp add: fl_def\<close>)

section \<open>What the display shows\<close>

lemma fl_of_nat: "n < 2 ^ 53 \<Longrightarrow> fl (of_nat n) = of_nat n"
  by (rule fl_exact [where r = 0]) simp_all

lemma to_double_exact: "unat n < 2 ^ 53 \<Longrightarrow> to_double n = of_nat (unat n)"
  unfolding to_double_def by (rule fl_of_nat)

lemma double_to_int_le:
  assumes "0 \<le> x" and "x \<le> of_nat n" and "n < 2 ^ 31"
  shows "\<exists>p. double_to_int x = Inr p \<and> 0 \<le> p \<and> p \<le> int n \<and> (x = of_nat n \<longrightarrow> p = int n)"
proof -
  have l: "\<lfloor>x\<rfloor> \<le> int n"
    using assms(2) by (simp add: floor_le_iff)
  have "int n < 2 ^ 31"
    using assms(3) by simp
  with l have "\<lfloor>x\<rfloor> < 2 ^ 31"
    by (rule order.strict_trans1)
  note this l
  then show ?thesis
    using assms(1) unfolding double_to_int_def by auto
qed

lemma ulp_exp_grid:
  assumes "0 < x" and "x < 2 ^ k" and "1 \<le> k" and "k \<le> 53"
  shows "\<exists>q. ulp_exp x = - int q \<and> 53 - k \<le> q"
proof -
  have "ulp_exp x \<le> int k - 53"
    using ulp_exp_le [OF assms(1,2,4)] assms(3) by auto
  then have "ulp_exp x = - int (nat (- ulp_exp x))" "53 - k \<le> nat (- ulp_exp x)"
    using assms(4) by simp_all
  then show ?thesis by blast
qed

lemma round_even_error: "\<bar>of_int (round_even x) - x\<bar> \<le> 1 / 2"
proof -
  have "of_int \<lfloor>x\<rfloor> \<le> x" "x < of_int \<lfloor>x\<rfloor> + 1"
    by linarith+
  moreover have "of_int (round_even x) = (of_int \<lfloor>x\<rfloor> :: rat) \<and> x - of_int \<lfloor>x\<rfloor> \<le> 1 / 2
      \<or> of_int (round_even x) = (of_int \<lfloor>x\<rfloor> + 1 :: rat) \<and> 1 / 2 \<le> x - of_int \<lfloor>x\<rfloor>"
    by (auto simp: round_even_def Let_def)
  ultimately show ?thesis
    by linarith
qed

lemma scaled_abs: "0 < c \<Longrightarrow> \<bar>a / c - x\<bar> = \<bar>a - x * c\<bar> / c" for c :: rat
proof -
  assume c: "0 < c"
  then have "a / c - x = (a - x * c) / c"
    by (simp add: field_simps)
  then show ?thesis
    using c by (simp add: abs_divide)
qed

lemma fl_error:
  assumes "0 \<le> x" and "x < 2 ^ k" and "1 \<le> k" and "k \<le> 53"
  shows "\<bar>fl x - x\<bar> \<le> 1 / 2 ^ (54 - k)"
proof (cases "x = 0")
  case False
  obtain q where q: "ulp_exp x = - int q" "53 - k \<le> q"
    using ulp_exp_grid [of x k] assms False by auto
  have "\<bar>fl x - x\<bar> = \<bar>of_int (round_even (x * 2 ^ q)) - x * 2 ^ q\<bar> / 2 ^ q"
    unfolding fl_grid [OF q(1) False] by (rule scaled_abs) simp
  also have "\<dots> \<le> (1 / 2) / 2 ^ q"
    by (intro divide_right_mono round_even_error) simp
  also have "\<dots> = 1 / 2 ^ Suc q"
    by simp
  also have "\<dots> \<le> 1 / 2 ^ (54 - k)"
    using q(2) assms(4) by (intro divide_left_mono power_increasing) simp_all
  finally show ?thesis .
qed (simp add: fl_def)

text \<open>A number that is below an integer by more than half a grid step is rounded to one below it.\<close>

lemma fl_less:
  assumes "0 \<le> x" and "x \<le> of_nat n - of_nat n / 2 ^ 53" and "2 ^ k < 2 * n" and "n < 2 ^ k" and "1 \<le> k" and "k \<le> 53"
  shows "fl x < of_nat n"
proof (cases "x = 0")
  case False
  have n: "(of_nat n :: rat) < 2 ^ k" "(2 :: rat) ^ k < 2 * of_nat n"
    using assms(3,4) by (metis of_nat_less_iff of_nat_mult of_nat_numeral of_nat_power)+
  have "x \<le> of_nat n"
    using assms(2) by (rule order_trans) simp
  then have "x < 2 ^ k"
    using n(1) by (rule order_le_less_trans)
  then obtain q where q: "ulp_exp x = - int q" "53 - k \<le> q"
    using ulp_exp_grid [of x k] assms(1,5,6) False by auto
  have "(2 :: rat) ^ 53 = 2 ^ k * 2 ^ (53 - k)"
    using assms(6) by (simp flip: power_add)
  also have "\<dots> \<le> 2 ^ k * 2 ^ q"
    using q(2) by (intro mult_left_mono power_increasing) simp_all
  also have "\<dots> < 2 * of_nat n * 2 ^ q"
    using n(2) by simp
  finally have "(1 :: rat) / 2 < of_nat n * 2 ^ q / 2 ^ 53"
    by simp
  moreover have "x * 2 ^ q \<le> (of_nat n - of_nat n / 2 ^ 53) * 2 ^ q"
    using assms(2) by (rule mult_right_mono) simp
  moreover have "(of_nat n - of_nat n / 2 ^ 53) * 2 ^ q = of_nat n * 2 ^ q - of_nat n * 2 ^ q / (2 ^ 53 :: rat)"
    by (simp add: left_diff_distrib)
  ultimately have "x * 2 ^ q < of_nat n * 2 ^ q - 1 / 2"
    by linarith
  then have "of_int (round_even (x * 2 ^ q)) < (of_nat n * 2 ^ q :: rat)"
    using round_even_error [of "x * 2 ^ q"] by linarith
  then show ?thesis
    unfolding fl_grid [OF q(1) False] by (simp add: pos_divide_less_eq)
qed (use assms(3) in \<open>simp add: fl_def\<close>)

lemma fl_below_one:
  assumes "0 \<le> x" and "x \<le> 1 - 1 / 2 ^ 53"
  shows "fl x \<le> 1 - 1 / 2 ^ 53"
proof (cases "x = 0")
  case False
  then have x: "0 < x" "x < 1"
    using assms by auto
  then have "1 < \<lceil>1 / x\<rceil>"
    by (simp add: less_ceiling_iff)
  then have "1 \<le> bits (nat (\<lceil>1 / x\<rceil> - 1))"
    by (simp add: bits.simps [of "nat (\<lceil>1 / x\<rceil> - 1)"])
  then have "ulp_exp x \<le> - 53"
    using x(2) by (simp add: ulp_exp_def)
  then obtain q where q: "ulp_exp x = - int q" "53 \<le> q"
    by (intro that [of "nat (- ulp_exp x)"]) simp_all
  have e: "(2 :: rat) ^ q = 2 ^ (q - 53) * 2 ^ 53"
    using q(2) by (subst power_add [symmetric]) simp
  have "x * 2 ^ q \<le> (1 - 1 / 2 ^ 53) * 2 ^ q"
    using assms(2) by (rule mult_right_mono) simp
  also have "\<dots> = of_int (2 ^ (q - 53) * (2 ^ 53 - 1))"
    unfolding e by simp
  finally have "round_even (x * 2 ^ q) \<le> 2 ^ (q - 53) * (2 ^ 53 - 1)"
    by (rule round_even_le)
  then have "(of_int (round_even (x * 2 ^ q)) :: rat) \<le> of_int (2 ^ (q - 53) * (2 ^ 53 - 1))"
    by (simp only: of_int_le_iff)
  also have "\<dots> = (1 - 1 / 2 ^ 53) * 2 ^ q"
    unfolding e by simp
  finally show ?thesis
    unfolding fl_grid [OF q(1) False] by (simp only: pos_divide_le_eq zero_less_power zero_less_numeral)
qed (simp add: fl_def)

text \<open>
  \<open>p\<close> shows the share \<open>d / t\<close> on a scale up to \<open>n\<close>: it is in range, at the end
  exactly when all is there, and otherwise the share cut to an integer, where a rounding error below
  a thousandth may count.
\<close>

definition shows_share :: "nat \<Rightarrow> nat \<Rightarrow> nat \<Rightarrow> int \<Rightarrow> bool" where
  "shows_share n d t p \<longleftrightarrow> 0 \<le> p \<and> p \<le> int n
     \<and> (if t = 0 then p = 0
        else (p = int n \<longleftrightarrow> d = t)
          \<and> of_int p \<le> of_nat n * of_nat d / of_nat t + (1 / 1000 :: rat)
          \<and> of_nat n * of_nat d / of_nat t < of_int p + 1 + (1 / 1000 :: rat))"

text \<open>The two roundings, of the quotient and of the product, on the way to a share.\<close>

lemma share_error:
  assumes "0 \<le> r" and "r \<le> 1" and "n < 2 ^ k" and "1 \<le> k" and "k \<le> 7"
  shows "\<bar>fl (of_nat n * fl r) - of_nat n * r\<bar> \<le> 1 / 1000"
proof -
  have x: "0 \<le> fl r" "fl r \<le> 1" "\<bar>fl r - r\<bar> \<le> 1 / 2 ^ 53"
    using fl_bounds [of r 1] fl_error [of r 1] assms(1,2) by simp_all
  have n: "(of_nat n :: rat) < 2 ^ k"
    using assms(3) by (metis of_nat_less_iff of_nat_numeral of_nat_power)
  have "(2 :: rat) ^ k \<le> 2 ^ 7"
    using assms(5) by (intro power_increasing) simp_all
  then have "(2 :: rat) ^ k \<le> 128"
    by simp
  with n have n': "(of_nat n :: rat) \<le> 128"
    by linarith
  let ?y = "of_nat n * fl r"
  have y: "0 \<le> ?y" "?y \<le> of_nat n"
    using x(1,2) by (simp_all add: mult_left_le)
  then have "\<bar>fl ?y - ?y\<bar> \<le> 1 / 2 ^ (54 - k)"
    using fl_error [of ?y k] order_le_less_trans [OF y(2) n] assms(4,5) by simp
  also have "\<dots> \<le> 1 / 2 ^ 47"
    using assms(5) by (intro divide_left_mono power_increasing) simp_all
  finally have e: "\<bar>fl ?y - ?y\<bar> \<le> 1 / 2000"
    by (rule order_trans) simp
  have "\<bar>?y - of_nat n * r\<bar> = of_nat n * \<bar>fl r - r\<bar>"
    by (simp add: abs_mult flip: right_diff_distrib)
  also have "\<dots> \<le> 128 * (1 / 2 ^ 53)"
    using n' x(3) by (intro mult_mono) simp_all
  finally have "\<bar>?y - of_nat n * r\<bar> \<le> 1 / 2000"
    by (rule order_trans) simp
  with e show ?thesis
    by linarith
qed

lemma share_end:
  assumes "d < t" and "t < 2 ^ 53" and "2 ^ k < 2 * n" and "n < 2 ^ k" and "1 \<le> k" and "k \<le> 53"
  shows "fl (of_nat n * fl (of_nat d / of_nat t)) < of_nat n"
proof -
  let ?r = "of_nat d / of_nat t :: rat"
  have "(of_nat (Suc d) :: rat) \<le> of_nat t"
    using assms(1) by (simp only: of_nat_le_iff Suc_le_eq)
  then have "?r \<le> (of_nat t - 1) / of_nat t"
    by (intro divide_right_mono) simp_all
  also have "\<dots> = 1 - 1 / of_nat t"
    using assms(1) by (simp add: diff_divide_distrib)
  also have "\<dots> \<le> 1 - 1 / 2 ^ 53"
  proof (intro diff_left_mono divide_left_mono)
    show "(of_nat t :: rat) \<le> 2 ^ 53"
      using assms(2) by (metis less_imp_le of_nat_le_iff of_nat_numeral of_nat_power)
  qed (use assms(1) in simp_all)
  finally have "fl ?r \<le> 1 - 1 / 2 ^ 53"
    by (intro fl_below_one) simp_all
  then have "of_nat n * fl ?r \<le> of_nat n * (1 - 1 / 2 ^ 53)"
    by (rule mult_left_mono) simp
  moreover have "0 \<le> fl ?r"
    using fl_bounds(1) [of ?r 1] assms(1) by simp
  ultimately show ?thesis
    using fl_less [OF _ _ assms(3-6)] by (simp add: right_diff_distrib)
qed

lemma share_shown:
  assumes "d \<le> t" and "0 < t" and "t < 2 ^ 53" and "2 ^ k < 2 * n" and "n < 2 ^ k" and "1 \<le> k" and "k \<le> 7"
  shows "\<exists>p. double_to_int (fl (of_nat n * fl (of_nat d / of_nat t))) = Inr p \<and> shows_share n d t p"
proof -
  let ?r = "of_nat d / of_nat t :: rat"
  let ?f = "fl (of_nat n * fl ?r)"
  have r: "0 \<le> ?r" "?r \<le> 1"
    using assms(1,2) by simp_all
  have "n < 2 ^ 7"
    using assms(5,7) power_increasing [of k 7 "2 :: nat"] by simp
  then have n: "n < 2 ^ 31" "n < 2 ^ 53"
    by simp_all
  have "0 \<le> of_nat n * fl ?r" "of_nat n * fl ?r \<le> of_nat n"
    using fl_bounds [of ?r 1] r by (simp_all add: mult_left_le)
  then have f: "0 \<le> ?f" "?f \<le> of_nat n"
    using fl_bounds n(2) by blast+
  obtain p where p: "double_to_int ?f = Inr p" "0 \<le> p" "p \<le> int n"
    using double_to_int_le [OF f n(1)] by blast
  then have fp: "p = \<lfloor>?f\<rfloor>"
    by (simp add: double_to_int_def split: if_splits)
  have "p = int n \<longleftrightarrow> d = t"
  proof (cases "d = t")
    case True
    then have "fl ?r = 1"
      using assms(2) fl_of_nat [of 1] by simp
    then show ?thesis
      using True fp fl_of_nat [OF n(2)] by simp
  next
    case False
    then have "?f < of_nat n"
      using share_end [of d t k n] assms by simp
    then have "p < int n"
      unfolding fp by (simp add: floor_less_iff)
    then show ?thesis
      using False by simp
  qed
  moreover have "of_int p \<le> of_nat n * ?r + 1 / 1000" "of_nat n * ?r < of_int p + 1 + 1 / 1000"
    using share_error [OF r assms(5-7)] unfolding fp by linarith+
  ultimately show ?thesis
    using p assms(2) by (intro exI [of _ p]) (simp add: shows_share_def)
qed

lemma length_bar [simp]: "length (bar pos) = 50"
  by (simp add: bar_def)

lemma bar_filled:
  assumes "0 \<le> pos" and "pos \<le> 50"
  shows "count_list (bar pos) CHR ''#'' = nat pos"
proof -
  obtain n where n: "pos = int n" "n \<le> 50"
    using assms by (metis nat_int nonneg_int_cases of_nat_le_iff of_nat_numeral)
  have "[0..<50] = [0..<n] @ [n..<50]"
    using upt_add_eq_append [of 0 n "50 - n"] n(2) by simp
  then have "bar pos = map (\<lambda>i. CHR ''#'') [0..<n]
      @ map (\<lambda>i. if i = n then CHR ''>'' else CHR ''.'') [n..<50]"
    unfolding bar_def n(1) by simp
  moreover have "count_list (map (\<lambda>i. CHR ''#'') xs) CHR ''#'' = length xs" for xs :: "nat list"
    by (induction xs) simp_all
  moreover have "count_list (map (\<lambda>i. if i = n then CHR ''>'' else CHR ''.'') xs) CHR ''#'' = 0" for xs
    by (induction xs) simp_all
  ultimately show ?thesis
    by (simp add: n(1))
qed

text \<open>Dividing by 1024 is exact, so only the last step of \<open>FormatBytes\<close>, the printing, rounds.\<close>

lemma scale_units_exact:
  "i \<le> 3 \<Longrightarrow> n < 2 ^ 53 \<Longrightarrow> i = 0 \<or> 1024 ^ i \<le> n \<Longrightarrow>
   \<exists>j\<ge>i. j \<le> 3 \<and> scale_units i (of_nat n / 1024 ^ i) = (j, of_nat n / 1024 ^ j)
     \<and> (j = 3 \<or> n < 1024 ^ (j + 1)) \<and> (j = 0 \<or> 1024 ^ j \<le> n)"
proof (induction "3 - i" arbitrary: i)
  case 0
  then have "i = 3" by simp
  then show ?case
    using 0 by (auto simp: scale_units.simps [of 3])
next
  case (Suc m)
  let ?x = "of_nat n / 1024 ^ i :: rat"
  show ?case
  proof (cases "1024 \<le> ?x")
    case True
    then have "1024 * 1024 ^ i \<le> (of_nat n :: rat)"
      by (simp only: pos_le_divide_eq zero_less_power zero_less_numeral)
    then have "(1024 :: rat) ^ (i + 1) \<le> of_nat n"
      by simp
    then have n: "1024 ^ (i + 1) \<le> n"
      by (metis of_nat_le_iff of_nat_numeral of_nat_power)
    have "(2 :: rat) ^ (10 * (i + 1)) = 1024 ^ (i + 1)"
      unfolding power_mult by simp
    then have x: "?x / 1024 = of_nat n / 2 ^ (10 * (i + 1))"
      by simp
    have "1 \<le> ?x / 1024"
      using True by (simp only: pos_le_divide_eq zero_less_numeral mult_1)
    moreover have lt: "i < 3"
      using Suc.hyps(2) by simp
    then have "10 * (i + 1) \<le> 53"
      by simp
    ultimately have "fl (?x / 1024) = ?x / 1024"
      using Suc.prems(2) by (intro fl_exact [OF x]) simp_all
    then have s: "scale_units i ?x = scale_units (i + 1) (of_nat n / 1024 ^ (i + 1))"
      using True lt by (subst scale_units.simps) (simp add: mult.commute)
    have "m = 3 - (i + 1)" "i + 1 \<le> 3"
      using Suc.hyps(2) by simp_all
    then obtain j where "i + 1 \<le> j" "j \<le> 3"
        "scale_units (i + 1) (of_nat n / 1024 ^ (i + 1)) = (j, of_nat n / 1024 ^ j)"
        "j = 3 \<or> n < 1024 ^ (j + 1)" "j = 0 \<or> 1024 ^ j \<le> n"
      using Suc.hyps(1) [of "i + 1"] Suc.prems(2) n by blast
    then show ?thesis
      unfolding s by (intro exI [of _ j]) simp
  next
    case False
    then have "of_nat n < (1024 :: rat) * 1024 ^ i"
      by (simp only: not_le pos_divide_less_eq zero_less_power zero_less_numeral)
    then have "of_nat n < (1024 :: rat) ^ (i + 1)"
      by simp
    then have "n < 1024 ^ (i + 1)"
      by (metis of_nat_less_iff of_nat_numeral of_nat_power)
    then show ?thesis
      using False Suc.prems by (auto simp: scale_units.simps [of i])
  qed
qed

text \<open>The unit of a byte count, and how the count is shown in it.\<close>

definition unit_index :: "nat \<Rightarrow> nat" where
  "unit_index n = (if n < 1024 then 0 else if n < 1024 ^ 2 then 1 else if n < 1024 ^ 3 then 2 else 3)"

definition amount :: "nat \<Rightarrow> string" where
  "amount n = show_fixed2 (of_nat n / 1024 ^ unit_index n) @ '' '' @ byte_units ! unit_index n"

lemma unit_index_unique:
  assumes "j \<le> 3" and "j = 3 \<or> n < 1024 ^ (j + 1)" and "j = 0 \<or> 1024 ^ j \<le> n"
  shows "j = unit_index n"
proof -
  have "j = 0 \<or> j = 1 \<or> j = 2 \<or> j = 3"
    using assms(1) by linarith
  then show ?thesis
    using assms(2,3) by (auto simp: unit_index_def)
qed

lemma FormatBytes_amount: "unat n < 2 ^ 53 \<Longrightarrow> FormatBytes (to_double n) = amount (unat n)"
proof -
  assume n: "unat n < 2 ^ 53"
  obtain j where "j \<le> 3" "scale_units 0 (of_nat (unat n)) = (j, of_nat (unat n) / 1024 ^ j)"
      "j = 3 \<or> unat n < 1024 ^ (j + 1)" "j = 0 \<or> 1024 ^ j \<le> unat n"
    using scale_units_exact [of 0 "unat n"] n by auto
  moreover from this have "j = unit_index (unat n)"
    using unit_index_unique by blast
  ultimately have "scale_units 0 (of_nat (unat n)) = (unit_index (unat n), of_nat (unat n) / 1024 ^ unit_index (unat n))"
    by simp
  then show ?thesis
    unfolding FormatBytes_def amount_def to_double_exact [OF n] by (simp only: prod.case)
qed

lemma shares_shown:
  fixes s :: speed
  defines "d \<equiv> unat (bytes_downloaded s)" and "t \<equiv> unat (total_bytes s)"
  assumes "d \<le> t" and "t < 2 ^ 53"
  shows "\<exists>p pos. percent s = Inr p \<and> shows_share 100 d t p \<and> bar_pos s = Inr pos \<and> shows_share 50 d t pos"
proof (cases "t = 0")
  case True
  then have "progress s = 0"
    using word_gt_0 [of "total_bytes s"] by (simp add: t_def progress_def unat_eq_0)
  then show ?thesis
    using True by (simp add: percent_def bar_pos_def double_to_int_def fl_def shows_share_def)
next
  case False
  then have t: "0 < t" "0 < total_bytes s"
    by (simp_all add: t_def word_gt_0 unat_eq_0 unat_gt_0)
  have g: "progress s = fl (of_nat d / of_nat t)"
    using t(2) assms(3,4) by (simp add: progress_def to_double_exact d_def t_def)
  obtain p where p: "double_to_int (fl (of_nat 100 * progress s)) = Inr p" "shows_share 100 d t p"
    using share_shown [OF assms(3) t(1) assms(4), of 7 100] g by auto
  obtain pos where pos: "double_to_int (fl (of_nat 50 * progress s)) = Inr pos" "shows_share 50 d t pos"
    using share_shown [OF assms(3) t(1) assms(4), of 6 50] g by auto
  have "p \<le> 100" "pos \<le> 50"
    using p(2) pos(2) by (simp_all add: shows_share_def)
  then show ?thesis
    using p pos by (simp add: percent_def bar_pos_def mult.commute)
qed

section \<open>Properties\<close>

text \<open>
  C36: the display tells the truth. While what has been counted, with what other threads add
  during the refresh, is no more than the total, and that is below \<open>2 ^ 53\<close>, a refresh is free of
  undefined behaviour and shows: a percentage and a bar of 50 cells that give the share of the bytes
  counted at the first load cut to an integer, up to a rounding error below a thousandth, and that
  are at their end if and only if the download is complete (both are 0 if the total is 0); the count of the second load and
  the total, each in the largest unit up to GB that leaves a number of at least 1, with only the two
  printed decimals rounded.
\<close>

theorem display_in_range:
  fixes s :: speed
  defines "d \<equiv> unat (bytes_downloaded s)" and "t \<equiv> unat (total_bytes s)"
  assumes "d + unat b1 + unat b2 \<le> t" and "t < 2 ^ 53"
  shows "\<exists>p pos. fst (refresh name (b1, b2) (spin, s)) = Inr (display_lines name spin p pos
        (FormatBytes (fl (to_double (session_bytes s) * 5))) (amount (d + unat b1 + unat b2)) (amount t))
    \<and> shows_share 100 (d + unat b1) t p \<and> shows_share 50 (d + unat b1) t pos
    \<and> length (bar pos) = 50 \<and> count_list (bar pos) CHR ''#'' = nat pos"
proof -
  define s1 where "s1 = speed_add (snd (speed_exchange s)) b1"
  have u: "unat (bytes_downloaded s + b1) = d + unat b1" "unat (bytes_downloaded s + b1 + b2) = d + unat b1 + unat b2"
    using assms(3,4) by (simp_all add: d_def unat_word_ariths)
  then have s1: "unat (bytes_downloaded s1) = d + unat b1" "unat (total_bytes s1) = t" "total_bytes s1 = total_bytes s"
    by (simp_all add: s1_def speed_add_def speed_exchange_def t_def)
  then obtain p pos where p: "percent s1 = Inr p" "shows_share 100 (d + unat b1) t p" "bar_pos s1 = Inr pos"
      "shows_share 50 (d + unat b1) t pos"
    using shares_shown [of s1] assms(3,4) by auto
  have "fst (refresh name (b1, b2) (spin, s)) = display_text name spin (session_bytes s) s1 (bytes_downloaded s + b1 + b2)"
    by (simp add: refresh_def speed_exchange_def speed_add_def s1_def Let_def)
  then have "fst (refresh name (b1, b2) (spin, s)) = Inr (display_lines name spin p pos
      (FormatBytes (fl (to_double (session_bytes s) * 5))) (amount (d + unat b1 + unat b2)) (amount t))"
    using p(1,3) u(2) s1(3) assms(3,4) FormatBytes_amount [of "bytes_downloaded s + b1 + b2"] FormatBytes_amount [of "total_bytes s"]
    by (simp add: display_text_def t_def)
  moreover have "count_list (bar pos) CHR ''#'' = nat pos"
    using p(4) by (intro bar_filled) (simp_all add: shows_share_def)
  ultimately show ?thesis
    using p(2,4) by auto
qed

theorem display_in_range_witness:
  "\<exists>shown. fst (refresh ''f'' (2, 1) (0, \<lparr>bytes_downloaded = 5, total_bytes = 8, session_bytes = 5\<rparr>)) = Inr shown"
  using display_in_range [of "\<lparr>bytes_downloaded = 5, total_bytes = 8, session_bytes = 5\<rparr>" 2 1 "''f''" 0] by auto

end
