(* ===== verification/Descriptors.thy ===== *)
theory Descriptors
  imports Farm
begin

text \<open>
  The descriptors of a download. \<open>Downloader::Start\<close> makes the connections, whose
  \<open>unique_ptr\<close> owns the socket, and the farm; when it is left, the farm and the connections
  are destroyed. What is opened and closed on the way is a list of resource events.
\<close>

section \<open>What is opened and closed\<close>

text \<open>
  \<open>Start\<close> has two lists of the same connections: \<open>conns\<close>, and the registered ones
  in the farm. A connection is registered when it has a socket and \<open>epoll_ctl\<close> succeeds.
\<close>

definition connected :: "(nat \<Rightarrow> os_answers \<times> int) \<Rightarrow> peer list \<Rightarrow> nat \<Rightarrow> connection" where
  "connected ans ps i = Connect (fst (ans i)) (make_connections ps ! i)"

definition registered :: "(nat \<Rightarrow> os_answers \<times> int) \<Rightarrow> peer list \<Rightarrow> nat \<Rightarrow> bool" where
  "registered ans ps i \<longleftrightarrow> 0 \<le> GetSocketFd (connected ans ps i) \<and> 0 \<le> snd (ans i)"

text \<open>The events of \<open>Connect\<close>: those of the constructor of \<open>TcpClient\<close>.\<close>

definition connect_events :: "os_answers \<Rightarrow> connection \<Rightarrow> os_event list" where
  "connect_events os c = fst (TcpClient (ip (c_peer c)) (uint (peer_port (c_peer c))) os)"

text \<open>Setting \<open>socket\<close> to \<open>nullptr\<close>, or destroying the connection, destroys its \<open>TcpClient\<close>.\<close>

definition drop_socket :: "connection \<Rightarrow> os_event list" where
  "drop_socket c = (case socket c of None \<Rightarrow> [] | Some t \<Rightarrow> transport_destroy (sock t))"

text \<open>A connection \<open>c\<close> that has become \<open>c'\<close> has dropped its socket in between or not.\<close>

definition dropped :: "connection \<Rightarrow> connection \<Rightarrow> os_event list" where
  "dropped c c' = (if socket c' = None then drop_socket c else [])"

text \<open>The connections that \<open>Start\<close> makes, with whether they are registered.\<close>

definition made_for :: "(nat \<Rightarrow> os_answers \<times> int) \<Rightarrow> peer list \<Rightarrow> (connection \<times> bool) list" where
  "made_for ans ps = map (\<lambda>i. (connected ans ps i, registered ans ps i)) [0..<length (make_connections ps)]"

text \<open>
  \<open>conns\<close> at the end: the registered connections are those of the farm, the others are as
  they were made.
\<close>

fun conns_at_end :: "(connection \<times> bool) list \<Rightarrow> connection list \<Rightarrow> connection list" where
  "conns_at_end [] fs = []"
| "conns_at_end ((c, True) # cs) (f # fs) = f # conns_at_end cs fs"
| "conns_at_end ((c, True) # cs) [] = c # conns_at_end cs []"
| "conns_at_end ((c, False) # cs) fs = c # conns_at_end cs fs"

text \<open>Leaving \<open>Start\<close>: the farm is destroyed, then the connections.\<close>

definition leave_start :: "farm \<Rightarrow> connection list \<Rightarrow> os_event list" where
  "leave_start f conns = farm_destroy f @ concat (map drop_socket conns)"

text \<open>All resource events of a run of \<open>Start\<close> that left the loop with the farm \<open>f\<close>.\<close>

definition start_events :: "int \<Rightarrow> (nat \<Rightarrow> os_answers \<times> int) \<Rightarrow> peer list \<Rightarrow> farm \<Rightarrow> os_event list" where
  "start_events ep ans ps f =
     (let n = length (make_connections ps);
          made = made_for ans ps;
          conns = conns_at_end made (connections f)
      in [Opened ep]
         @ concat (map (\<lambda>i. connect_events (fst (ans i)) (make_connections ps ! i)) [0..<n])
         @ concat (map2 dropped (map fst made) conns)
         @ leave_start f conns)"

section \<open>A socket keeps its descriptor\<close>

definition has_fd :: "int \<Rightarrow> connection \<Rightarrow> bool" where
  "has_fd v c \<longleftrightarrow> (\<forall>t. socket c = Some t \<longrightarrow> sock t = v)"

lemma has_fd_cong: "socket c = socket c' \<Longrightarrow> has_fd v c = has_fd v c'"
  by (simp add: has_fd_def)

lemma conn_send_fd: "has_fd v (fst s) \<Longrightarrow> has_fd v (fst (snd (conn_send k data s)))"
  by (auto simp: conn_send_def has_fd_def TcpSend_def send_bytes_def Let_def split: prod.split option.split sum.split if_splits)

lemma finish_piece_fd: "has_fd v (fst s) \<Longrightarrow> has_fd v (fst (snd (finish_piece n s)))"
  by (auto simp: finish_piece_def has_fd_def split: prod.split)

lemma request_block_fd: "has_fd v (fst s) \<Longrightarrow> has_fd v (fst (snd (request_block k s)))"
proof -
  assume f: "has_fd v (fst s)"
  obtain c d where s: "s = (c, d)" by (cases s)
  have *: "has_fd v (fst (snd (act_then (conn_send k data s)
      (\<lambda>(c, d). finish_piece n (c\<lparr>block_offset := block_offset c + l\<rparr>, d)))))" for data n l
    using conn_send_fd [OF f, of k data] finish_piece_fd [of v "(c\<lparr>block_offset := x\<rparr>, d)" n for c x d]
    by (intro act_then_cases [where P = "\<lambda>s. has_fd v (fst s)"]) (auto simp: has_fd_def split: prod.split)
  show ?thesis
    using f * finish_piece_fd [OF f] by (auto simp: request_block_def s Let_def split: sum.split)
qed

lemma find_piece_socket: "socket (fst (snd (find_piece a c d))) = socket c"
proof (induction a c d rule: find_piece.induct)
  case (1 a c d)
  obtain i d' where g: "GetNextPieceToRequest d = (i, d')" by (cases "GetNextPieceToRequest d")
  show ?case
    using 1 [OF g [symmetric]] by (simp add: find_piece.simps [of a c d] g)
qed

lemma RequestNextBlock_fd: "has_fd v (fst s) \<Longrightarrow> has_fd v (fst (snd (RequestNextBlock k s)))"
proof -
  assume f: "has_fd v (fst s)"
  obtain c d where s: "s = (c, d)" by (cases s)
  obtain b t where p: "find_piece 0 c d = (b, t)" by (cases "find_piece 0 c d")
  then have "socket (fst t) = socket c"
    using find_piece_socket [of 0 c d] by simp
  then have "has_fd v (fst t)"
    using f s has_fd_cong [of "fst t" c] by simp
  then show ?thesis
    using f p request_block_fd [of v t k] request_block_fd [of v "(c, d)" k]
    by (cases b) (simp_all add: RequestNextBlock_def s)
qed

lemma has_fd_simps [simp]:
  "has_fd v (c\<lparr>choked := x\<rparr>) = has_fd v c"
  "has_fd v (c\<lparr>peer_pieces := y\<rparr>) = has_fd v c"
  "has_fd v (c\<lparr>recv_buffer := b\<rparr>) = has_fd v c"
  "has_fd v (c\<lparr>handshake_done := h, c_state := st\<rparr>) = has_fd v c"
  "has_fd v (c\<lparr>socket := None\<rparr>)"
  by (simp_all add: has_fd_def)

lemma handle_message_fd: "has_fd v (fst s) \<Longrightarrow> has_fd v (fst (snd (handle_message k mid payload s)))"
proof -
  assume f: "has_fd v (fst s)"
  obtain c d where s: "s = (c, d)" by (cases s)
  have u: "has_fd v c" using f s by simp
  have r: "has_fd v (fst (snd (RequestNextBlock k (c', d'))))" if "has_fd v c'" for c' d'
    using RequestNextBlock_fd [of v "(c', d')"] that by simp
  show ?thesis
    by (simp add: handle_message_def s r u split: sum.split prod.split option.split)
qed

interpretation fd: read_invariant k "\<lambda>s. has_fd v (fst s)" for k v
proof
  show "has_fd v (fst (set_buf b s))" if "has_fd v (fst s)" for s b
    using that by (simp add: set_buf_def)
  show "has_fd v (fst t)" if "has_fd v (fst (c, d))"
    and "conn_send k BuildInterested (c\<lparr>handshake_done := True, c_state := DOWNLOADING\<rparr>, d) = (e, t)" for c d e t
    using conn_send_fd [of v "(c\<lparr>handshake_done := True, c_state := DOWNLOADING\<rparr>, d)" k BuildInterested] that
    by simp
  show "has_fd v (fst t)" if "has_fd v (fst s)" and "handle_message k mid payload s = (e, t)" for s mid payload e t
    using handle_message_fd [OF that(1), of k mid payload] that(2) by simp
  show "has_fd v (fst (c\<lparr>socket := None\<rparr>, d))" for c d
    by simp
qed

lemma OnReadyWrite_fd: "has_fd v (fst s) \<Longrightarrow> has_fd v (fst (OnReadyWrite k s))"
  by (auto simp: OnReadyWrite_def has_fd_def TcpSend_def send_bytes_def Let_def
      split: prod.split option.split sum.split if_splits)

lemma conn_event_fd: "conn_event e s = (None, t) \<Longrightarrow> has_fd v (fst s) \<Longrightarrow> has_fd v (fst t)"
  using OnReadyWrite_fd [of v s "ev_kernel e"] fd.OnReadyRead_holds [of "ev_kernel e" _ _ t v]
  by (auto simp: conn_event_def Let_def split: if_splits option.splits)

text \<open>Over a run, a connection keeps the descriptor it has or drops its socket for good.\<close>

definition same_fd :: "connection \<Rightarrow> connection \<Rightarrow> bool" where
  "same_fd c c' \<longleftrightarrow> (\<forall>t'. socket c' = Some t' \<longrightarrow> (\<exists>t. socket c = Some t \<and> sock t' = sock t))"

lemma same_fd_refl [simp]: "same_fd c c"
  by (simp add: same_fd_def)

lemma conn_event_same_fd:
  assumes "conn_event e (c', d) = (None, t)" and "same_fd c c'"
  shows "same_fd c (fst t)"
proof (cases "socket c'")
  case None
  then have "fst t = c'"
    using conn_event_ages [OF assms(1)] by (simp add: ages_def)
  then show ?thesis
    using assms(2) by simp
next
  case (Some u)
  then have "has_fd (sock u) c'"
    by (simp add: has_fd_def)
  then have t: "has_fd (sock u) (fst t)"
    using conn_event_fd [OF assms(1)] by simp
  obtain w where "socket c = Some w" "sock u = sock w"
    using assms(2) Some by (auto simp: same_fd_def)
  then show ?thesis
    using t unfolding same_fd_def has_fd_def by metis
qed

interpretation run_fd: run_invariant "\<lambda>_ f. list_all2 same_fd cs (connections f) \<and> epfd f = ep" any_event "\<lambda>_ _. 0" for cs ep
proof
  fix n f e and f' :: farm
  assume f: "list_all2 same_fd cs (connections f) \<and> epfd f = ep" "handle_event e f = (None, f')"
  obtain r t where c: "conn_event e (connections f ! ev_conn e, f_downloader f) = (r, t)"
    by (cases "conn_event e (connections f ! ev_conn e, f_downloader f)")
  then have r: "r = None" "ev_conn e < length (connections f)"
      "f' = f\<lparr>connections := (connections f)[ev_conn e := fst t], f_downloader := snd t\<rparr>"
    using f(2) by (auto simp: handle_event_def split: if_splits prod.splits)
  then have "same_fd (cs ! ev_conn e) (fst t)"
    using conn_event_same_fd c f(1) by (simp add: list_all2_conv_all_nth)
  then show "list_all2 same_fd cs (connections f') \<and> epfd f' = ep"
    using f(1) r(2,3) by (auto simp: list_all2_conv_all_nth) (metis nth_list_update_eq nth_list_update_neq)
qed (simp_all add: writer_turn_def)

lemma Run_same_fd:
  assumes "Run chk script f = (r, f')" and "\<forall>flt. r \<noteq> Faulted flt"
  shows "list_all2 same_fd (connections f) (connections f') \<and> epfd f' = epfd f"
  using run_fd.Run_holds [OF assms, of "connections f" "epfd f"] by (simp add: list_all2_refl)

section \<open>The connections of a run\<close>

lemma AddConnection_registers:
  "AddConnection (fst (ans i)) (snd (ans i)) (make_connections ps ! i) f
   = f\<lparr>connections := connections f @ (if registered ans ps i then [connected ans ps i] else [])\<rparr>"
  by (simp add: AddConnection_def registered_def connected_def Let_def)

lemma foldl_AddConnection_registers:
  "foldl (\<lambda>f i. AddConnection (fst (ans i)) (snd (ans i)) (make_connections ps ! i) f) f is
   = f\<lparr>connections := connections f @ map (connected ans ps) (filter (registered ans ps) is)\<rparr>"
  by (induction "is" arbitrary: f) (simp_all add: AddConnection_registers)

lemma started_registers:
  "connections (started ep ans d) = map fst (filter snd (made_for ans (peers d)))" "epfd (started ep ans d) = ep"
  by (simp_all add: started_def foldl_AddConnection_registers made_for_def filter_map comp_def)

lemma conns_at_end_same_fd:
  "list_all2 same_fd (map fst (filter snd cs)) fs \<Longrightarrow> list_all2 same_fd (map fst cs) (conns_at_end cs fs)"
  by (induction cs fs rule: conns_at_end.induct) auto

lemma dropped_or_left: "same_fd c c' \<Longrightarrow> count_list (dropped c c') e + count_list (drop_socket c') e = count_list (drop_socket c) e"
  by (auto simp: dropped_def drop_socket_def same_fd_def split: option.split)

lemma count_list_concat_map: "count_list (concat (map f xs)) e = sum_list (map (\<lambda>x. count_list (f x) e) xs)"
  by (induction xs) simp_all

lemma dropped_in_all:
  "list_all2 same_fd cs cs' \<Longrightarrow>
   count_list (concat (map2 dropped cs cs')) e + count_list (concat (map drop_socket cs')) e
   = sum_list (map (\<lambda>c. count_list (drop_socket c) e) cs)"
proof (induction rule: list_all2_induct)
  case (Cons c cs c' cs')
  then show ?case
    using dropped_or_left [of c c' e] by simp
qed simp

text \<open>
  What \<open>TcpClient\<close> leaves open or closes twice: when \<open>connect\<close> fails, the constructor
  closes the socket and so does the destructor of its base. The addresses are freed only
  when nothing fails.
\<close>

definition closed_twice :: "os_answers \<Rightarrow> int \<Rightarrow> bool" where
  "closed_twice os s \<longleftrightarrow> getaddrinfo_ret os = 0 \<and> socket_ret os = s \<and> connect_ret os < 0"

definition leaks_addresses :: "os_answers \<Rightarrow> bool" where
  "leaks_addresses os \<longleftrightarrow> getaddrinfo_ret os = 0 \<and> (socket_ret os < 0 \<or> connect_ret os < 0)"

lemma connect_drop_count:
  assumes "socket c = None"
  shows "0 \<le> s \<Longrightarrow> count_list (connect_events os c) (Closed s) + count_list (drop_socket (Connect os c)) (Closed s)
      = count_list (connect_events os c) (Opened s) + (if closed_twice os s then 1 else 0)"
    and "count_list (drop_socket (Connect os c)) (Opened s) = 0"
    and "count_list (connect_events os c) Addr_Alloc
      = count_list (connect_events os c) Addr_Free + (if leaks_addresses os then 1 else 0)"
    and "count_list (drop_socket (Connect os c)) Addr_Alloc = 0" "count_list (drop_socket (Connect os c)) Addr_Free = 0"
  using assms
  by (auto simp: connect_events_def Connect_def drop_socket_def TcpClient_def transport_destroy_def SetTimeout_def
      closed_twice_def leaks_addresses_def split: option.splits)

lemma made_socket: "i < length (make_connections ps) \<Longrightarrow> socket (make_connections ps ! i) = None"
  by (simp add: make_connections_def Connection_def)

lemma sum_list_extra:
  "(\<And>i. i \<in> set is \<Longrightarrow> f i = g i + (if P i then 1 else 0)) \<Longrightarrow>
   sum_list (map f is) = sum_list (map g is) + length (filter P is)" for f g :: "'a \<Rightarrow> nat"
  by (induction "is") simp_all

lemma start_events_count:
  assumes "0 \<le> ep" and "Start ep ans script d = (Returned, f)"
  shows "count_list (start_events ep ans (peers d) f) e
     = (if e = Opened ep then 1 else 0) + (if e = Closed ep then 1 else 0)
       + sum_list (map (\<lambda>i. count_list (connect_events (fst (ans i)) (make_connections (peers d) ! i)) e
                            + count_list (drop_socket (connected ans (peers d) i)) e)
                      [0..<length (make_connections (peers d))])"
proof -
  let ?made = "made_for ans (peers d)"
  have r: "Run (\<lambda>f. IsComplete (f_downloader f)) script (started ep ans d) = (Returned, f)"
    using assms Start_Run by simp
  have f: "list_all2 same_fd (map fst (filter snd ?made)) (connections f)" "epfd f = ep"
    using Run_same_fd [OF r] by (simp_all add: started_registers)
  have "count_list (concat (map2 dropped (map fst ?made) (conns_at_end ?made (connections f)))) e
      + count_list (concat (map drop_socket (conns_at_end ?made (connections f)))) e
      = sum_list (map (\<lambda>i. count_list (drop_socket (connected ans (peers d) i)) e) [0..<length (make_connections (peers d))])"
    using dropped_in_all [OF conns_at_end_same_fd [OF f(1)]] by (simp add: made_for_def comp_def)
  then show ?thesis
    using assms(1) f(2)
    by (cases "e = Closed ep")
      (simp_all add: start_events_def leave_start_def farm_destroy_def Let_def count_list_concat_map sum_list_addf)
qed

section \<open>Properties\<close>

text \<open>
  C32: A run of Start that left the loop closes every descriptor exactly as often as it opened
  it, the descriptor of epoll and the sockets of the peers whether they are registered,
  dropped on the way or never served, plus once more for each
  peer whose connect failed on it; and it frees every list of addresses but those of the
  peers for which socket or connect failed.
\<close>

theorem start_closes_what_it_opens:
  assumes "0 \<le> ep" and "0 \<le> s" and "Start ep ans script d = (Returned, f)"
  shows "count_list (start_events ep ans (peers d) f) (Closed s)
         = count_list (start_events ep ans (peers d) f) (Opened s)
           + length (filter (\<lambda>i. closed_twice (fst (ans i)) s) [0..<length (make_connections (peers d))])
       \<and> count_list (start_events ep ans (peers d) f) Addr_Alloc
         = count_list (start_events ep ans (peers d) f) Addr_Free
           + length (filter (\<lambda>i. leaks_addresses (fst (ans i))) [0..<length (make_connections (peers d))])"
proof -
  let ?n = "length (make_connections (peers d))"
  note count = start_events_count [OF assms(1,3)]
  note i = connect_drop_count [OF made_socket]
  have "sum_list (map (\<lambda>i. count_list (connect_events (fst (ans i)) (make_connections (peers d) ! i)) (Closed s)
        + count_list (drop_socket (connected ans (peers d) i)) (Closed s)) [0..<?n])
      = sum_list (map (\<lambda>i. count_list (connect_events (fst (ans i)) (make_connections (peers d) ! i)) (Opened s)
        + count_list (drop_socket (connected ans (peers d) i)) (Opened s)) [0..<?n])
        + length (filter (\<lambda>i. closed_twice (fst (ans i)) s) [0..<?n])"
    by (rule sum_list_extra) (use i assms(2) in \<open>simp add: connected_def\<close>)
  moreover have "sum_list (map (\<lambda>i. count_list (connect_events (fst (ans i)) (make_connections (peers d) ! i)) Addr_Alloc
        + count_list (drop_socket (connected ans (peers d) i)) Addr_Alloc) [0..<?n])
      = sum_list (map (\<lambda>i. count_list (connect_events (fst (ans i)) (make_connections (peers d) ! i)) Addr_Free
        + count_list (drop_socket (connected ans (peers d) i)) Addr_Free) [0..<?n])
        + length (filter (\<lambda>i. leaks_addresses (fst (ans i))) [0..<?n])"
    by (rule sum_list_extra) (use i in \<open>simp add: connected_def\<close>)
  ultimately show ?thesis
    by (simp add: count)
qed

text \<open>Two peers; the connect of the first fails on the socket 5, the second gets a socket 6.\<close>

definition first_fails :: "nat \<Rightarrow> os_answers \<times> int" where
  "first_fails i = (if i = 0 then (\<lparr>getaddrinfo_ret = 0, socket_ret = 5, connect_ret = - 1\<rparr>, 0)
     else (\<lparr>getaddrinfo_ret = 0, socket_ret = 6, connect_ret = 0\<rparr>, 0))"

abbreviation two_hosts :: downloader where
  "two_hosts \<equiv> Downloader two_piece_torrent ''me'' [Peer ''g'' 1 [], Peer ''h'' 2 []] True"

theorem start_closes_what_it_opens_witness:
  "\<exists>f. Start 3 first_fails [Failed] two_hosts = (Returned, f)
     \<and> count_list (start_events 3 first_fails (peers two_hosts) f) (Closed 5)
       = count_list (start_events 3 first_fails (peers two_hosts) f) (Opened 5) + 1
     \<and> count_list (start_events 3 first_fails (peers two_hosts) f) Addr_Alloc
       = count_list (start_events 3 first_fails (peers two_hosts) f) Addr_Free + 1"
proof -
  let ?f = "started 3 first_fails two_hosts"
  have "Start 3 first_fails [Failed] two_hosts = (Returned, ?f)"
    by (simp add: Start_Run)
  moreover have "length (make_connections (peers two_hosts)) = Suc (Suc 0)"
    by (simp add: make_connections_def Downloader_def)
  ultimately show ?thesis
    using start_closes_what_it_opens [of 3 5 first_fails "[Failed]" two_hosts ?f]
    by (simp add: first_fails_def closed_twice_def leaks_addresses_def)
qed

end
