(* ===== verification/Hostile.thy ===== *)
theory Hostile
  imports Client
begin

text \<open>
  What one hostile peer, or one hostile torrent file, does to the whole program: a fault of one
  connection is the end of \<open>main\<close>, at whatever point of the run it happens.
\<close>

section \<open>From a connection to the program\<close>

text \<open>A run that waits at the end of its script goes on from there.\<close>

lemma Run_append: "Run chk pre f = (Waiting, f') \<Longrightarrow> Run chk (pre @ post) f = Run chk post f'"
proof (induction pre arbitrary: f)
  case Nil
  then show ?case
    by (auto split: if_splits)
next
  case (Cons x pre)
  then show ?case
    by (cases x) (auto split: if_splits prod.splits option.splits)
qed

lemma Start_append:
  assumes "Start ep ans pre (Downloader tf pid ps opened) = (Waiting, f)"
  shows "Start ep ans (pre @ post) (Downloader tf pid ps opened) = Run (\<lambda>f. IsComplete (f_downloader f)) post f"
proof -
  have "0 \<le> ep"
    by (rule Start_epfd [OF assms]) simp
  then show ?thesis
    using assms Run_append by (simp add: Start_Run)
qed

lemma Run_waiting: "Run chk pre f = (Waiting, f') \<Longrightarrow> connections f' \<noteq> [] \<and> \<not> chk f'"
proof (induction pre arbitrary: f)
  case Nil
  then show ?case
    by (auto split: if_splits)
next
  case (Cons x pre)
  then show ?case
    by (cases x) (auto split: if_splits prod.splits option.splits)
qed

text \<open>The same program with more to happen to it.\<close>

abbreviation later :: "world \<Rightarrow> loop_step list \<Rightarrow> world" where
  "later os script \<equiv> os\<lparr>wd_script := wd_script os @ script\<rparr>"

lemma main_later:
  assumes "main sha1 argv os = Running f"
  shows "main sha1 argv (later os script) = (case Run (\<lambda>f. IsComplete (f_downloader f)) script f of
      (Returned, f) \<Rightarrow> Exit 0 (Some f) | (Waiting, f) \<Rightarrow> Running f
    | (Faulted (Throw e), f) \<Rightarrow> Exit 1 (Some f) | (Faulted (Undefined u), f) \<Rightarrow> Crashed u)
    \<and> connections f \<noteq> [] \<and> \<not> IsComplete (f_downloader f)"
proof -
  obtain tf ps where a: "2 \<le> length argv" "find_peers sha1 my_peer_id (argv ! 1) os = Inr (tf, ps)" "ps \<noteq> []"
      "Start (wd_epfd os) (wd_conns os) (wd_script os) (Downloader tf my_peer_id ps (wd_opened os)) = (Waiting, f)"
    using assms by (auto simp: main_def split: if_splits sum.splits fault.splits prod.splits run_end.splits)
  then have "0 \<le> wd_epfd os"
    using Start_epfd by blast
  then have "Run (\<lambda>f. IsComplete (f_downloader f)) (wd_script os)
      (started (wd_epfd os) (wd_conns os) (Downloader tf my_peer_id ps (wd_opened os))) = (Waiting, f)"
    using a(4) by (simp add: Start_Run)
  then have "connections f \<noteq> [] \<and> \<not> IsComplete (f_downloader f)"
    by (rule Run_waiting)
  moreover have "find_peers sha1 my_peer_id (argv ! 1) (later os script) = Inr (tf, ps)"
    using a(2) by (simp add: find_peers_def)
  ultimately show ?thesis
    using a Start_append [OF a(4), of script] by (simp add: main_def)
qed

lemma main_crashes:
  assumes "main sha1 argv os = Running f" and "ev_conn e < length (connections f)"
    and "fst (conn_event e (connections f ! ev_conn e, f_downloader f)) = Some (Undefined u)"
  shows "main sha1 argv (later os (Ready (e # es) # script)) = Crashed u"
proof -
  obtain c d where "conn_event e (connections f ! ev_conn e, f_downloader f) = (Some (Undefined u), (c, d))"
    using assms(3) by (metis prod.collapse)
  then have "\<exists>g. handle_events (e # es) f = (Some (Undefined u), g)"
    using assms(2) by (simp add: handle_event_def)
  then show ?thesis
    using main_later [OF assms(1), of "Ready (e # es) # script"] by auto
qed

text \<open>
  Bytes that reach an open connection with an empty receive buffer which is not about to send
  its handshake; \<open>h\<close> are the bytes that count as the handshake of the peer.
\<close>

definition bytes_reach :: "buffer \<Rightarrow> buffer \<Rightarrow> event \<Rightarrow> connection \<Rightarrow> bool" where
  "bytes_reach h b e c \<longleftrightarrow> socket c \<noteq> None \<and> recv_buffer c = [] \<and> accepts_all (ev_kernel e)
     \<and> (c_state c = CONNECTING \<longrightarrow> \<not> ev_out e) \<and> length h = (if c_state c = HANDSHAKING then 68 else 0)
     \<and> b \<noteq> [] \<and> ev_in e = Some (Some (h @ b))"

lemma conn_event_bytes:
  assumes "bytes_reach h b e c"
  shows "conn_event e (c, d) = close_on_throw (ProcessBuffer (ev_kernel e) (set_buf b (greeted c, d)))"
proof -
  have "OnReadyWrite (ev_kernel e) (c, d) = (c, d)" if "ev_out e"
    using assms that by (auto simp: bytes_reach_def OnReadyWrite_def)
  then show ?thesis
    using assms read_greeted [of c "ev_kernel e" h b d] by (simp add: bytes_reach_def conn_event_def Let_def)
qed

section \<open>A torrent without a piece length\<close>

lemma piece_len_zero:
  assumes "piece_length tf = 0" and "length (piece_hashes tf) = Suc i" and "i < 2 ^ 31"
  shows "piece_len tf (word_of_nat i) = Inl (Undefined Div_By_Zero)"
proof -
  have "unat (word_of_nat i :: u64) = i"
    using assms(3) by (simp add: unat_of_nat)
  then have "int_to_size (word_of_nat i) = (word_of_nat i :: u64)"
    using int_to_size_of_nat [OF assms(3)] by (simp add: word_unat_eq_iff)
  then have "is_last_piece tf (word_of_nat i)"
    using assms(2) by (simp add: is_last_piece_def size_of_def)
  then show ?thesis
    using assms(1) by (simp add: piece_len_def c_rem_def)
qed

lemma first_piece_cong: "peer_pieces c = peer_pieces c' \<Longrightarrow> first_piece c j n = first_piece c' j n"
  by (simp add: first_piece_def has_piece_def [abs_def])

lemma unchoke_divides_by_zero:
  assumes "piece_length (torrent d) = 0" and "n = length (piece_hashes (torrent d))" and "n < 2 ^ 31 - 1"
    and "c_state c \<noteq> HANDSHAKING" and "current_piece c = - 1" and "next_req_index d = word_of_nat j" and "j \<le> n"
    and "first_piece (c\<lparr>peer_pieces := apply_bitfield n payload (peer_pieces c)\<rparr>) j n = Some (n - 1)"
    and "length payload < 2 ^ 32 - 5"
  shows "fst (ProcessBuffer k (set_buf (frame (BITFIELD # payload) @ frame [UNCHOKE]) (c, d))) = Some (Undefined Div_By_Zero)"
proof -
  let ?c = "c\<lparr>peer_pieces := apply_bitfield n payload (peer_pieces c)\<rparr>"
  have "n \<noteq> 0"
    using assms(8) by (cases n) (auto simp: first_piece_def)
  then have n: "n = Suc (n - 1)"
    by simp
  have l: "length (apply_bitfield n payload (peer_pieces c)) = n"
    using apply_bitfield_nth [of 0 n payload "peer_pieces c"] \<open>n \<noteq> 0\<close> by simp
  have b: "handle_message k BITFIELD payload (set_buf (frame [UNCHOKE]) (c, d)) = (None, set_buf (frame [UNCHOKE]) (?c, d))"
    using assms(2) by (simp add: handle_message_def message_ids)
  let ?u = "?c\<lparr>recv_buffer := [], choked := False\<rparr>"
  have "first_piece ?u j n = Some (n - 1)"
    using assms(8) first_piece_cong [of ?u ?c] by simp
  then have "RequestNextBlock k (?u, d) = request_block k
      (?u\<lparr>current_piece := word_of_nat (n - 1), block_offset := 0\<rparr>, d\<lparr>next_req_index := word_of_nat n\<rparr>)"
    using RequestNextBlock_first [of ?u d j n k] assms(2,3,5-7) l n by simp
  moreover have "piece_len (torrent d) (word_of_nat (n - 1)) = Inl (Undefined Div_By_Zero)"
    using piece_len_zero [OF assms(1), of "n - 1"] assms(2,3) n by simp
  ultimately have r: "fst (handle_message k UNCHOKE [] (set_buf [] (?c, d))) = Some (Undefined Div_By_Zero)"
    by (simp add: handle_message_def request_block_def)
  have "ProcessBuffer k (set_buf (frame (BITFIELD # payload) @ frame [UNCHOKE]) (c, d))
      = ProcessBuffer k (set_buf (frame [UNCHOKE]) (?c, d))"
    using ProcessBuffer_frame [of "(c, d)" "BITFIELD # payload" k "frame [UNCHOKE]"] b assms(4,9) by simp
  also have "\<dots> = act_then (handle_message k UNCHOKE [] (set_buf [] (?c, d))) (ProcessBuffer k)"
    using ProcessBuffer_frame [of "(?c, d)" "[UNCHOKE]" k "[]"] assms(4) by simp
  finally show ?thesis
    using r by (cases "handle_message k UNCHOKE [] (set_buf [] (?c, d))") (simp add: act_then_def)
qed

section \<open>Properties\<close>

text \<open>
  C21: any peer can crash the client, at any time. Whatever has happened before, an open connection
  with an empty receive buffer needs to bring only the four bytes of a length prefix from
  \<open>2 ^ 32 - 4\<close> on, behind any 68 bytes if its handshake is still awaited, and \<open>main\<close>
  reads outside the buffer.
\<close>

theorem any_peer_crashes_the_client:
  assumes "main sha1 argv os = Running f" and "ev_conn e < length (connections f)"
    and "bytes_reach h (PushInt32 [] v @ rest) e (connections f ! ev_conn e)"
    and "2 ^ 32 - 4 \<le> unat v" and "length rest < 2 ^ 32 - 4"
  shows "main sha1 argv (later os (Ready (e # es) # script)) = Crashed Out_Of_Bounds"
proof -
  let ?c = "connections f ! ev_conn e"
  obtain t where "ProcessBuffer (ev_kernel e) (set_buf (PushInt32 [] v @ rest) (greeted ?c, f_downloader f))
      = (Some (Undefined Out_Of_Bounds), t)"
    using ProcessBuffer_overflow [of "(greeted ?c, f_downloader f)" v rest "ev_kernel e"] assms(4,5) by auto
  then show ?thesis
    using main_crashes [OF assms(1,2)] conn_event_bytes [OF assms(3)] by (simp add: close_on_throw_def)
qed

text \<open>The sample program, in which the peer sends four bytes after the connection is made.\<close>

definition brings :: "buffer \<Rightarrow> event" where
  "brings b = hello\<lparr>ev_out := False, ev_in := Some (Some b)\<rparr>"

lemma brings_simps [simp]:
  "ev_conn (brings b) = 0" "ev_kernel (brings b) = accept_kernel" "\<not> ev_out (brings b)" "ev_in (brings b) = Some (Some b)"
  by (simp_all add: brings_def hello_def)

lemma sample_connection:
  "\<exists>t. connections (started 3 all_connect (Downloader tf pid [p] True)) = [Connection p\<lparr>socket := Some t\<rparr>]"
  unfolding started_one by blast

lemma bytes_reach_first: "b \<noteq> [] \<Longrightarrow> bytes_reach [] b (brings b) (Connection p\<lparr>socket := Some t\<rparr>)"
  by (simp add: bytes_reach_def Connection_def)

theorem any_peer_crashes_the_client_witness:
  "main zero_sha1 [''client'', ''x.torrent''] (later sample_world [Ready [brings (PushInt32 [] 4294967295)]])
    = Crashed Out_Of_Bounds"
proof -
  let ?f = "started 3 all_connect (Downloader (sample_torrent zero_sha1) my_peer_id [Peer ''10.0.0.1'' 6881 []] True)"
  obtain t where c: "connections ?f = [Connection (Peer ''10.0.0.1'' 6881 [])\<lparr>socket := Some t\<rparr>]"
    using sample_connection by blast
  have "bytes_reach [] (PushInt32 [] 4294967295 @ []) (brings (PushInt32 [] 4294967295)) (connections ?f ! 0)"
    using bytes_reach_first [of "PushInt32 [] 4294967295"] unfolding c by (simp add: PushInt32_def)
  then show ?thesis
    using any_peer_crashes_the_client [OF sample_runs, of "brings (PushInt32 [] 4294967295)" "[]" 4294967295 "[]" "[]" "[]"]
    unfolding c by simp
qed

text \<open>
  C22: a torrent file with the piece length zero crashes the client. \<open>Load\<close> accepts it; a
  connection without a piece that is told by a bitfield that the first piece left that the peer has
  is the last one, and is then unchoked, divides by zero.
\<close>

theorem zero_piece_length_crashes_the_client:
  assumes "main sha1 argv os = Running f" and "ev_conn e < length (connections f)" and "c = connections f ! ev_conn e"
    and "tf = torrent (f_downloader f)" and "piece_length tf = 0" and "n = length (piece_hashes tf)" and "n < 2 ^ 31 - 1"
    and "bytes_reach h (frame (BITFIELD # payload) @ frame [UNCHOKE]) e c" and "length payload < 2 ^ 32 - 5"
    and "current_piece c = - 1" and "next_req_index (f_downloader f) = word_of_nat j" and "j \<le> n"
    and "first_piece (c\<lparr>peer_pieces := apply_bitfield n payload (peer_pieces c)\<rparr>) j n = Some (n - 1)"
  shows "main sha1 argv (later os (Ready (e # es) # script)) = Crashed Div_By_Zero"
proof -
  have "first_piece (greeted c\<lparr>peer_pieces := apply_bitfield n payload (peer_pieces (greeted c))\<rparr>) j n = Some (n - 1)"
    using assms(13) first_piece_cong [of "greeted c\<lparr>peer_pieces := apply_bitfield n payload (peer_pieces (greeted c))\<rparr>"
        "c\<lparr>peer_pieces := apply_bitfield n payload (peer_pieces c)\<rparr>"] by simp
  then have "fst (ProcessBuffer (ev_kernel e)
      (set_buf (frame (BITFIELD # payload) @ frame [UNCHOKE]) (greeted c, f_downloader f))) = Some (Undefined Div_By_Zero)"
    using unchoke_divides_by_zero [of "f_downloader f" n "greeted c" j payload] assms(4-7,9-12) by simp
  then show ?thesis
    using main_crashes [OF assms(1,2)] conn_event_bytes [OF assms(8)] close_on_throw_undefined assms(3) by simp
qed

text \<open>The sample torrent file with this piece length, and a peer that has the last of the three pieces.\<close>

definition zero_info :: "(string \<times> bnode) list" where
  "zero_info = [(''length'', BInt 10), (''name'', BString (FromString ''f'')),
     (''piece length'', BInt 0), (''pieces'', BString (replicate 60 0))]"

definition zero_root :: bnode where
  "zero_root = BDict [(''announce'', BString (FromString ''udp://t'')), (''info'', BDict zero_info)]"

abbreviation zero_torrent :: torrent_file where
  "zero_torrent \<equiv> (sample_torrent zero_sha1)\<lparr>piece_length := 0\<rparr>"

abbreviation zero_world :: world where
  "zero_world \<equiv> sample_world\<lparr>wd_file := Some (Encode zero_root)\<rparr>"

lemma zero_loads: "Load zero_sha1 fp (Some (Encode zero_root)) = Inr zero_torrent"
proof -
  have "wf_bnode zero_root"
    by (simp add: zero_root_def zero_info_def in_int_range_def less_char_def)
  then have "Decode (Encode zero_root) = Inr zero_root"
    using Decode_Encode_append [of zero_root "[]"] by simp
  moreover have "describes zero_sha1 zero_root zero_torrent"
    using sample_describes [of zero_sha1]
    unfolding describes_def sample_torrent_def zero_root_def sample_root_def by (simp add: zero_info_def sample_info_def)
  ultimately show ?thesis
    by (auto simp: Load_describes)
qed

lemma zero_runs:
  "main zero_sha1 [''client'', ''x.torrent''] zero_world
   = Running (started 3 all_connect (Downloader zero_torrent my_peer_id [Peer ''10.0.0.1'' 6881 []] True))"
proof -
  let ?d = "Downloader zero_torrent my_peer_id [Peer ''10.0.0.1'' 6881 []] True"
  have "announce zero_torrent = announce (sample_torrent zero_sha1)"
    by simp
  then have "find_peers zero_sha1 my_peer_id fp zero_world = Inr (zero_torrent, [Peer ''10.0.0.1'' 6881 []])" for fp
    using zero_loads sample_url by (simp add: find_peers_def GetPeers_def sample_world_def sample_udp_peers)
  moreover have "\<not> IsComplete (f_downloader (started 3 all_connect ?d))"
    by (rule reachable_incomplete [OF started_reachable]) (simp_all add: sample_torrent_def)
  then have "Start 3 all_connect [] ?d = (Waiting, started 3 all_connect ?d)"
    by (simp add: Start_Run started_one)
  ultimately show ?thesis
    by (simp add: main_def) (simp add: sample_world_def)
qed

theorem zero_piece_length_crashes_the_client_witness:
  "main zero_sha1 [''client'', ''x.torrent'']
     (later zero_world [Ready [brings (frame (BITFIELD # [32]) @ frame [UNCHOKE])]]) = Crashed Div_By_Zero"
proof -
  let ?d = "Downloader zero_torrent my_peer_id [Peer ''10.0.0.1'' 6881 []] True"
  let ?f = "started 3 all_connect ?d" and ?b = "frame (BITFIELD # [32]) @ frame [UNCHOKE]"
  obtain t where c: "connections ?f = [Connection (Peer ''10.0.0.1'' 6881 [])\<lparr>socket := Some t\<rparr>]"
    using sample_connection by blast
  let ?c = "connections ?f ! 0"
  have r: "bytes_reach [] ?b (brings ?b) ?c"
    unfolding c using bytes_reach_first [of ?b] by (simp add: frame_def)
  have t: "torrent (f_downloader ?f) = zero_torrent" "next_req_index (f_downloader ?f) = word_of_nat 0"
    by (simp_all add: started_simps Downloader_def)
  have n: "length (piece_hashes zero_torrent) = 3"
    by (simp add: sample_torrent_def)
  have "bit (32 :: u8) 5" "\<not> bit (32 :: u8) 6" "\<not> bit (32 :: u8) 7"
    by (simp_all add: bit_iff_odd_drop_bit)
  then have "length (apply_bitfield 3 [32] []) = 3" "\<not> apply_bitfield 3 [32] [] ! 0" "\<not> apply_bitfield 3 [32] [] ! 1"
      "apply_bitfield 3 [32] [] ! 2"
    using apply_bitfield_nth [of 0 3 "[32]" "[]"] apply_bitfield_nth [of 1 3 "[32]" "[]"] apply_bitfield_nth [of 2 3 "[32]" "[]"]
    by simp_all
  then have "first_piece (?c\<lparr>peer_pieces := apply_bitfield 3 [32] (peer_pieces ?c)\<rparr>) 0 3 = Some (3 - 1)"
    unfolding c by (simp add: first_piece_def has_piece_def upt_rec Connection_def numeral_2_eq_2)
  moreover have "current_piece ?c = - 1"
    unfolding c by (simp add: Connection_def)
  ultimately show ?thesis
    using zero_piece_length_crashes_the_client [OF zero_runs, of "brings ?b" ?c zero_torrent 3 "[]" "[32]" 0 "[]" "[]"] r t n c
    by simp
qed

end
