(* ===== verification/Connection_Test.thy ===== *)
theory Connection_Test
  imports Client Swarm_Run
begin

text \<open>
  The connection test, test/TestConnection.cpp, which CMakeLists.txt builds beside the client: it
  asks the tracker for peers and tries to shake hands with the first of them, one after the other,
  in a loop of its own over \<open>poll\<close>.
\<close>

section \<open>The program\<close>

definition test_client_id :: string where
  "test_client_id = ''-CPP-TEST-CLIENT-001''"

text \<open>What the test prints of a peer.\<close>

datatype peer_report = Socket_Error | Timed_Out | Handshake_Completed

text \<open>
  The inner loop. A turn is an answer of \<open>poll\<close>: nothing happened, or an event of the only
  descriptor. The list ends when the three seconds are over. The result says whether the loop saw
  the handshake.
\<close>

fun poll_loop :: "event option list \<Rightarrow> session \<Rightarrow> (bool \<times> session) act" where
  "poll_loop [] s = (None, (False, s))"
| "poll_loop (x # xs) s =
     (case (case x of None \<Rightarrow> (None, s) | Some e \<Rightarrow> conn_event e s) of
        (Some f, s') \<Rightarrow> (Some f, (False, s'))
      | (None, s') \<Rightarrow> if handshake_done (fst s') then (None, (True, s')) else poll_loop xs s')"

text \<open>
  The loop over the peers: \<open>net i\<close> is what the system answers when peer \<open>i\<close> is
  connected, and the answers of \<open>poll\<close> for it.
\<close>

fun try_peers :: "(nat \<Rightarrow> os_answers \<times> event option list) \<Rightarrow> nat \<Rightarrow> peer list \<Rightarrow> downloader
    \<Rightarrow> (peer_report list \<times> downloader) act" where
  "try_peers net attempts [] d = (None, ([], d))"
| "try_peers net attempts (p # ps) d =
     (if attempts > 5 then (None, ([], d))
      else
        let conn = Connect (fst (net attempts)) (Connection p)
        in if GetSocketFd conn = - 1 then
             apsnd (apfst ((#) Socket_Error)) (try_peers net (attempts + 1) ps d)
           else
             (case poll_loop (snd (net attempts)) (conn, d) of
                (Some f, (_, (_, d'))) \<Rightarrow> (Some f, ([], d'))
              | (None, (True, (_, d'))) \<Rightarrow> (None, ([Handshake_Completed], d'))
              | (None, (False, (_, d'))) \<Rightarrow> apsnd (apfst ((#) Timed_Out)) (try_peers net (attempts + 1) ps d')))"

text \<open>
  \<open>main\<close>: the exit code and the reports. The test prints PASS after a completed handshake
  and FAIL otherwise; every exception ends in exit code 0.
\<close>

definition TestConnection ::
  "(buffer \<Rightarrow> buffer) \<Rightarrow> string list \<Rightarrow> world \<Rightarrow> (nat \<Rightarrow> os_answers \<times> event option list) \<Rightarrow> (int \<times> peer_report list) res" where
  "TestConnection sha1 argv os net =
     (if length argv < 2 then Inr (1, [])
      else
        (case find_peers sha1 test_client_id (argv ! 1) os of
           Inl (Throw e) \<Rightarrow> Inr (0, [])
         | Inl (Undefined u) \<Rightarrow> Inl (Undefined u)
         | Inr (tf, ps) \<Rightarrow>
             if ps = [] then Inr (1, [])
             else
               (case try_peers net 0 ps (Downloader tf test_client_id [] (wd_opened os)) of
                  (Some (Undefined u), _) \<Rightarrow> Inl (Undefined u)
                | (_, (reports, _)) \<Rightarrow> Inr (0, reports))))"

section \<open>Peers and reports\<close>

lemma try_peers_six:
  "try_peers net n ps d = (None, (rs, d')) \<Longrightarrow> length rs + n \<le> max n 6"
proof (induction net n ps d arbitrary: rs d' rule: try_peers.induct)
  case (2 net n p ps d)
  show ?case
  proof (cases "n > 5")
    case False
    let ?c = "Connect (fst (net n)) (Connection p)"
    show ?thesis
    proof (cases "GetSocketFd ?c = - 1")
      case True
      obtain e rs1 d1 where t: "try_peers net (n + 1) ps d = (e, (rs1, d1))"
        by (metis prod.collapse)
      then show ?thesis
        using 2(1) [OF False refl True, of rs1 d1] 2(3) False True by auto
    next
      case open_c: False
      obtain e b s1 where l: "poll_loop (snd (net n)) (?c, d) = (e, (b, s1))"
        by (metis prod.collapse)
      obtain e' rs1 d1 where t: "try_peers net (n + 1) ps (snd s1) = (e', (rs1, d1))"
        by (metis prod.collapse)
      show ?thesis
        using 2(2) [OF False refl open_c l [symmetric] _ refl, of "fst s1" "snd s1"] 2(3) False open_c l t
        by (auto simp: Let_def split: option.splits bool.splits prod.splits)
    qed
  qed (use 2 in simp)
qed simp

section \<open>When the handshake counts as done\<close>

text \<open>The events that \<open>poll\<close> reports.\<close>

definition reported :: "event option list \<Rightarrow> event list" where
  "reported xs = map the (filter (\<lambda>x. x \<noteq> None) xs)"

lemma reported_simps [simp]:
  "reported [] = []" "reported (None # xs) = reported xs" "reported (Some e # xs) = e # reported xs"
  by (simp_all add: reported_def)

lemma handshake_bytes_suffice:
  assumes "ProcessBuffer k s = (None, t)" and "c_state (fst s) = HANDSHAKING" and "68 \<le> length (buf s)"
  shows "handshake_done (fst t)"
proof -
  let ?s = "((fst s)\<lparr>recv_buffer := drop 68 (buf s), handshake_done := True, c_state := DOWNLOADING\<rparr>, snd s)"
  obtain e u where u: "conn_send k BuildInterested ?s = (e, u)"
    by (cases "conn_send k BuildInterested ?s")
  have p: "ProcessBuffer k u = (None, t)" "e = None"
    using assms u ProcessBuffer.simps [of k s] by (cases e; simp)+
  have "lifecycle DOWNLOADING u"
    using conn_send_keeps [of ?s k BuildInterested] u by (simp add: lifecycle_def keeps_def)
  then have "lifecycle DOWNLOADING t"
    using lifecycle_session.ProcessBuffer_holds p(1) by fastforce
  then show ?thesis
    using conn_state_bounds(2) [of "c_state (fst t)"] by (simp add: lifecycle_def order_antisym)
qed

lemma greeting_read:
  assumes "streaming (idle_ready (snd s)) (b @ rest) s" and "c_state (fst s) = HANDSHAKING" and "b \<noteq> []" and "accepts_all k"
  shows "if 68 \<le> length (buf s @ b) then \<exists>t. OnReadyRead k (Some b) s = (None, t) \<and> handshake_done (fst t)
    else OnReadyRead k (Some b) s = (None, set_buf (buf s @ b) s)"
proof -
  have sock: "socket (fst s) \<noteq> None"
    using idle.streaming_open [OF assms(1)] .
  note read = OnReadyRead_Some [OF sock assms(3), of k]
  show ?thesis
  proof (cases "68 \<le> length (buf s @ b)")
    case True
    obtain t where t: "OnReadyRead k (Some b) s = (None, t)" "streaming (idle_ready (snd s)) rest t"
      using idle.read_step assms(1,3,4) by blast
    obtain e u where p: "ProcessBuffer k (set_buf (buf s @ b) s) = (e, u)"
      by (cases "ProcessBuffer k (set_buf (buf s @ b) s)")
    have "\<not> undefined_fault e \<and> t = (if e = None then u else ((fst u)\<lparr>socket := None\<rparr>, snd u))"
      using t(1) read p close_on_throw_None by metis
    then have "e = None" "t = u"
      using idle.streaming_open [OF t(2)] by (auto split: if_splits)
    then show ?thesis
      using True t(1) p handshake_bytes_suffice [of k "set_buf (buf s @ b) s" u] assms(2) by (simp add: set_buf_def)
  next
    case False
    then have "waiting (set_buf (buf s @ b) s)"
      using assms(2) by (simp add: waiting_def set_buf_def)
    then show ?thesis
      using False read ProcessBuffer_waiting by (simp add: close_on_throw_def)
  qed
qed

lemma poll_loop_greeting:
  assumes "streaming (idle_ready d) (heard (reported xs) @ rest) (c, d)" and "c_state c = HANDSHAKING"
    and "\<not> handshake_done c" and "list_all (swarm_event 1 0) (reported xs)"
  shows "\<exists>t. poll_loop xs (c, d) = (None, (68 \<le> length (recv_buffer c) + length (heard (reported xs)), t))"
  using assms
proof (induction xs arbitrary: c)
  case Nil
  then show ?case
    by (auto simp: streaming_def greeting_def digesting_def)
next
  case (Cons x xs)
  show ?case
  proof (cases x)
    case None
    then show ?thesis
      using Cons by simp
  next
    case (Some e)
    have ev: "accepts_all (ev_kernel e)" "ev_in e \<noteq> Some None" "ev_in e \<noteq> Some (Some [])"
      using Cons.prems(4) Some by (simp_all add: swarm_event_def)
    have s: "streaming (idle_ready d) (event_bytes e @ heard (reported xs) @ rest) (c, d)"
      using Cons.prems(1) Some by simp
    note c = conn_event_greeted [OF s, of e]
    show ?thesis
    proof (cases "ev_in e")
      case None
      then show ?thesis
        using Cons c Some by simp
    next
      case (Some a)
      then obtain b where b: "ev_in e = Some (Some b)" "b \<noteq> []"
        using ev by (cases a) auto
      have r: "if 68 \<le> length (recv_buffer c @ b) then \<exists>t. conn_event e (c, d) = (None, t) \<and> handshake_done (fst t)
          else conn_event e (c, d) = (None, (c\<lparr>recv_buffer := recv_buffer c @ b\<rparr>, d))"
        using greeting_read [of "(c, d)" b "heard (reported xs) @ rest" "ev_kernel e"] s b ev(1) Cons.prems(2) c
        by (auto split: if_splits)
      show ?thesis
      proof (cases "68 \<le> length (recv_buffer c @ b)")
        case True
        then show ?thesis
          using r b \<open>x = Some e\<close> by auto
      next
        case False
        obtain t where t: "conn_event e (c, d) = (None, t)" "streaming (idle_ready d) (heard (reported xs) @ rest) t"
          using idle.read_step [of d b "heard (reported xs) @ rest" "(c, d)" "ev_kernel e"] s b ev(1) c by auto
        then show ?thesis
          using Cons.IH [of "c\<lparr>recv_buffer := recv_buffer c @ b\<rparr>"] Cons.prems False r b \<open>x = Some e\<close>
          by (simp add: add.assoc)
      qed
    qed
  qed
qed

lemma poll_loop_fresh:
  assumes "socket c \<noteq> None" and "c_state c = CONNECTING" and "recv_buffer c = []" and "\<not> handshake_done c"
    and "writable_first (reported xs)" and "idle_stream (heard (reported xs))" and "list_all (swarm_event 1 0) (reported xs)"
  shows "\<exists>t. poll_loop xs (c, d) = (None, (68 \<le> length (heard (reported xs)), t))"
  using assms(5-7)
proof (induction xs)
  case (Cons x xs)
  show ?case
  proof (cases x)
    case None
    then show ?thesis
      using Cons assms(4) by simp
  next
    case (Some e)
    let ?e = "e\<lparr>ev_out := False\<rparr>"
    obtain c' where g: "greeted_session (c, d) = (c', d)" "c_state c' = HANDSHAKING" "socket c' \<noteq> None"
        "recv_buffer c' = []" "\<not> handshake_done c'"
      using assms(1,3,4) by (simp add: greeted_session_def)
    obtain rest h ms where st: "length h = 68" "\<forall>m\<in>set ms. idle_message m"
        "heard (reported (x # xs)) @ rest = h @ concat (map frame ms)"
      using Cons.prems(2) by (auto simp: idle_stream_def)
    have b: "event_bytes ?e = event_bytes e"
      by (simp add: event_bytes_def)
    have "idle_ready d ms (c', d)"
      using st(2) g(3) by (simp add: idle_ready_def)
    then have "streaming (idle_ready d) (heard (reported (Some ?e # xs)) @ rest) (c', d)"
      using st(1,3) g(2,4) Some b by (auto simp: streaming_def greeting_def)
    moreover have "swarm_event 1 0 ?e = swarm_event 1 0 e"
      by (simp add: swarm_event_def)
    then have "list_all (swarm_event 1 0) (reported (Some ?e # xs))"
      using Cons.prems(3) Some by simp
    moreover have "conn_event e (c, d) = conn_event ?e (c', d)"
      using conn_event_greets [of e "(c, d)"] Cons.prems(1,3) Some assms(1,2) g(1) by (simp add: swarm_event_def)
    ultimately show ?thesis
      using poll_loop_greeting [of d "Some ?e # xs" rest c'] g(2,4,5) b Some by simp
  qed
qed simp

section \<open>Properties\<close>

text \<open>
  C27: what the connection test tells of a peer that is connected, is writable at the first event
  and takes whatever is sent, while no read fails and the peer does not close. If the peer says any 68
  bytes followed by well-formed messages that are neither unchoke nor block, or any beginning of this,
  in pieces cut anywhere, the test reports a completed handshake if and only if at least 68 bytes came
  within the three seconds, whatever these are; the exit code is 0 either way, so that a failed test
  looks like a passed one to the caller.
\<close>

theorem connection_test_verdict:
  assumes "2 \<le> length argv" and "find_peers sha1 test_client_id (argv ! 1) os = Inr (tf, [p])"
    and "GetSocketFd (Connect (fst (net 0)) (Connection p)) \<noteq> - 1"
    and "writable_first (reported (snd (net 0)))" and "idle_stream (heard (reported (snd (net 0))))"
    and "list_all (swarm_event 1 0) (reported (snd (net 0)))"
  shows "TestConnection sha1 argv os net
    = Inr (0, [if 68 \<le> length (heard (reported (snd (net 0)))) then Handshake_Completed else Timed_Out])"
proof -
  let ?c = "Connect (fst (net 0)) (Connection p)" and ?d = "Downloader tf test_client_id [] (wd_opened os)"
  have "socket ?c \<noteq> None"
    using assms(3) by (cases "socket ?c") (simp_all add: GetSocketFd_def)
  moreover have "c_state ?c = CONNECTING" "recv_buffer ?c = []" "\<not> handshake_done ?c"
    by (simp_all add: Connect_def Connection_def split: sum.split)
  ultimately obtain c' d' where "poll_loop (snd (net 0)) (?c, ?d)
      = (None, (68 \<le> length (heard (reported (snd (net 0)))), (c', d')))"
    using poll_loop_fresh [of ?c "snd (net 0)" ?d] assms(4-6) by fastforce
  then show ?thesis
    using assms(1-3) by (simp add: TestConnection_def Let_def)
qed

text \<open>A peer of the sample tracker that sends 68 bytes of rubbish.\<close>

definition rubbish_net :: "nat \<Rightarrow> os_answers \<times> event option list" where
  "rubbish_net i = (fst (all_connect i), [None, Some (hears 0 (Some (replicate 40 7))), Some (hears 0 (Some (replicate 28 7)))])"

theorem connection_test_verdict_witness:
  "TestConnection zero_sha1 [''test_connection'', ''x.torrent''] sample_world rubbish_net = Inr (0, [Handshake_Completed])"
proof -
  have h: "heard (reported (snd (rubbish_net 0))) = replicate 68 7"
    by (simp add: rubbish_net_def replicate_add [symmetric])
  have "idle_stream (replicate 68 7)"
    unfolding idle_stream_def by (intro exI [of _ "[]"] exI [of _ "replicate 68 7"]) simp
  moreover have "writable_first (reported (snd (rubbish_net 0)))" "list_all (swarm_event 1 0) (reported (snd (rubbish_net 0)))"
    by (simp_all add: rubbish_net_def swarm_event_def)
  moreover have "GetSocketFd (Connect (fst (rubbish_net 0)) (Connection (Peer ''10.0.0.1'' 6881 []))) \<noteq> - 1"
    by (simp add: rubbish_net_def all_connect_def Connect_def TcpClient_def SetTimeout_def GetSocketFd_def GetSocket_def)
  ultimately show ?thesis
    using connection_test_verdict [of "[''test_connection'', ''x.torrent'']", OF _ sample_find_peers, of rubbish_net] h
    by simp
qed

end
