(* ===== verification/Test_Programs.thy ===== *)
theory Test_Programs
  imports Connection_Test Display
begin

text \<open>
  The other manual test programs of src/test that compile: TestMessage.cpp, TestTracker.cpp,
  TestDownload.cpp and TestWorker.cpp. The first two are their exit code and what they print on the
  standard output; the download test ends as the client does; the worker test is its exit code with
  the writer and the counters it leaves.
\<close>

section \<open>The message test\<close>

definition test_message_id :: string where
  "test_message_id = ''-CPP01-1234567890123''"

definition TestMessage :: "(buffer \<Rightarrow> buffer) \<Rightarrow> string list \<Rightarrow> buffer option \<Rightarrow> (int \<times> string) res" where
  "TestMessage sha1 argv file =
     (if length argv < 2 then Inr (1, [])
      else
        let out = ''[Test] Parsing torrent file: '' @ argv ! 1 @ ''...'' @ newline
        in case Load sha1 (argv ! 1) file of
             Inl (Throw e) \<Rightarrow> Inr (1, out)
           | Inl (Undefined u) \<Rightarrow> Inl (Undefined u)
           | Inr t \<Rightarrow>
               let hs = BuildHandshake t test_message_id;
                   out = out @ ''[Test] Torrent Name: '' @ tf_name t @ newline
                     @ ''[Test] Info Hash Size: '' @ nat_to_string (length (info_hash t)) @ '' bytes'' @ newline
                     @ ''[Test] Building Handshake...'' @ newline
                     @ ''[Test] Handshake Total Size: '' @ nat_to_string (length hs) @ '' (Expected 68)'' @ newline
               in if length hs \<noteq> 68 then Inr (1, out)
                  else Inr (0, out @ ''[PASS] Handshake constructed successfully.'' @ newline
                    @ ''[PASS] Protocol: '' @ ToString (buf_slice hs 1 20) @ newline))"

text \<open>The test can only fail at loading: the handshake of a loaded torrent is always right.\<close>

lemma message_test_passes:
  assumes "sha1_contract sha1" and "2 \<le> length argv" and "Load sha1 (argv ! 1) file = Inr t"
  shows "\<exists>out. TestMessage sha1 argv file = Inr (0, out @ ''[PASS] Protocol: BitTorrent protocol'' @ newline)"
proof -
  obtain data root where "file = Some data" "describes sha1 root t"
    using assms(3) Load_describes by (cases "file") auto
  then have "length (info_hash t) = 20"
    using assms(1) by (auto simp: describes_def sha1_contract_def)
  moreover have p: "length (FromString ''BitTorrent protocol'') = 19"
    by simp
  ultimately have "length (BuildHandshake t test_message_id) = 68"
      "ToString (buf_slice (BuildHandshake t test_message_id) 1 20) = ''BitTorrent protocol''"
    by (simp_all add: BuildHandshake_def test_message_id_def buf_slice_def ToString_FromString del: FromString_Cons)
  then show ?thesis
    using assms(2,3) by (simp add: TestMessage_def Let_def)
qed

section \<open>The tracker test\<close>

text \<open>
  \<open>GeneratePeerID\<close> and \<open>GenerateID\<close>: a prefix and twelve decimal digits;
  \<open>rnd i\<close> is what the call number \<open>i\<close> of \<open>rand\<close> returns.
\<close>

definition random_id :: "string \<Rightarrow> (nat \<Rightarrow> nat) \<Rightarrow> string" where
  "random_id prefix rnd = foldl (\<lambda>s i. s @ to_string (int (rnd i) mod 10)) prefix [0..<12]"

definition TestTracker :: "(buffer \<Rightarrow> buffer) \<Rightarrow> (nat \<Rightarrow> nat) \<Rightarrow> string list \<Rightarrow> world \<Rightarrow> (int \<times> string) res" where
  "TestTracker sha1 rnd argv os =
     (if length argv < 2 then Inr (1, ''Usage: ./test_tracker <file.torrent>'' @ newline)
      else
        let out = ''Loading '' @ argv ! 1 @ ''...'' @ newline
        in case find_peers sha1 (random_id ''-BT1000-'' rnd) (argv ! 1) os of
             Inl (Throw e) \<Rightarrow> Inr (0, out)
           | Inl (Undefined u) \<Rightarrow> Inl (Undefined u)
           | Inr (tf, ps) \<Rightarrow>
               Inr (0, out @ ''Found '' @ nat_to_string (length ps) @ '' peers:'' @ newline
                 @ concat (map (\<lambda>p. '' - '' @ ip p @ '':'' @ nat_to_string (unat (peer_port p)) @ newline) ps)))"

lemma length_random_id:
  assumes "length prefix = 8"
  shows "length (random_id prefix rnd) = 20"
proof -
  have d: "length (to_string (int n mod 10)) = 1" for n
    by (simp add: to_string_def nat_to_string.simps nat_less_iff)
  have "length (foldl (\<lambda>s i. s @ to_string (int (rnd i) mod 10)) prefix is) = length prefix + length is" for "is"
    by (induction "is" arbitrary: prefix) (simp_all add: d)
  then show ?thesis
    using assms by (simp add: random_id_def)
qed

section \<open>The download test\<close>

definition TestDownload :: "(buffer \<Rightarrow> buffer) \<Rightarrow> (nat \<Rightarrow> nat) \<Rightarrow> string list \<Rightarrow> world \<Rightarrow> outcome" where
  "TestDownload sha1 rnd argv os =
     (if length argv < 2 then Exit 1 None
      else
        let pid = random_id ''-CPP100-'' rnd
        in case find_peers sha1 pid (argv ! 1) os of
             Inl (Throw e) \<Rightarrow> Exit 1 None
           | Inl (Undefined u) \<Rightarrow> Crashed u
           | Inr (tf, ps) \<Rightarrow>
               if ps = [] then Exit 1 None
               else
                 (case Start (wd_epfd os) (wd_conns os) (wd_script os) (Downloader tf pid ps (wd_opened os)) of
                    (Returned, f) \<Rightarrow> Exit 0 (Some f)
                  | (Waiting, f) \<Rightarrow> Running f
                  | (Faulted (Throw e), f) \<Rightarrow> Exit 1 (Some f)
                  | (Faulted (Undefined u), f) \<Rightarrow> Crashed u))"

text \<open>With a loaded torrent the test downloads as little as the client does.\<close>

lemma download_test_nothing:
  assumes "wd_file os = Some data" and "length data < 2 ^ 63"
    and "TestDownload sha1 rnd argv os = Exit 0 (Some f) \<or> TestDownload sha1 rnd argv os = Running f"
  shows "w_added (file_writer (f_downloader f)) = []"
proof -
  obtain tf ps r where l: "Load sha1 (argv ! 1) (wd_file os) = Inr tf"
    and s: "Start (wd_epfd os) (wd_conns os) (wd_script os)
      (Downloader tf (random_id ''-CPP100-'' rnd) ps (wd_opened os)) = (r, f)" "\<forall>flt. r \<noteq> Faulted flt"
    using assms(3)
    by (auto simp: TestDownload_def find_peers_def Let_def split: if_splits sum.splits fault.splits prod.splits run_end.splits)
  have h: "\<forall>h\<in>set (piece_hashes tf). length h = 20" "length (piece_hashes tf) < 2 ^ 63"
    using Load_piece_hashes [OF _ assms(2), of sha1 "argv ! 1" tf] l assms(1) by auto
  show ?thesis
    using no_hash_matches [OF reachable_in_loop [OF s h(2)] h(1)] .
qed

section \<open>The worker test\<close>

definition chunk_size :: nat where
  "chunk_size = 1024 * 1024"

definition junk_data :: buffer where
  "junk_data = replicate chunk_size 65"

text \<open>
  The loop over the ten chunks; \<open>sched i\<close> is how many steps the writer thread makes while
  the loop sleeps after chunk \<open>i\<close>.
\<close>

fun chunk_loop :: "(nat \<Rightarrow> nat) \<Rightarrow> nat list \<Rightarrow> writer \<times> speed \<Rightarrow> writer \<times> speed" where
  "chunk_loop sched [] ws = ws"
| "chunk_loop sched (i # is) (w, s) =
     (let chunk_copy = junk_data;
          w = fst (writer_add w chunk_copy (int (i * chunk_size)));
          s = speed_add s (word_of_nat chunk_size)
      in chunk_loop sched is (thread_run (sched i) w, s))"

text \<open>
  \<open>main\<close>; \<open>file_size f\<close> is the size at which another stream finds the file while
  the writer holds it open in the state \<open>f\<close>, \<open>None\<close> when it cannot be opened.
\<close>

definition TestWorker :: "bool \<Rightarrow> (ofstream \<Rightarrow> nat option) \<Rightarrow> (nat \<Rightarrow> nat) \<Rightarrow> int \<times> writer \<times> speed" where
  "TestWorker opened file_size sched =
     (let total_size = 1024 * 1024 * 10;
          w = writer_start (Writer opened);
          s = Speed (word_of_nat total_size);
          (w, s) = chunk_loop sched [0..<10] (w, s);
          w = thread_run (sched 10) w
      in (case file_size (w_out w) of
            None \<Rightarrow> 1
          | Some written_size \<Rightarrow> if written_size = total_size then 0 else 1, w, s))"

definition chunk_job :: "nat \<Rightarrow> job" where
  "chunk_job i = \<lparr>job_b = junk_data, job_offset = int (i * chunk_size)\<rparr>"

lemma opened_writer_run: "opened_writer w \<Longrightarrow> opened_writer (thread_run n w) \<and> w_added (thread_run n w) = w_added w"
proof (induction n arbitrary: w)
  case (Suc n)
  have "w_added w' = w_added w" if "thread_step w = Some w'" for w'
    using that by (auto simp: thread_step.simps split: writer_phase.splits list.splits if_splits)
  then show ?case
    using Suc opened_writer_thread by (auto split: option.split)
qed simp

lemma chunk_loop_adds:
  "opened_writer w \<Longrightarrow> chunk_loop sched is (w, s) = (w', s') \<Longrightarrow>
   opened_writer w' \<and> w_added w' = w_added w @ map chunk_job is \<and> total_bytes s' = total_bytes s
     \<and> bytes_downloaded s' = bytes_downloaded s + word_of_nat (length is * chunk_size)"
proof (induction "is" arbitrary: w s)
  case (Cons i "is")
  let ?w = "fst (writer_add w junk_data (int (i * chunk_size)))"
  have "opened_writer (thread_run (sched i) ?w)" "w_added (thread_run (sched i) ?w) = w_added w @ [chunk_job i]"
    using opened_writer_run [OF opened_writer_add [OF Cons.prems(1)]] by (simp_all add: writer_add_def chunk_job_def)
  then show ?case
    using Cons.IH [of "thread_run (sched i) ?w" "speed_add s (word_of_nat chunk_size)"] Cons.prems(2)
    by (simp add: Let_def speed_add_def)
qed simp

lemma chunk_jobs_content:
  "ofs_good (foldl do_job (ofs_open True) (map chunk_job [0..<m]))
   \<and> ofs_content (foldl do_job (ofs_open True) (map chunk_job [0..<m])) = replicate (m * chunk_size) 65"
proof (induction m)
  case 0
  then show ?case
    by (simp add: ofs_open_def)
next
  case (Suc m)
  let ?f = "foldl do_job (ofs_open True) (map chunk_job [0..<m])"
  have j: "0 \<le> job_offset (chunk_job m)" "nat (job_offset (chunk_job m)) = m * chunk_size" "job_b (chunk_job m) = replicate chunk_size 65"
    by (simp_all add: chunk_job_def junk_data_def nat_mult_distrib)
  have "put_bytes (replicate (m * n) a) (m * n) (replicate n a) = replicate (Suc m * n) (a :: u8)" for n a
    by (simp add: put_bytes_def replicate_add [symmetric] add.commute)
  then show ?case
    using Suc do_job_good [OF conjunct1 [OF Suc] j(1)] j(2,3) by simp
qed

text \<open>
  The test passes when the thread had time for what was left, and the file shows what was written;
  if the thread never ran, it fails although nothing is wrong.
\<close>

lemma worker_test_passes:
  assumes "\<And>f. file_size f = Some (length (ofs_content f))" and "22 \<le> sched 10"
  shows "\<exists>w s. TestWorker True file_size sched = (0, w, s) \<and> ofs_content (w_out w) = replicate (10 * chunk_size) 65
    \<and> bytes_downloaded s = total_bytes s"
proof -
  let ?w = "writer_start (Writer True)" and ?s = "Speed (word_of_nat (1024 * 1024 * 10))"
  obtain w s where l: "chunk_loop sched [0..<10] (?w, ?s) = (w, s)"
    by (cases "chunk_loop sched [0..<10] (?w, ?s)")
  have w: "opened_writer w" "w_added w = map chunk_job [0..<10]" "bytes_downloaded s = word_of_nat (10 * chunk_size)"
      "total_bytes s = word_of_nat (1024 * 1024 * 10)"
    using chunk_loop_adds [OF opened_writer_start l] by (simp_all add: Writer_def writer_start_def Speed_def)
  have "length (w_q w) \<le> length (w_added w)"
    using w(1) by (simp add: opened_writer_def writer_inv_def)
  then have "thread_work w \<le> sched 10"
    using w(2) assms(2) by (auto split: writer_phase.split)
  from thread_run_drains [OF w(1) this]
  have d: "w_done (thread_run (sched 10) w) = map chunk_job [0..<10]" "opened_writer (thread_run (sched 10) w)"
    using w(2) by simp_all
  then have c: "ofs_content (w_out (thread_run (sched 10) w)) = replicate (10 * chunk_size) 65"
    using chunk_jobs_content [of 10] by (simp add: opened_writer_def)
  have t: "1024 * 1024 * 10 = 10 * chunk_size"
    by (simp add: chunk_size_def)
  show ?thesis
    using l c w(3,4) unfolding TestWorker_def Let_def t by (simp add: assms(1))
qed

lemma writer_start_out: "w_out (writer_start w) = w_out w"
  by (simp add: writer_start_def)

lemma worker_test_starved:
  assumes "\<And>f. file_size f = Some (length (ofs_content f))" and "\<And>i. sched i = 0"
  shows "fst (TestWorker opened file_size sched) = 1"
proof -
  have "w_out (fst (chunk_loop sched is (w, s))) = w_out w" for "is" w s
    by (induction "is" arbitrary: w s) (simp_all add: Let_def assms(2) writer_add_def)
  moreover obtain w s where l: "chunk_loop sched [0..<10] (writer_start (Writer opened), Speed (word_of_nat (1024 * 1024 * 10))) = (w, s)"
    by (metis prod.exhaust)
  ultimately have "w_out w = ofs_open opened"
    by (metis (no_types, lifting) Writer_def fst_conv writer.select_convs(2) writer_start_out)
  then show ?thesis
    using assms l by (simp add: TestWorker_def Let_def ofs_open_def)
qed

end
