(* ===== verification/Spec2Isabelle.thy ===== *)
theory Spec2Isabelle
  imports Bencode_Props Sha1_Digest Torrent_File Url Tracker_Props Transport Message Worker
    Downloader_Props Connection_Props Farm Client Swarm_Run Verified_Store
    Assignment Conversation Display Descriptors Hostile Connection_Test Test_Programs
begin

text \<open>
  NodeLink, a BitTorrent client in C++. A run loads a torrent file, asks the tracker for peers,
  opens at most five TCP connections, downloads pieces block by block in one event loop, checks
  each piece with SHA-1 and hands it to a writer thread. This development models every component
  of that run and proves what each promises, alone and together.

  Parts and theories, in the order the program uses them (paths under src/):

  \<^item> Prelude, Cpp_Lib: exceptions and undefined behaviour as values (\<open>res\<close>,
    \<open>act\<close>), integer conversions, reachability and the locale \<open>invariant_of\<close>;
    the standard library functions the code calls (number conversion, \<open>find\<close>,
    \<open>std::map\<close> behind the locale \<open>ordered_map\<close>).
  \<^item> Buffer_Utils: include/parsing/buffer.h, with the locale \<open>be_codec\<close> of a
    big-endian codec, interpreted here and in Message.
  \<^item> Bencode, Bencode_Props: include/parsing/Bnode.h and source/parsing/Bnode.cpp. The
    decoder as total mutually recursive functions on an index, the encoder by recursion. Shown:
    the language of the decoder, as an inductive grammar (\<open>spells\<close>) with the value of each
    text; round trip, progress, well-formed results, no value from a text that was cut off, prefix
    freedom, the last of repeated keys wins.
  \<^item> Sha1_Digest: include/parsing/Sha1.h. Shown: equal to FIPS 180-4 in hexadecimal
    digits; the standard (\<open>fips_sha1\<close>, \<open>fips_text\<close>) is written down with constants
    and digits of its own.
  \<^item> Torrent_File: TorrentFile.h and TorrentFile.cpp. Shown: what \<open>Load\<close> returns, its
    errors, that a result is consistent. OpenSSL's SHA1 is an argument.
  \<^item> Url: source/tracker/Url.cpp. Shown: parsing inverts printing, defaults, errors.
  \<^item> Transport: source/tracker/transport.cpp. Every answer of the operating system is an
    argument; constructors return the resource events they cause. What \<open>recv\<close> stored is
    not bounded by the definitions; \<open>recv_contract\<close> states the bound where a result depends
    on it.
  \<^item> Tracker, Tracker_Props: source/tracker/tracker.cpp, HTTP and UDP. Shown: percent
    encoding can be undone; which peers are read back from the 8192 bytes of the one \<open>recv\<close>
    and from the 1024 bytes of a datagram; datagram layout, what is checked of a response and what
    is not, that the socket is always closed.
  \<^item> Message: message.h and message.cpp. Shown: builders make frames, fields at their places.
  \<^item> Worker: Worker.h and Worker.cpp. The writer thread and the network thread as an
    inductive step relation, one step per critical section; the output stream with what was written
    to it and what is in the file before it is flushed or closed. Shown: first in first out, shutdown
    drains the queue, a job is in the closed file unless a later one overwrites it.
  \<^item> Display: the rest of Worker.cpp, the text of every refresh of the progress display, with
    doubles as the rationals they stand for and rounding to 53 bits after each operation; the
    counter is loaded twice in a refresh, and other threads may add bytes before each load. Shown:
    the exact text, percentage and bar tell the share that was counted and are at their end with a
    complete download only, units are right.
  \<^item> Downloader, Downloader_Props: downloader.h and downloader.cpp. Shown: blocks assemble a
    piece, only verified pieces are written, blocks of two pieces in turn are all lost, when a
    block is safe and when it is not, that the progress counter never moves.
  \<^item> Connection, Connection_Props: Connection.h and Connection.cpp. An operation maps the pair
    of a connection and the shared downloader. Shown: reading is independent of TCP segmentation,
    \<open>ProcessBuffer\<close> refines a list of messages, requests tile a piece, bitfields,
    assignment of pieces, starvation, a choke between request and answer, an honest and a hostile
    peer. The locales \<open>counted_invariant\<close>, \<open>session_invariant\<close> and
    \<open>read_invariant\<close> state what a predicate needs to survive any read.
  \<^item> Farm: Farm.cpp and \<open>Downloader::Start\<close>. The loop runs over a script of
    \<open>epoll\<close> answers and writer steps; the locale \<open>run_invariant\<close> states what a
    predicate needs to survive any run. Shown: a run writes verified pieces only and does
    not end by itself; a connection goes through its states in order and only forward, over the
    sending of its handshake (\<open>life_step\<close>).
  \<^item> Honest_Stream, Whole_Download, Seeder_Run: a connection to a peer that shares the file.
    The locale \<open>message_protocol\<close> states what a conversation needs so that its stream may
    be cut anywhere; it is interpreted on the conversation with a seeder, and in Swarm_Run on one
    with a peer that has nothing to offer. Shown: every piece is requested, checked and handed to
    the writer once and in order.
  \<^item> Swarm_Run: the components together in the loop, with a seeder among up to five peers.
    Shown: whatever the order of their events, the output file of the run is the shared file.
  \<^item> Verified_Store: the downloader against any peers, as the refinement of a specification, a
    map from piece indices to verified data (locale \<open>simulation\<close> of Prelude). Shown: every
    step is one of the specification, the output file is the image of the map, and so holds no
    wrong byte of a shared file unless SHA-1 was broken.
  \<^item> Assignment: which connection works on which piece, over all connections of a run. Shown: a
    piece has one owner for good, as long as the pieces of the torrent and the messages received are
    together fewer than \<open>2 ^ 32\<close>, before which the 32-bit counter cannot come round.
  \<^item> Conversation: what every connection of a run has sent, byte for byte. Shown: the
    handshake, the interest and requests for the blocks of its own pieces in order, and no block
    is requested twice, by whichever connection, under the same bound.
  \<^item> Descriptors: what \<open>Start\<close> opens and closes, until its farm and its connections
    are destroyed. Shown: every descriptor is closed as often as it was opened, and once more for
    a peer whose connect failed on it; which address lists are not freed.
  \<^item> Client: \<open>main\<close> of test/main.cpp. Shown: the run as a whole.
  \<^item> Hostile: a fault of one connection as the end of \<open>main\<close>, at whatever point of the run.
    Shown: any peer can crash the client, and so does a torrent without a piece length.
  \<^item> Connection_Test, Test_Programs: the manual test programs of src/test. Shown: what a PASS of
    the connection test tells of the peer, that the message test cannot fail after loading, when
    the worker test passes.

  Conventions. An exception is \<open>Throw\<close>, undefined behaviour is \<open>Undefined\<close>; an
  operation with effects returns the state in which a fault left it, because the callers catch
  exceptions and go on. Machine integers are words where wrapping matters (\<open>int\<close> as a
  signed reading of 32 bits, \<open>size_t\<close> as 64 bits) and integers with a range where it does
  not. A shift of a byte into bit 31 of an \<open>int\<close> is read as the two's complement result
  that compilers give. Containers have fewer than \<open>2 ^ 63\<close> elements; allocation succeeds;
  the call stack is deep enough for the nesting of a bencoded value.

  Bounds and termination. No fuel is used: loops are recursive functions with a measure
  (\<open>decode_element\<close>, \<open>ProcessBuffer\<close>, \<open>find_piece\<close>, \<open>pad_zeros\<close>).
  The event loop and the writer thread, which may run forever, are bounded by their script and
  their number of steps, and the theorems hold for all of them.

  Not modelled: the other console output; TestParser.cpp, which does not compile because it compares
  a vector of bytes with a string literal; the build files. The device takes every byte, so that a
  write or a close of the output stream fails only on a stream that is not good. The answer of
  \<open>send\<close> is, in each event, a function of the bytes accepted so far and those offered; a
  SIGPIPE, which would end the process, is not among the answers. The two counters of
  \<open>Speed::add\<close> are increased in one step. \<open>Start\<close> returns the farm as the loop left it; what the destructors close
  after that is in Descriptors (\<open>leave_start\<close>).
\<close>

end
